(* ===== verification/Go_Prelude.thy ===== *)
theory Go_Prelude
  imports Main
    "HOL-Library.AList"
    "HOL-Library.Multiset"
    "HOL-Library.Char_ord"
    "HOL-Library.List_Lexorder"
    "HOL-Library.Signed_Division"
begin

text \<open>
  The part of the Go language that every component shares: run-time panics as error values,
  \<open>int64\<close> with its wrap-around, maps with the nil map told apart from the empty one and with
  an explicit iteration order, and instants of time. A Go \<open>map\<close> is an association list with
  distinct keys under an \<open>option\<close>, where \<open>None\<close> is the nil map: reading it is allowed, writing
  to it panics. Pointers to structs that one map owns and nobody else keeps (for example the
  \<open>*gossipConsensus\<close> values) are modelled by their values.
\<close>

section \<open>Collections of simplification rules\<close>

named_theorems go_simps \<open>unfolding rules for the Go run-time operations\<close>
named_theorems map_laws \<open>what a lookup returns after each map operation\<close>

section \<open>Panics and results\<close>

datatype panic =
    NilMapWrite
  | NilDereference
  | IndexOutOfRange
  | SliceOutOfRange
  | DivideByZero
  | MakeSliceNegative
  | NegativeWaitGroup
  | Explicit string

type_synonym 'a go = "panic + 'a"

abbreviation Panic :: "panic \<Rightarrow> 'a go" where
  "Panic \<equiv> Inl"

abbreviation Ret :: "'a \<Rightarrow> 'a go" where
  "Ret \<equiv> Inr"

text \<open>Sequential composition: a panic ends the computation.\<close>

definition go_bind :: "'a go \<Rightarrow> ('a \<Rightarrow> 'b go) \<Rightarrow> 'b go" where
  "go_bind r f = (case r of Inl p \<Rightarrow> Panic p | Inr x \<Rightarrow> f x)"

definition returns :: "'a go \<Rightarrow> bool" where
  "returns r \<longleftrightarrow> (case r of Inl _ \<Rightarrow> False | Inr _ \<Rightarrow> True)"

text \<open>An \<open>error\<close> value of the source: \<open>None\<close> is nil, \<open>Some msg\<close> what \<open>Error()\<close> returns.\<close>

type_synonym gerror = "string option"

lemma go_bind_Ret [simp]: "go_bind (Ret x) f = f x"
  by (simp add: go_bind_def)

lemma go_bind_Panic [simp]: "go_bind (Panic p) f = Panic p"
  by (simp add: go_bind_def)

lemma returns_Ret [simp]: "returns (Ret x)"
  by (simp add: returns_def)

lemma returns_Panic [simp]: "\<not> returns (Panic p)"
  by (simp add: returns_def)

lemma go_bind_eq_Ret: "go_bind r f = Ret y \<longleftrightarrow> (\<exists>x. r = Ret x \<and> f x = Ret y)"
  by (cases r) auto

lemma returns_iff: "returns r \<longleftrightarrow> (\<exists>x. r = Ret x)"
  by (cases r) auto

section \<open>Machine integers\<close>

text \<open>Two's complement wrap-around of a 64-bit signed result (Go's \<open>int64\<close> and \<open>int\<close>).\<close>

definition i64 :: "int \<Rightarrow> int" where
  "i64 x = (x + 2 ^ 63) mod 2 ^ 64 - 2 ^ 63"

definition max_i64 :: int where
  "max_i64 = 2 ^ 63 - 1"

definition min_i64 :: int where
  "min_i64 = - (2 ^ 63)"

definition in_i64 :: "int \<Rightarrow> bool" where
  "in_i64 x \<longleftrightarrow> min_i64 \<le> x \<and> x \<le> max_i64"

lemma i64_in_range [simp]: "in_i64 (i64 x)"
  by (simp add: i64_def in_i64_def min_i64_def max_i64_def)

lemma i64_id [simp]: "in_i64 x \<Longrightarrow> i64 x = x"
  by (simp add: i64_def in_i64_def min_i64_def max_i64_def)

lemma i64_max_wraps: "i64 (max_i64 + 1) = min_i64"
  by (simp add: i64_def max_i64_def min_i64_def)

section \<open>Maps\<close>

type_synonym ('k, 'v) gomap = "('k \<times> 'v) list option"

definition make_map :: "('k, 'v) gomap" where
  "make_map = Some []"

definition nil_map :: "('k, 'v) gomap" where
  "nil_map = None"

definition entries :: "('k, 'v) gomap \<Rightarrow> ('k \<times> 'v) list" where
  "entries m = (case m of None \<Rightarrow> [] | Some xs \<Rightarrow> xs)"

definition map_get :: "('k, 'v) gomap \<Rightarrow> 'k \<Rightarrow> 'v option" where
  "map_get m k = map_of (entries m) k"

definition map_set :: "('k, 'v) gomap \<Rightarrow> 'k \<Rightarrow> 'v \<Rightarrow> ('k, 'v) gomap go" where
  "map_set m k v =
     (case m of None \<Rightarrow> Panic NilMapWrite | Some xs \<Rightarrow> Ret (Some (AList.update k v xs)))"

definition map_delete :: "('k, 'v) gomap \<Rightarrow> 'k \<Rightarrow> ('k, 'v) gomap" where
  "map_delete m k = map_option (AList.delete k) m"

definition map_len :: "('k, 'v) gomap \<Rightarrow> nat" where
  "map_len m = length (entries m)"

definition map_ok :: "('k, 'v) gomap \<Rightarrow> bool" where
  "map_ok m \<longleftrightarrow> distinct (map fst (entries m))"

text \<open>A map that is not nil and has one entry per key.\<close>

definition map_alive :: "('k, 'v) gomap \<Rightarrow> bool" where
  "map_alive m \<longleftrightarrow> m \<noteq> None \<and> map_ok m"

text \<open>
  \<open>for k, v := range m\<close> visits every entry once, in an order the language leaves open. A loop
  takes the order as an argument: a function that permutes the entries.
\<close>

type_synonym 'a range_order = "'a list \<Rightarrow> 'a list"

definition go_order :: "'a range_order \<Rightarrow> bool" where
  "go_order ord \<longleftrightarrow> (\<forall>xs. mset (ord xs) = mset xs)"

lemma go_order_id [simp]: "go_order (\<lambda>xs. xs)"
  by (simp add: go_order_def)

lemma go_order_rev [simp]: "go_order rev"
  by (simp add: go_order_def)

lemma go_order_mset: "go_order ord \<Longrightarrow> mset (ord xs) = mset xs"
  by (simp add: go_order_def)

lemma go_order_set: "go_order ord \<Longrightarrow> set (ord xs) = set xs"
  by (metis go_order_mset set_mset_mset)

lemma go_order_keys: "go_order ord \<Longrightarrow> fst ` set (ord xs) = fst ` set xs"
  by (simp add: go_order_set)

lemma go_order_distinct_keys:
  "go_order ord \<Longrightarrow> distinct (map fst (ord xs)) \<longleftrightarrow> distinct (map fst xs)"
  by (rule mset_eq_imp_distinct_iff) (simp add: go_order_mset)

lemma map_of_go_order:
  assumes "go_order ord" and "distinct (map fst xs)"
  shows "map_of (ord xs) = map_of xs"
proof -
  have "distinct (map fst (ord xs))"
    using assms by (simp add: go_order_distinct_keys)
  then show ?thesis
    using assms go_order_set [OF assms(1), of xs] map_of_inject_set [of "ord xs" xs] by blast
qed

subsection \<open>What a lookup returns\<close>

lemma entries_simps [simp]: "entries None = []" "entries (Some xs) = xs"
  by (simp_all add: entries_def)

lemma map_get_make [simp]: "map_get make_map k = None"
  by (simp add: map_get_def make_map_def)

lemma map_get_nil [simp]: "map_get None k = None"
  by (simp add: map_get_def)

lemma map_get_Some: "map_get (Some xs) = map_of xs"
  by (simp add: map_get_def fun_eq_iff)

lemma map_alive_ok [simp]: "map_alive m \<Longrightarrow> map_ok m"
  by (simp add: map_alive_def)

lemma map_set_Some [simp]: "map_set (Some xs) k v = Ret (Some (AList.update k v xs))"
  by (simp add: map_set_def)

lemma map_set_nil [simp]: "map_set None k v = Panic NilMapWrite"
  by (simp add: map_set_def)

lemma map_set_returns: "returns (map_set m k v) \<longleftrightarrow> m \<noteq> None"
  by (simp add: map_set_def split: option.splits)

lemma map_set_Ret:
  assumes "map_set m k v = Ret m'"
  shows "map_get m' = (map_get m)(k \<mapsto> v)" and "map_ok m \<Longrightarrow> map_alive m'"
  using assms
  by (cases m; auto simp: map_alive_def map_ok_def map_get_Some distinct_update update_conv')+

lemma map_set_alive [map_laws]:
  assumes "map_alive m"
  obtains m' where "map_set m k v = Ret m'" and "map_alive m'"
    and "map_get m' = (map_get m)(k \<mapsto> v)"
proof -
  from assms obtain xs where "m = Some xs"
    by (auto simp: map_alive_def)
  then have "map_set m k v = Ret (Some (AList.update k v xs))"
    by simp
  from this map_set_Ret(2) [OF this map_alive_ok [OF assms]] map_set_Ret(1) [OF this]
  show thesis by (rule that)
qed

lemma map_delete_get [map_laws, simp]: "map_get (map_delete m k) = (map_get m)(k := None)"
  by (cases m) (auto simp: map_delete_def map_get_def delete_conv')

lemma map_delete_ok [simp]: "map_ok m \<Longrightarrow> map_ok (map_delete m k)"
  by (cases m) (auto simp: map_delete_def map_ok_def distinct_delete)

lemma map_delete_alive [simp]: "map_alive m \<Longrightarrow> map_alive (map_delete m k)"
  by (auto simp: map_alive_def map_delete_def map_ok_def distinct_delete)

lemma map_alive_make [simp]: "map_alive make_map"
  by (simp add: map_alive_def map_ok_def make_map_def)

lemma map_get_dom: "dom (map_get m) = fst ` set (entries m)"
  by (auto simp: map_get_def dom_def weak_map_of_SomeI map_of_eq_None_iff)

lemma map_len_dom: "map_ok m \<Longrightarrow> map_len m = card (dom (map_get m))"
  using distinct_card [of "map fst (entries m)"]
  by (simp add: map_len_def map_ok_def map_get_dom)

lemma map_get_iff_entry: "map_ok m \<Longrightarrow> map_get m k = Some v \<longleftrightarrow> (k, v) \<in> set (entries m)"
  by (simp add: map_get_def map_ok_def)

text \<open>Copying entries into a map that \<open>make\<close> has just created.\<close>

definition fill_map :: "('k \<times> 'v) list \<Rightarrow> ('k, 'v) gomap" where
  "fill_map xs = Some (fold (\<lambda>(k, v). AList.update k v) xs [])"

lemma fill_map_get: "map_get (fill_map xs) = map_of (rev xs)"
proof -
  have "map_of (fold (\<lambda>(k, v). AList.update k v) xs ys) = map_of ys ++ map_of (rev xs)" for ys
    by (induction xs arbitrary: ys) (auto simp: update_conv' map_add_assoc [symmetric])
  then show ?thesis by (simp add: fill_map_def map_get_Some)
qed

lemma fill_map_alive [simp]: "map_alive (fill_map xs)"
proof -
  have "distinct (map fst ys) \<Longrightarrow> distinct (map fst (fold (\<lambda>(k, v). AList.update k v) xs ys))" for ys
    by (induction xs arbitrary: ys) (auto simp: distinct_update)
  then show ?thesis by (simp add: fill_map_def map_alive_def map_ok_def)
qed

lemma fill_map_distinct:
  assumes "distinct (map fst xs)"
  shows "map_get (fill_map xs) = map_of xs"
proof -
  have "map_of (rev xs) = map_of xs"
    using map_of_go_order [of rev xs] assms by simp
  then show ?thesis by (simp add: fill_map_get)
qed

text \<open>A copy made in any iteration order is the same map.\<close>

lemma fill_map_order:
  assumes "go_order ord" and "map_ok m"
  shows "map_get (fill_map (ord (entries m))) = map_get m"
  using assms
  by (simp add: fill_map_distinct go_order_distinct_keys map_of_go_order map_ok_def map_get_def fun_eq_iff)

lemma fst_map_values [simp]: "fst \<circ> (\<lambda>(k, v). (k, f v)) = fst"
  by (auto simp: fun_eq_iff)

section \<open>Slices\<close>

text \<open>Indexed reads and writes with the bounds check of the run time, and integer remainder.\<close>

definition go_index :: "'a list \<Rightarrow> int \<Rightarrow> 'a go" where
  "go_index xs i =
     (if 0 \<le> i \<and> i < int (length xs) then Ret (xs ! nat i) else Panic IndexOutOfRange)"

definition go_store :: "'a list \<Rightarrow> int \<Rightarrow> 'a \<Rightarrow> 'a list go" where
  "go_store xs i v =
     (if 0 \<le> i \<and> i < int (length xs) then Ret (xs[nat i := v]) else Panic IndexOutOfRange)"

definition go_rem :: "int \<Rightarrow> int \<Rightarrow> int go" where
  "go_rem a b = (if b = 0 then Panic DivideByZero else Ret (a smod b))"

definition make_slice :: "int \<Rightarrow> 'a \<Rightarrow> 'a list go" where
  "make_slice n zero = (if n < 0 then Panic MakeSliceNegative else Ret (replicate (nat n) zero))"

lemma go_index_Ret: "i < length xs \<Longrightarrow> go_index xs (int i) = Ret (xs ! i)"
  by (simp add: go_index_def)

lemma go_store_Ret: "i < length xs \<Longrightarrow> go_store xs (int i) v = Ret (xs[i := v])"
  by (simp add: go_store_def)

lemma smod_nonneg: "0 \<le> (a::int) \<Longrightarrow> 0 < b \<Longrightarrow> a smod b = a mod b"
  by (cases "a = 0") (simp_all add: signed_modulo_int_def signed_divide_int_def minus_mult_div_eq_mod)

section \<open>Counting\<close>

text \<open>\<open>countMap[k] += 1\<close> for every element of a list.\<close>

definition count_incr :: "'k \<Rightarrow> ('k \<times> int) list \<Rightarrow> ('k \<times> int) list" where
  "count_incr k m = AList.update k ((case map_of m k of None \<Rightarrow> 0 | Some n \<Rightarrow> n) + 1) m"

definition count_all :: "'k list \<Rightarrow> ('k \<times> int) list" where
  "count_all xs = fold count_incr xs []"

lemma count_all_distinct [simp]: "distinct (map fst (count_all xs))"
proof -
  have "distinct (map fst m) \<Longrightarrow> distinct (map fst (fold count_incr xs m))" for m
    by (induction xs arbitrary: m) (auto simp: count_incr_def distinct_update)
  then show ?thesis by (simp add: count_all_def)
qed

lemma count_all_get:
  "map_of (count_all xs) k = (if k \<in> set xs then Some (int (count_list xs k)) else None)"
proof -
  have "map_of (fold count_incr xs m) k =
      (if k \<in> set xs \<or> map_of m k \<noteq> None
       then Some ((case map_of m k of None \<Rightarrow> 0 | Some n \<Rightarrow> n) + int (count_list xs k)) else None)" for m
    by (induction xs arbitrary: m) (auto simp: count_incr_def update_conv' split: option.splits)
  then show ?thesis by (simp add: count_all_def)
qed

lemma count_all_mem: "(k, n) \<in> set (count_all xs) \<longleftrightarrow> k \<in> set xs \<and> n = int (count_list xs k)"
  using count_all_get [of xs k] map_of_eq_Some_iff [OF count_all_distinct, of xs k n]
  by (auto split: if_splits)

section \<open>Time\<close>

text \<open>
  \<open>time.Time\<close> is the number of nanoseconds since the Unix epoch as an unbounded integer; the
  zero \<open>Time\<close> is the first of January of year 1. \<open>UnixNano\<close> wraps as the implementation's
  \<open>int64\<close> arithmetic does; \<open>Sub\<close> (and so \<open>time.Since\<close>) saturates at the ends of
  \<open>Duration\<close>. The n-th clock reading of a goroutine is an argument, a function of n.
\<close>

type_synonym time = int
type_synonym duration = int
type_synonym clock = "nat \<Rightarrow> time"

definition nanosecond_per_second :: int where
  "nanosecond_per_second = 1000000000"

definition zero_time :: time where
  "zero_time = - 62135596800 * nanosecond_per_second"

definition time_Unix :: "int \<Rightarrow> int \<Rightarrow> time" where
  "time_Unix sec nsec = sec * nanosecond_per_second + nsec"

definition UnixNano :: "time \<Rightarrow> int" where
  "UnixNano t = i64 t"

definition time_Sub :: "time \<Rightarrow> time \<Rightarrow> duration" where
  "time_Sub t u = max min_i64 (min max_i64 (t - u))"

definition seconds :: "int \<Rightarrow> duration" where
  "seconds n = i64 (n * nanosecond_per_second)"

text \<open>The idiom \<open>time.Unix(ts/1e9, ts%1e9)\<close>: division and remainder truncate towards zero.\<close>

definition time_of_stamp :: "int \<Rightarrow> time" where
  "time_of_stamp ts = time_Unix (ts sdiv nanosecond_per_second) (ts smod nanosecond_per_second)"

lemma time_of_stamp_id [simp]: "time_of_stamp ts = ts"
  unfolding time_of_stamp_def time_Unix_def
  by (rule sdiv_mult_smod_eq)

lemma UnixNano_time_of_stamp: "in_i64 ts \<Longrightarrow> UnixNano (time_of_stamp ts) = ts"
  by (simp add: UnixNano_def)

lemma UnixNano_zero_time: "UnixNano zero_time = - 6795364578871345152"
  by (simp add: UnixNano_def zero_time_def nanosecond_per_second_def i64_def)

lemma time_Sub_exact: "in_i64 (t - u) \<Longrightarrow> time_Sub t u = t - u"
  by (simp add: time_Sub_def in_i64_def)

lemma time_Sub_mono: "t \<le> t' \<Longrightarrow> time_Sub t u \<le> time_Sub t' u"
  by (simp add: time_Sub_def)

end
