(* ===== verification/Go_Strings.thy ===== *)
theory Go_Strings
  imports Go_Prelude "HOL-Library.Sublist"
begin

text \<open>
  The functions of Go's \<open>strings\<close> and \<open>strconv\<close> packages that the service calls, over byte
  strings: \<open>TrimSuffix\<close>, \<open>TrimSpace\<close>, \<open>Split\<close> with a one-byte separator, \<open>FormatInt\<close>,
  \<open>ParseInt\<close> (base 10, 64 bits), \<open>FormatBool\<close>, \<open>ParseBool\<close>. The lemmas are the laws the
  components use: the round trips of the conversions, and that \<open>Split\<close> loses nothing.
\<close>

section \<open>strings\<close>

definition nl :: string where
  "nl = [CHR 0x0A]"

definition TrimSuffix :: "string \<Rightarrow> string \<Rightarrow> string" where
  "TrimSuffix s suf = (if suffix suf s then take (length s - length suf) s else s)"

fun Split :: "char \<Rightarrow> string \<Rightarrow> string list" where
  "Split sep [] = [[]]"
| "Split sep (c # cs) =
     (if c = sep then [] # Split sep cs
      else (case Split sep cs of [] \<Rightarrow> [[c]] | p # ps \<Rightarrow> (c # p) # ps))"

fun Join :: "char \<Rightarrow> string list \<Rightarrow> string" where
  "Join sep [] = []"
| "Join sep [p] = p"
| "Join sep (p # q # ps) = p @ sep # Join sep (q # ps)"

text \<open>
  \<open>TrimSpace\<close> removes leading and trailing white space as \<open>unicode.IsSpace\<close> defines it; the
  list holds the UTF-8 encodings of those code points.
\<close>

definition space_runes :: "string list" where
  "space_runes =
     [[CHR 0x09], [CHR 0x0A], [CHR 0x0B], [CHR 0x0C], [CHR 0x0D], [CHR 0x20],
      [CHR 0xC2, CHR 0x85], [CHR 0xC2, CHR 0xA0], [CHR 0xE1, CHR 0x9A, CHR 0x80]]
     @ map (\<lambda>b. [CHR 0xE2, CHR 0x80, b])
         [CHR 0x80, CHR 0x81, CHR 0x82, CHR 0x83, CHR 0x84, CHR 0x85, CHR 0x86, CHR 0x87,
          CHR 0x88, CHR 0x89, CHR 0x8A, CHR 0xA8, CHR 0xA9, CHR 0xAF]
     @ [[CHR 0xE2, CHR 0x81, CHR 0x9F], [CHR 0xE3, CHR 0x80, CHR 0x80]]"

lemma space_runes_nonempty: "w \<in> set space_runes \<Longrightarrow> w \<noteq> []"
  by (auto simp: space_runes_def)

lemma find_SomeD: "find P xs = Some x \<Longrightarrow> x \<in> set xs \<and> P x"
  by (auto simp: find_Some_iff)

function TrimLeftSpace :: "string \<Rightarrow> string" where
  "TrimLeftSpace s =
     (case find (\<lambda>w. prefix w s) space_runes of
        None \<Rightarrow> s | Some w \<Rightarrow> TrimLeftSpace (drop (length w) s))"
  by pat_completeness auto
termination
proof (relation "measure length")
  fix s w assume "find (\<lambda>w. prefix w s) space_runes = Some w"
  then have "w \<noteq> []" and "prefix w s"
    using find_SomeD [of "\<lambda>w. prefix w s" space_runes w] space_runes_nonempty by auto
  then show "(drop (length w) s, s) \<in> measure length"
    by (auto simp: prefix_def)
qed simp

function TrimRightSpace :: "string \<Rightarrow> string" where
  "TrimRightSpace s =
     (case find (\<lambda>w. suffix w s) space_runes of
        None \<Rightarrow> s | Some w \<Rightarrow> TrimRightSpace (take (length s - length w) s))"
  by pat_completeness auto
termination
proof (relation "measure length")
  fix s w assume "find (\<lambda>w. suffix w s) space_runes = Some w"
  then have "w \<noteq> []" and "suffix w s"
    using find_SomeD [of "\<lambda>w. suffix w s" space_runes w] space_runes_nonempty by auto
  then show "(take (length s - length w) s, s) \<in> measure length"
    by (auto simp: suffix_def)
qed simp

declare TrimLeftSpace.simps [simp del] TrimRightSpace.simps [simp del]

definition TrimSpace :: "string \<Rightarrow> string" where
  "TrimSpace s = TrimRightSpace (TrimLeftSpace s)"

section \<open>strconv\<close>

definition digit_char :: "nat \<Rightarrow> char" where
  "digit_char d = char_of (48 + d)"

definition char_digit :: "char \<Rightarrow> nat option" where
  "char_digit c = (let n = of_char c in if 48 \<le> n \<and> n \<le> 57 then Some (n - 48) else None)"

fun format_nat :: "nat \<Rightarrow> string" where
  "format_nat n =
     (if n < 10 then [digit_char n] else format_nat (n div 10) @ [digit_char (n mod 10)])"

declare format_nat.simps [simp del]

definition FormatInt :: "int \<Rightarrow> string" where
  "FormatInt x = (if x < 0 then CHR ''-'' # format_nat (nat (- x)) else format_nat (nat x))"

fun parse_digits :: "nat \<Rightarrow> string \<Rightarrow> nat option" where
  "parse_digits acc [] = Some acc"
| "parse_digits acc (c # cs) =
     (case char_digit c of None \<Rightarrow> None | Some d \<Rightarrow> parse_digits (10 * acc + d) cs)"

definition ParseUint :: "string \<Rightarrow> nat option" where
  "ParseUint s = (if s = [] then None else parse_digits 0 s)"

text \<open>\<open>None\<close> is the syntax or the range error; the callers only test whether there is one.\<close>

definition ParseInt :: "string \<Rightarrow> int option" where
  "ParseInt s =
     (case s of [] \<Rightarrow> None
      | c # cs \<Rightarrow>
          (let un = (if c = CHR ''+'' \<or> c = CHR ''-'' then ParseUint cs else ParseUint s)
           in case un of None \<Rightarrow> None
              | Some n \<Rightarrow>
                  (let x = (if c = CHR ''-'' then - int n else int n)
                   in if in_i64 x then Some x else None)))"

definition FormatBool :: "bool \<Rightarrow> string" where
  "FormatBool b = (if b then ''true'' else ''false'')"

definition ParseBool :: "string \<Rightarrow> bool option" where
  "ParseBool s =
     (if s \<in> set [''1'', ''t'', ''T'', ''TRUE'', ''true'', ''True''] then Some True
      else if s \<in> set [''0'', ''f'', ''F'', ''FALSE'', ''false'', ''False''] then Some False
      else None)"

section \<open>Laws\<close>

lemma TrimSuffix_append [simp]: "TrimSuffix (s @ suf) suf = s"
  by (simp add: TrimSuffix_def suffix_def)

lemma TrimSuffix_other: "\<not> suffix suf s \<Longrightarrow> TrimSuffix s suf = s"
  by (simp add: TrimSuffix_def)

lemma Split_nonempty [simp]: "Split sep s \<noteq> []"
  by (induction s) (auto split: list.splits)

lemma Join_Split: "Join sep (Split sep s) = s"
proof (induction s)
  case (Cons c cs)
  then show ?case
    by (cases "Split sep cs"; cases "tl (Split sep cs)") auto
qed simp

lemma Split_no_sep: "p \<in> set (Split sep s) \<Longrightarrow> sep \<notin> set p"
proof (induction s arbitrary: p)
  case (Cons c cs)
  then show ?case
    by (cases "Split sep cs") (auto split: if_splits)
qed simp

lemma Split_length: "length (Split sep s) = Suc (count_list s sep)"
proof (induction s)
  case (Cons c cs)
  then show ?case
    by (cases "Split sep cs") auto
qed simp

lemma Split_none: "sep \<notin> set s \<Longrightarrow> Split sep s = [s]"
  by (induction s) auto

lemma Split_append: "sep \<notin> set p \<Longrightarrow> Split sep (p @ sep # s) = p # Split sep s"
  by (induction p) auto

lemma char_digit_digit [simp]: "d < 10 \<Longrightarrow> char_digit (digit_char d) = Some d"
  by (simp add: char_digit_def digit_char_def Let_def)

lemma digit_char_not_sign: "d < 10 \<Longrightarrow> digit_char d \<noteq> CHR ''-'' \<and> digit_char d \<noteq> CHR ''+''"
proof -
  assume "d < 10"
  then have "char_digit (digit_char d) \<noteq> None" by simp
  moreover have "char_digit CHR ''-'' = None" and "char_digit CHR ''+'' = None"
    by (simp_all add: char_digit_def)
  ultimately show ?thesis by metis
qed

lemma format_nat_nonempty [simp]: "format_nat n \<noteq> []"
  by (subst format_nat.simps) simp

lemma parse_digits_append:
  "parse_digits acc (s @ t) =
     (case parse_digits acc s of None \<Rightarrow> None | Some n \<Rightarrow> parse_digits n t)"
  by (induction s arbitrary: acc) (auto split: option.splits)

lemma parse_format_nat: "parse_digits 0 (format_nat n) = Some n"
proof (induction n rule: format_nat.induct)
  case (1 n)
  show ?case
  proof (cases "n < 10")
    case True
    then show ?thesis by (simp add: format_nat.simps [of n])
  next
    case False
    with "1.IH" show ?thesis
      by (simp add: format_nat.simps [of n] parse_digits_append)
  qed
qed

lemma format_nat_hd_digit: "\<exists>d cs. format_nat n = digit_char d # cs \<and> d < 10"
proof (induction n rule: format_nat.induct)
  case (1 n)
  show ?case
    using "1.IH" by (cases "n < 10") (auto simp: format_nat.simps [of n])
qed

lemma ParseInt_FormatInt: "in_i64 x \<Longrightarrow> ParseInt (FormatInt x) = Some x"
proof -
  assume rng: "in_i64 x"
  obtain d cs where hd: "format_nat (nat x) = digit_char d # cs" and d: "d < 10"
    using format_nat_hd_digit by blast
  show ?thesis
  proof (cases "x < 0")
    case True
    with rng show ?thesis
      by (simp add: ParseInt_def FormatInt_def ParseUint_def parse_format_nat)
  next
    case False
    have "ParseUint (format_nat (nat x)) = Some (nat x)"
      by (simp add: ParseUint_def parse_format_nat)
    with False rng hd digit_char_not_sign [OF d] show ?thesis
      by (simp add: ParseInt_def FormatInt_def)
  qed
qed

lemma ParseBool_FormatBool [simp]: "ParseBool (FormatBool b) = Some b"
  by (simp add: ParseBool_def FormatBool_def)

lemma ParseInt_range: "ParseInt s = Some x \<Longrightarrow> in_i64 x"
  by (auto simp: ParseInt_def Let_def split: list.splits option.splits if_splits)

end
