(* ===== verification/Base.thy ===== *)
theory Base
  imports Go_Strings
begin

text \<open>
  \<open>base.go\<close>: the constants of the service, the helpers \<open>Max\<close> and \<open>SliceEqual\<close>, and the two
  loops that call a function for ever: \<open>GoRoutineInSleep\<close> with a fixed pause, \<open>GoRoutineInTimeScale\<close>
  with one that gets shorter as the number of keys grows. A slice is a list under an \<open>option\<close>, where \<open>None\<close> is the nil slice.
\<close>

section \<open>Constants\<close>

definition notificationScriptTimeout :: int where
  "notificationScriptTimeout = 60"

definition verificationScriptTimeoiut :: int where
  "verificationScriptTimeoiut = 60"

definition GOSSIP_LEAVE_INTERVAL_IN_SECONDS :: int where
  "GOSSIP_LEAVE_INTERVAL_IN_SECONDS = 3"

definition STALE_INFO_INTERVAL_IN_SECONDS :: int where
  "STALE_INFO_INTERVAL_IN_SECONDS = 300"

definition verificationFormat :: "string \<Rightarrow> string \<Rightarrow> string \<Rightarrow> string" where
  "verificationFormat a b c = a @ '' '' @ b @ '' '' @ c"

definition notificationFormat :: "string \<Rightarrow> string \<Rightarrow> string \<Rightarrow> string \<Rightarrow> string" where
  "notificationFormat a b c d = a @ '' '' @ b @ '' '' @ c @ '' '' @ d"

section \<open>Helpers\<close>

definition Max :: "int \<Rightarrow> int \<Rightarrow> int" where
  "Max x y = (if x > y then x else y)"

text \<open>The loop of \<open>SliceEqual\<close>: both slices have the same length when it runs.\<close>

fun slice_loop :: "string list \<Rightarrow> string list \<Rightarrow> bool" where
  "slice_loop (x # xs) (y # ys) = (if x \<noteq> y then False else slice_loop xs ys)"
| "slice_loop _ _ = True"

definition SliceEqual :: "string list option \<Rightarrow> string list option \<Rightarrow> bool" where
  "SliceEqual a b =
     (let xs = (case a of None \<Rightarrow> [] | Some l \<Rightarrow> l);
          ys = (case b of None \<Rightarrow> [] | Some l \<Rightarrow> l)
      in if (a = None) \<noteq> (b = None) then False
         else if length xs \<noteq> length ys then False
         else slice_loop xs ys)"

text \<open>
  The pause in seconds after a round of \<open>GoRoutineInTimeScale\<close>. The argument \<open>ceil_log10\<close> is
  \<open>math.Ceil(math.Log10(float64(x)))\<close>, whose floating-point rounding is left open; \<open>math.Exp2\<close>
  of a small integer is exact.
\<close>

definition time_scale_interval :: "(int \<Rightarrow> nat) \<Rightarrow> int \<Rightarrow> int \<Rightarrow> int" where
  "time_scale_interval ceil_log10 base n =
     (let len = ceil_log10 (Max n 2);
          scale = 2 ^ len;
          interval = base sdiv scale
      in Max interval 3)"

text \<open>
  The instant at which the loops call their function for the n-th time. \<open>took n\<close> is how long that call
  takes, with what the scheduler adds to the sleep after it; \<open>keys n\<close> is the number of keys after it.
\<close>

fun round_start :: "(nat \<Rightarrow> int) \<Rightarrow> (nat \<Rightarrow> duration) \<Rightarrow> int \<Rightarrow> nat \<Rightarrow> int" where
  "round_start took pause t0 0 = t0"
| "round_start took pause t0 (Suc n) = round_start took pause t0 n + took n + max 0 (pause n)"

definition GoRoutineInSleep :: "duration \<Rightarrow> (nat \<Rightarrow> int) \<Rightarrow> int \<Rightarrow> nat \<Rightarrow> int" where
  "GoRoutineInSleep duration took = round_start took (\<lambda>_. duration)"

definition GoRoutineInTimeScale :: "(int \<Rightarrow> nat) \<Rightarrow> int \<Rightarrow> (nat \<Rightarrow> int) \<Rightarrow> (nat \<Rightarrow> int) \<Rightarrow> int \<Rightarrow> nat \<Rightarrow> int" where
  "GoRoutineInTimeScale ceil_log10 base keys took =
     round_start took (\<lambda>n. seconds (time_scale_interval ceil_log10 base (keys n)))"

text \<open>
  What the service relies on of the floating-point logarithm: between the logarithms of 2 and of
  the largest \<open>int64\<close>, rounded up.
\<close>

definition log10_bounds :: "(int \<Rightarrow> nat) \<Rightarrow> bool" where
  "log10_bounds ceil_log10 \<longleftrightarrow>
     (\<forall>x. 2 \<le> x \<and> x \<le> max_i64 \<longrightarrow> 1 \<le> ceil_log10 x \<and> ceil_log10 x \<le> 19)"

section \<open>Laws\<close>

lemma Max_eq_max [simp]: "Max x y = max x y"
  by (simp add: Max_def max_def)

lemma slice_loop_iff: "length xs = length ys \<Longrightarrow> slice_loop xs ys \<longleftrightarrow> xs = ys"
  by (induction xs ys rule: slice_loop.induct) auto

lemma SliceEqual_iff: "SliceEqual a b \<longleftrightarrow> a = b"
  by (cases a; cases b) (auto simp: SliceEqual_def Let_def slice_loop_iff)

lemma sdiv_nonneg: "0 \<le> (a::int) \<Longrightarrow> 0 < b \<Longrightarrow> a sdiv b = a div b"
  by (cases "a = 0") (simp_all add: signed_divide_int_def)

text \<open>
  The pause is at least three seconds and at most half of the base interval, or three seconds when
  that is less.
\<close>

lemma time_scale_interval_bounds:
  assumes "log10_bounds ceil_log10" and "0 \<le> base" and "n \<le> max_i64"
  shows "3 \<le> time_scale_interval ceil_log10 base n
    \<and> time_scale_interval ceil_log10 base n \<le> max 3 (base div 2)"
proof -
  let ?k = "ceil_log10 (max n 2)"
  have "1 \<le> ?k"
    using assms(1,3) by (simp add: log10_bounds_def max_i64_def)
  then have "(2::int) ^ 1 \<le> 2 ^ ?k"
    by (intro power_increasing) simp_all
  then have "base div 2 ^ ?k \<le> base div 2"
    using assms(2) zdiv_mono2 [of base 2 "2 ^ ?k"] by simp
  then show ?thesis
    using assms(2) by (simp add: time_scale_interval_def Let_def sdiv_nonneg)
qed

text \<open>
  (C27) The verification rounds are paced: whatever the numbers of keys, the times the rounds take
  and the rounding of the floating-point logarithm, a round starts at least three seconds after the
  end of the one before, so rounds never overlap, and at most half of the base interval after it (or
  three seconds when that is less).
\<close>

theorem verification_rounds_paced:
  assumes "log10_bounds ceil_log10" and "0 \<le> base" and "base \<le> 10 ^ 9" and "\<forall>n. keys n \<le> max_i64"
  shows "let start = GoRoutineInTimeScale ceil_log10 base keys took t0 in
     start n + took n + seconds 3 \<le> start (Suc n)
     \<and> start (Suc n) \<le> start n + took n + seconds (max 3 (base div 2))"
proof -
  let ?p = "time_scale_interval ceil_log10 base (keys n)"
  have p: "3 \<le> ?p" "?p \<le> max 3 (base div 2)"
    using time_scale_interval_bounds [OF assms(1,2), of "keys n"] assms(4) by simp_all
  have s: "seconds x = x * nanosecond_per_second" if "0 \<le> x" "x \<le> 10 ^ 9" for x
    using that by (simp add: seconds_def nanosecond_per_second_def i64_id in_i64_def min_i64_def max_i64_def)
  from p assms(2,3) have "seconds 3 \<le> seconds ?p" "seconds ?p \<le> seconds (max 3 (base div 2))" "0 \<le> seconds 3"
    by (simp_all add: s nanosecond_per_second_def)
  then show ?thesis by (simp add: GoRoutineInTimeScale_def Let_def)
qed

text \<open>A witness: the exact number of decimal digits of \<open>x - 1\<close> as the rounded logarithm.\<close>

definition digits10 :: "int \<Rightarrow> nat" where
  "digits10 x = length (format_nat (nat (x - 1)))"

lemma format_nat_length: "n < 10 ^ Suc k \<Longrightarrow> length (format_nat n) \<le> Suc k"
proof (induction k arbitrary: n)
  case 0
  then show ?case by (simp add: format_nat.simps [of n])
next
  case (Suc k)
  then have "n div 10 < 10 ^ Suc k"
    by (simp add: less_mult_imp_div_less)
  with Suc.IH show ?case
    by (cases "n < 10") (auto simp: format_nat.simps [of n])
qed

lemma digits10_bounds: "log10_bounds digits10"
proof -
  have "1 \<le> digits10 x \<and> digits10 x \<le> 19" if "2 \<le> x" "x \<le> max_i64" for x
  proof
    show "1 \<le> digits10 x"
      by (simp add: digits10_def Suc_le_eq)
    from that have "nat (x - 1) < 10 ^ Suc 18"
      by (simp add: max_i64_def nat_less_iff)
    then show "digits10 x \<le> 19"
      using format_nat_length [of "nat (x - 1)" 18] by (simp add: digits10_def)
  qed
  then show ?thesis by (simp add: log10_bounds_def)
qed

theorem verification_rounds_paced_witness:
  "let start = GoRoutineInTimeScale digits10 120 (\<lambda>n. 5000) (\<lambda>_. 7) 100 in
     start 0 + 7 + seconds 3 \<le> start 1 \<and> start 1 \<le> start 0 + 7 + seconds 60"
  using verification_rounds_paced [OF digits10_bounds, of 120 "\<lambda>_. 5000" "\<lambda>_. 7" 100 0]
  by (simp add: max_i64_def Let_def)

end
