(* ===== verification/Go_Json.thy ===== *)
theory Go_Json
  imports Go_Strings
begin

text \<open>
  What the service uses of Go's \<open>encoding/json\<close>, over byte strings: the compact encoder with its
  escaping of quotes, control characters, the HTML characters and invalid UTF-8; the scanner and
  the decoder of strings with escapes and surrogate pairs; and the rules by which decoding into a
  struct finds its fields (exact name first, then the first name equal up to case; \<open>null\<close> and
  unknown members change nothing; the last duplicate wins). The parser has a fuel argument;
  \<open>parse_value_fuel\<close> shows that the fuel \<open>unmarshal\<close> gives it is always enough. Its nesting
  limit of 10000 levels is left out. The main law is the round trip of flat objects.
\<close>

section \<open>UTF-8\<close>

definition byte_in :: "nat \<Rightarrow> nat \<Rightarrow> char \<Rightarrow> bool" where
  "byte_in lo hi c \<longleftrightarrow> lo \<le> of_char c \<and> of_char c \<le> (hi::nat)"

definition rune_error :: nat where
  "rune_error = 65533"

text \<open>\<open>utf8.DecodeRune\<close>: the code point and the number of bytes; an invalid byte has width 1.\<close>

fun utf8_decode :: "string \<Rightarrow> nat \<times> nat" where
  "utf8_decode [] = (rune_error, 0)"
| "utf8_decode (c # cs) =
     (let b = of_char c;
          lo = (if b = 0xE0 then 0xA0 else if b = 0xF0 then 0x90 else 0x80);
          hi = (if b = 0xED then 0x9F else if b = 0xF4 then 0x8F else 0xBF)
      in if b < 0x80 then (b, 1)
         else if 0xC2 \<le> b \<and> b \<le> 0xDF then
           (case cs of c1 # _ \<Rightarrow>
              if byte_in 0x80 0xBF c1 then ((b mod 32) * 64 + of_char c1 mod 64, 2)
              else (rune_error, 1) | _ \<Rightarrow> (rune_error, 1))
         else if 0xE0 \<le> b \<and> b \<le> 0xEF then
           (case cs of c1 # c2 # _ \<Rightarrow>
              if byte_in lo hi c1 \<and> byte_in 0x80 0xBF c2
              then ((b mod 16) * 4096 + (of_char c1 mod 64) * 64 + of_char c2 mod 64, 3)
              else (rune_error, 1) | _ \<Rightarrow> (rune_error, 1))
         else if 0xF0 \<le> b \<and> b \<le> 0xF4 then
           (case cs of c1 # c2 # c3 # _ \<Rightarrow>
              if byte_in lo hi c1 \<and> byte_in 0x80 0xBF c2 \<and> byte_in 0x80 0xBF c3
              then ((b mod 8) * 262144 + (of_char c1 mod 64) * 4096
                    + (of_char c2 mod 64) * 64 + of_char c3 mod 64, 4)
              else (rune_error, 1) | _ \<Rightarrow> (rune_error, 1))
         else (rune_error, 1))"

definition utf8_encode :: "nat \<Rightarrow> string" where
  "utf8_encode r =
     (if r < 0x80 then [char_of r]
      else if r < 0x800 then [char_of (0xC0 + r div 64), char_of (0x80 + r mod 64)]
      else if r < 0x10000 then
        [char_of (0xE0 + r div 4096), char_of (0x80 + (r div 64) mod 64), char_of (0x80 + r mod 64)]
      else [char_of (0xF0 + r div 262144), char_of (0x80 + (r div 4096) mod 64),
            char_of (0x80 + (r div 64) mod 64), char_of (0x80 + r mod 64)])"

lemma utf8_decode_pos: "0 < snd (utf8_decode (c # cs))"
  by (simp add: Let_def split: list.splits)

lemma utf8_decode_pair_pos: "(r, n) = utf8_decode (c # cs) \<Longrightarrow> 0 < n"
  using utf8_decode_pos [of c cs] by (metis snd_conv)

lemma utf8_decode_ascii [simp]: "of_char c < (128::nat) \<Longrightarrow> utf8_decode (c # cs) = (of_char c, 1)"
  by simp

lemma utf8_decode_width_le: "snd (utf8_decode s) \<le> length s"
  by (cases s) (auto simp: Let_def split: list.splits)

declare utf8_decode.simps(2) [simp del]

section \<open>Encoding\<close>

definition quote_char :: char where "quote_char = CHR 0x22"
definition bslash :: char where "bslash = CHR 0x5C"

definition hex_digit :: "nat \<Rightarrow> char" where
  "hex_digit n = ''0123456789abcdef'' ! n"

definition esc_u :: "nat \<Rightarrow> string" where
  "esc_u r = [bslash, CHR ''u'', hex_digit (r div 4096 mod 16), hex_digit (r div 256 mod 16),
              hex_digit (r div 16 mod 16), hex_digit (r mod 16)]"

definition esc_ascii :: "char \<Rightarrow> string" where
  "esc_ascii c =
     (if c = quote_char \<or> c = bslash then [bslash, c]
      else if c = CHR 0x0A then [bslash, CHR ''n'']
      else if c = CHR 0x0D then [bslash, CHR ''r'']
      else if c = CHR 0x09 then [bslash, CHR ''t'']
      else if of_char c < (32::nat) \<or> c \<in> set ''<>&'' then esc_u (of_char c)
      else [c])"

function json_escape :: "string \<Rightarrow> string" where
  "json_escape s =
     (case s of [] \<Rightarrow> []
      | c # cs \<Rightarrow>
          if of_char c < (128::nat) then esc_ascii c @ json_escape cs
          else (let (r, n) = utf8_decode s
                in if r = rune_error \<and> n = 1 then esc_u rune_error @ json_escape cs
                   else if r = 0x2028 \<or> r = 0x2029 then esc_u r @ json_escape (drop n s)
                   else take n s @ json_escape (drop n s)))"
  by pat_completeness auto
termination
proof (relation "measure length", goal_cases)
  case (4 s c cs x r n)
  then show ?case using utf8_decode_pair_pos [of r n c cs] by simp
next
  case (5 s c cs x r n)
  then show ?case using utf8_decode_pair_pos [of r n c cs] by simp
qed auto

declare json_escape.simps [simp del]

datatype json =
    JNull
  | JBool bool
  | JNum string
  | JStr string
  | JArr "json list"
  | JObj "(string \<times> json) list"

definition print_str :: "string \<Rightarrow> string" where
  "print_str s = quote_char # json_escape s @ [quote_char]"

fun print_json :: "json \<Rightarrow> string" where
  "print_json JNull = ''null''"
| "print_json (JBool b) = FormatBool b"
| "print_json (JNum l) = l"
| "print_json (JStr s) = print_str s"
| "print_json (JArr vs) = CHR ''['' # Join CHR '','' (map print_json vs) @ '']''"
| "print_json (JObj ms) =
     CHR ''{'' # Join CHR '','' (map (\<lambda>(k, v). print_str k @ CHR '':'' # print_json v) ms) @ ''}''"

section \<open>Decoding\<close>

definition is_space :: "char \<Rightarrow> bool" where
  "is_space c \<longleftrightarrow> c \<in> set [CHR 0x20, CHR 0x09, CHR 0x0D, CHR 0x0A]"

definition skip_ws :: "string \<Rightarrow> string" where
  "skip_ws s = dropWhile is_space s"

definition hex_val :: "char \<Rightarrow> nat option" where
  "hex_val c =
     (let n = of_char c in
      if 48 \<le> n \<and> n \<le> 57 then Some (n - 48)
      else if 97 \<le> n \<and> n \<le> 102 then Some (n - 87)
      else if 65 \<le> n \<and> n \<le> 70 then Some (n - 55)
      else None)"

fun hex4 :: "string \<Rightarrow> nat option" where
  "hex4 (a # b # c # d # _) =
     (case (hex_val a, hex_val b, hex_val c, hex_val d) of
        (Some w, Some x, Some y, Some z) \<Rightarrow> Some (4096 * w + 256 * x + 16 * y + z)
      | _ \<Rightarrow> None)"
| "hex4 _ = None"

definition is_surrogate :: "nat \<Rightarrow> bool" where
  "is_surrogate r \<longleftrightarrow> 0xD800 \<le> r \<and> r < 0xE000"

text \<open>The second half of a surrogate pair: \<open>\uXXXX\<close> with a low surrogate right after the first.\<close>

definition low_surrogate :: "string \<Rightarrow> nat option" where
  "low_surrogate s =
     (if take 2 s = [bslash, CHR ''u'']
      then (case hex4 (drop 2 s) of
              Some r \<Rightarrow> if 0xDC00 \<le> r \<and> r < 0xE000 then Some r else None
            | None \<Rightarrow> None)
      else None)"

text \<open>What follows a backslash: the bytes it stands for and how many input bytes it takes.\<close>

definition unescape :: "string \<Rightarrow> (string \<times> nat) option" where
  "unescape s =
     (case s of [] \<Rightarrow> None
      | e # es \<Rightarrow>
          if e = quote_char \<or> e = bslash \<or> e = CHR ''/'' then Some ([e], 1)
          else if e = CHR ''b'' then Some ([CHR 0x08], 1)
          else if e = CHR ''f'' then Some ([CHR 0x0C], 1)
          else if e = CHR ''n'' then Some ([CHR 0x0A], 1)
          else if e = CHR ''r'' then Some ([CHR 0x0D], 1)
          else if e = CHR ''t'' then Some ([CHR 0x09], 1)
          else if e = CHR ''u'' then
            (case hex4 es of None \<Rightarrow> None
             | Some r \<Rightarrow>
                 if is_surrogate r then
                   (case (if r < 0xDC00 then low_surrogate (drop 4 es) else None) of
                      Some r' \<Rightarrow> Some (utf8_encode (0x10000 + (r - 0xD800) * 1024 + (r' - 0xDC00)), 11)
                    | None \<Rightarrow> Some (utf8_encode rune_error, 5))
                 else Some (utf8_encode r, 5))
          else None)"

definition push :: "string \<Rightarrow> (string \<times> string) option \<Rightarrow> (string \<times> string) option" where
  "push bytes r = map_option (\<lambda>(t, rest). (bytes @ t, rest)) r"

text \<open>The rest of a string literal after the opening quote.\<close>

function parse_str :: "string \<Rightarrow> (string \<times> string) option" where
  "parse_str s =
     (case s of [] \<Rightarrow> None
      | c # cs \<Rightarrow>
          if c = quote_char then Some ([], cs)
          else if c = bslash then
            (case unescape cs of None \<Rightarrow> None | Some (bytes, n) \<Rightarrow> push bytes (parse_str (drop n cs)))
          else if of_char c < (32::nat) then None
          else (let (r, n) = utf8_decode s
                in push (if r = rune_error \<and> n = 1 then utf8_encode rune_error else take n s)
                     (parse_str (drop n s))))"
  by pat_completeness auto
termination
proof (relation "measure length", goal_cases)
  case (3 s c cs x r n)
  then show ?case using utf8_decode_pair_pos [of r n c cs] by simp
qed auto

declare parse_str.simps [simp del]

definition is_digit :: "char \<Rightarrow> bool" where
  "is_digit c \<longleftrightarrow> char_digit c \<noteq> None"

text \<open>A number literal: the literal and the rest.\<close>

definition num_sign :: "string \<Rightarrow> string \<times> string" where
  "num_sign s = (case s of [] \<Rightarrow> ([], s) | c # cs \<Rightarrow> if c = CHR ''-'' then (''-'', cs) else ([], s))"

definition num_frac :: "string \<Rightarrow> (string \<times> string) option" where
  "num_frac s =
     (case s of [] \<Rightarrow> Some ([], s)
      | c # cs \<Rightarrow>
          if c = CHR ''.'' then
            (let ds = takeWhile is_digit cs
             in if ds = [] then None else Some (c # ds, dropWhile is_digit cs))
          else Some ([], s))"

definition num_exp :: "string \<Rightarrow> (string \<times> string) option" where
  "num_exp s =
     (case s of
        e # cs \<Rightarrow>
          if e = CHR ''e'' \<or> e = CHR ''E'' then
            (let sg = (case cs of c # _ \<Rightarrow> if c = CHR ''+'' \<or> c = CHR ''-'' then [c] else [] | [] \<Rightarrow> []);
                 rest = drop (length sg) cs;
                 ds = takeWhile is_digit rest
             in if ds = [] then None else Some (e # sg @ ds, dropWhile is_digit rest))
          else Some ([], s)
      | [] \<Rightarrow> Some ([], s))"

definition parse_num :: "string \<Rightarrow> (string \<times> string) option" where
  "parse_num s =
     (let (sg, s1) = num_sign s;
          ds = takeWhile is_digit s1;
          s2 = dropWhile is_digit s1
      in if ds = [] \<or> (hd ds = CHR ''0'' \<and> length ds > 1) then None
         else (case num_frac s2 of None \<Rightarrow> None
               | Some (fr, s3) \<Rightarrow>
                   (case num_exp s3 of None \<Rightarrow> None
                    | Some (ex, s4) \<Rightarrow> Some (sg @ ds @ fr @ ex, s4))))"

definition parse_literal :: "string \<Rightarrow> (json \<times> string) option" where
  "parse_literal s =
     (if prefix ''null'' s then Some (JNull, drop 4 s)
      else if prefix ''true'' s then Some (JBool True, drop 4 s)
      else if prefix ''false'' s then Some (JBool False, drop 5 s)
      else map_option (\<lambda>(l, r). (JNum l, r)) (parse_num s))"

fun parse_value :: "nat \<Rightarrow> string \<Rightarrow> (json \<times> string) option"
  and parse_elems :: "nat \<Rightarrow> string \<Rightarrow> (json list \<times> string) option"
  and parse_members :: "nat \<Rightarrow> string \<Rightarrow> ((string \<times> json) list \<times> string) option"
where
  "parse_value 0 s = None"
| "parse_value (Suc f) s =
     (case skip_ws s of [] \<Rightarrow> None
      | c # cs \<Rightarrow>
          if c = quote_char then map_option (\<lambda>(t, r). (JStr t, r)) (parse_str cs)
          else if c = CHR ''{'' then
            (case skip_ws cs of [] \<Rightarrow> None
             | d # ds \<Rightarrow> if d = CHR ''}'' then Some (JObj [], ds)
                        else map_option (\<lambda>(ms, r). (JObj ms, r)) (parse_members f (d # ds)))
          else if c = CHR ''['' then
            (case skip_ws cs of [] \<Rightarrow> None
             | d # ds \<Rightarrow> if d = CHR '']'' then Some (JArr [], ds)
                        else map_option (\<lambda>(vs, r). (JArr vs, r)) (parse_elems f (d # ds)))
          else parse_literal (c # cs))"
| "parse_elems 0 s = None"
| "parse_elems (Suc f) s =
     (case parse_value f s of None \<Rightarrow> None
      | Some (v, r) \<Rightarrow>
          (case skip_ws r of [] \<Rightarrow> None
           | d # ds \<Rightarrow>
               if d = CHR '']'' then Some ([v], ds)
               else if d = CHR '','' then map_option (\<lambda>(vs, r). (v # vs, r)) (parse_elems f ds)
               else None))"
| "parse_members 0 s = None"
| "parse_members (Suc f) s =
     (case skip_ws s of [] \<Rightarrow> None
      | q # cs \<Rightarrow>
          if q \<noteq> quote_char then None
          else (case parse_str cs of None \<Rightarrow> None
                | Some (k, r) \<Rightarrow>
                    (case skip_ws r of [] \<Rightarrow> None
                     | c # cs \<Rightarrow>
                         if c \<noteq> CHR '':'' then None
                         else (case parse_value f cs of None \<Rightarrow> None
                               | Some (v, r) \<Rightarrow>
                                   (case skip_ws r of [] \<Rightarrow> None
                                    | d # ds \<Rightarrow>
                                        if d = CHR ''}'' then Some ([(k, v)], ds)
                                        else if d = CHR '','' then
                                          map_option (\<lambda>(ms, r). ((k, v) # ms, r)) (parse_members f ds)
                                        else None)))))"

text \<open>\<open>json.Unmarshal\<close> reads one value and allows only white space after it.\<close>

definition unmarshal :: "string \<Rightarrow> json option" where
  "unmarshal s =
     (case parse_value (2 * length s + 2) s of None \<Rightarrow> None
      | Some (j, r) \<Rightarrow> if skip_ws r = [] then Some j else None)"

text \<open>\<open>json.NewDecoder(r).Decode\<close> reads the first value of the stream and leaves the rest.\<close>

definition decode_first :: "string \<Rightarrow> json option" where
  "decode_first s = map_option fst (parse_value (2 * length s + 2) s)"

section \<open>Decoding into Go values\<close>

text \<open>
  Keys are compared up to case as \<open>foldFunc\<close> does for names of ASCII letters: the two non-ASCII
  letters that fold to \<open>k\<close> and \<open>s\<close> (Kelvin sign, long s) count as them.
\<close>

definition lower_char :: "char \<Rightarrow> char" where
  "lower_char c = (let n = of_char c in if 65 \<le> n \<and> n \<le> (90::nat) then char_of (n + 32) else c)"

fun fold_key :: "string \<Rightarrow> string" where
  "fold_key [] = []"
| "fold_key (c # cs) =
     (if take 3 (c # cs) = [CHR 0xE2, CHR 0x84, CHR 0xAA] then CHR ''k'' # fold_key (drop 2 cs)
      else if take 2 (c # cs) = [CHR 0xC5, CHR 0xBF] then CHR ''s'' # fold_key (drop 1 cs)
      else lower_char c # fold_key cs)"

text \<open>The field of a struct a member goes to.\<close>

definition find_field :: "string list \<Rightarrow> string \<Rightarrow> string option" where
  "find_field names key =
     (if key \<in> set names then Some key
      else find (\<lambda>n. fold_key n = fold_key key) names)"

text \<open>Storing a JSON value: \<open>None\<close> is an \<open>UnmarshalTypeError\<close>; \<open>null\<close> leaves the old value.\<close>

definition store_string :: "json \<Rightarrow> string \<Rightarrow> string option" where
  "store_string j old = (case j of JStr s \<Rightarrow> Some s | JNull \<Rightarrow> Some old | _ \<Rightarrow> None)"

definition store_int64 :: "json \<Rightarrow> int \<Rightarrow> int option" where
  "store_int64 j old = (case j of JNum l \<Rightarrow> ParseInt l | JNull \<Rightarrow> Some old | _ \<Rightarrow> None)"

text \<open>
  The members of an object into a struct: \<open>set\<close> stores one member into the named field. A member
  that does not fit makes the whole call report an error, and the callers then drop the value.
\<close>

fun store_members ::
  "string list \<Rightarrow> (string \<Rightarrow> json \<Rightarrow> 'a \<Rightarrow> 'a option) \<Rightarrow> (string \<times> json) list \<Rightarrow> 'a \<Rightarrow> 'a option"
where
  "store_members names store [] x = Some x"
| "store_members names store ((k, v) # ms) x =
     (case find_field names k of
        None \<Rightarrow> store_members names store ms x
      | Some n \<Rightarrow> (case store n v x of None \<Rightarrow> None | Some y \<Rightarrow> store_members names store ms y))"

text \<open>A \<open>map[string]string\<close>: every member is a string or null, the last duplicate wins.\<close>

fun store_string_map :: "(string \<times> json) list \<Rightarrow> (string \<times> string) list \<Rightarrow> (string \<times> string) list option"
where
  "store_string_map [] m = Some m"
| "store_string_map ((k, v) # ms) m =
     (case store_string v [] of None \<Rightarrow> None | Some s \<Rightarrow> store_string_map ms (AList.update k s m))"

lemma find_field_exact [simp]: "n \<in> set names \<Longrightarrow> find_field names n = Some n"
  by (simp add: find_field_def)

lemma store_string_map_strings:
  "distinct (map fst xs @ map fst m) \<Longrightarrow>
   store_string_map (map (\<lambda>(k, v). (k, JStr v)) xs) m = Some (m @ xs)"
proof (induction xs arbitrary: m)
  case (Cons x xs)
  obtain k v where x: "x = (k, v)" by (cases x)
  have "AList.update k v m = m @ [(k, v)]"
    using Cons.prems x by (induction m) auto
  with Cons x show ?case by (simp add: store_string_def)
qed simp

section \<open>The fuel is enough\<close>

lemma skip_ws_le: "length (skip_ws s) \<le> length s"
  by (simp add: skip_ws_def length_dropWhile_le)

lemma parse_str_quote [simp]: "parse_str (quote_char # cs) = Some ([], cs)"
  by (simp add: parse_str.simps)

lemma parse_str_bslash:
  "parse_str (bslash # cs) =
     (case unescape cs of None \<Rightarrow> None | Some (bytes, n) \<Rightarrow> push bytes (parse_str (drop n cs)))"
proof -
  have "bslash \<noteq> quote_char" by (simp add: bslash_def quote_char_def)
  then show ?thesis by (simp add: parse_str.simps [of "bslash # cs"])
qed

lemma parse_str_other:
  "c \<noteq> quote_char \<Longrightarrow> c \<noteq> bslash \<Longrightarrow> utf8_decode (c # cs) = (r, n) \<Longrightarrow>
   parse_str (c # cs) =
     (if of_char c < (32::nat) then None
      else push (if r = rune_error \<and> n = 1 then utf8_encode rune_error else take n (c # cs))
             (parse_str (drop n (c # cs))))"
  by (simp add: parse_str.simps [of "c # cs"])

lemma push_Some: "push b x = Some (t, r) \<Longrightarrow> \<exists>t'. x = Some (t', r)"
  by (auto simp: push_def)

lemma parse_str_shorter: "parse_str s = Some (t, r) \<Longrightarrow> length r < length s"
proof (induction "length s" arbitrary: s t rule: less_induct)
  case less
  show ?case
  proof (cases s)
    case Nil
    with less.prems show ?thesis by (simp add: parse_str.simps)
  next
    case (Cons c cs)
    obtain q n where u: "utf8_decode (c # cs) = (q, n)" by (cases "utf8_decode (c # cs)")
    then have n: "0 < n" using utf8_decode_pair_pos by metis
    have "length r < length s" if p: "parse_str (drop k cs) = Some (t', r)" for k t'
    proof -
      have "length (drop k cs) < length s" using Cons by simp
      from less.hyps [OF this p] this show ?thesis by linarith
    qed
    moreover from this [of 0] have "length r < length s" if "parse_str cs = Some (t', r)" for t'
      using that by simp
    moreover have "drop n (c # cs) = drop (n - 1) cs" using n by (cases n) simp_all
    ultimately show ?thesis
      using less.prems Cons u
      by (cases "c = quote_char"; cases "c = bslash")
        (auto simp: parse_str_bslash parse_str_other split: option.splits if_splits dest!: push_Some)
  qed
qed

lemma num_parts_shorter:
  "num_frac s = Some (x, r) \<Longrightarrow> length r \<le> length s"
  "num_exp s = Some (y, r) \<Longrightarrow> length r \<le> length s"
  "length (snd (num_sign s)) \<le> length s"
  using length_dropWhile_le [of is_digit]
  by (auto simp: num_frac_def num_exp_def num_sign_def Let_def le_Suc_eq
      split: list.splits if_splits char.splits)

lemma parse_num_shorter: "parse_num s = Some (l, r) \<Longrightarrow> length r < length s"
proof -
  assume h: "parse_num s = Some (l, r)"
  obtain sg s1 where sg: "num_sign s = (sg, s1)" by (cases "num_sign s")
  let ?ds = "takeWhile is_digit s1" and ?s2 = "dropWhile is_digit s1"
  from h sg obtain fr s3 ex where r: "?ds \<noteq> []" "num_frac ?s2 = Some (fr, s3)" "num_exp s3 = Some (ex, r)"
    by (auto simp: parse_num_def Let_def split: if_splits option.splits)
  have "length ?ds + length ?s2 = length s1"
    by (metis length_append takeWhile_dropWhile_id)
  moreover have "0 < length ?ds" using r(1) by blast
  moreover have "length s1 \<le> length s" using num_parts_shorter(3) [of s] sg by simp
  ultimately show ?thesis
    using num_parts_shorter(1) [OF r(2)] num_parts_shorter(2) [OF r(3)] by linarith
qed

lemma parse_literal_shorter: "parse_literal s = Some (j, r) \<Longrightarrow> length r < length s"
  using parse_num_shorter [of s]
  by (auto simp: parse_literal_def prefix_def split: if_splits)

lemma skip_ws_Cons_le: "skip_ws s = c # cs \<Longrightarrow> length cs < length s"
  using skip_ws_le [of s] by simp

text \<open>One unfolding of each function, with the results of the others as facts.\<close>

lemma parse_value_shorter_step:
  assumes "\<And>s vs r. parse_elems f s = Some (vs, r) \<Longrightarrow> length r < length s"
    and "\<And>s ms r. parse_members f s = Some (ms, r) \<Longrightarrow> length r < length s"
    and h: "parse_value (Suc f) s = Some (j, r)"
  shows "length r < length s"
proof -
  from h obtain c cs where c: "skip_ws s = c # cs"
    by (auto split: list.splits)
  have le: "length cs < length s" using skip_ws_Cons_le [OF c] .
  have "length r < length (c # cs) \<or> length r < length (skip_ws cs)"
    using h c assms(1) [of "skip_ws cs"] assms(2) [of "skip_ws cs"]
      parse_str_shorter [of cs] parse_literal_shorter [of "c # cs"]
    by (auto split: list.splits if_splits simp: less_Suc_eq)
  then show ?thesis using le skip_ws_le [of cs] by auto
qed

lemma parse_shorter_all:
  "(\<forall>s j r. parse_value f s = Some (j, r) \<longrightarrow> length r < length s)
   \<and> (\<forall>s vs r. parse_elems f s = Some (vs, r) \<longrightarrow> length r < length s)
   \<and> (\<forall>s ms r. parse_members f s = Some (ms, r) \<longrightarrow> length r < length s)"
proof (induction f)
  case (Suc f)
  then have IH: "\<And>s j r. parse_value f s = Some (j, r) \<Longrightarrow> length r < length s"
    "\<And>s vs r. parse_elems f s = Some (vs, r) \<Longrightarrow> length r < length s"
    "\<And>s ms r. parse_members f s = Some (ms, r) \<Longrightarrow> length r < length s" by blast+
  have E: "length r < length s" if e: "parse_elems (Suc f) s = Some (vs, r)" for s vs r
  proof -
    from e obtain v r1 d ds where "parse_value f s = Some (v, r1)" "skip_ws r1 = d # ds"
      "ds = r \<or> (\<exists>vs. parse_elems f ds = Some (vs, r))"
      by (auto split: option.splits list.splits if_splits)
    then show ?thesis using IH(1) [of s v r1] IH(2) [of ds] skip_ws_Cons_le [of r1 d ds] by force
  qed
  have M: "length r < length s" if m: "parse_members (Suc f) s = Some (ms, r)" for s ms r
  proof -
    from m obtain q cs k r1 c cs1 v r2 d ds where
      "skip_ws s = q # cs" "parse_str cs = Some (k, r1)" "skip_ws r1 = c # cs1"
      "parse_value f cs1 = Some (v, r2)" "skip_ws r2 = d # ds"
      "ds = r \<or> (\<exists>ms. parse_members f ds = Some (ms, r))"
      by (auto split: option.splits list.splits if_splits)
    then show ?thesis
      using IH(1) [of cs1 v r2] IH(3) [of ds] parse_str_shorter [of cs k r1] skip_ws_Cons_le [of r1 c cs1]
        skip_ws_Cons_le [of r2 d ds] skip_ws_Cons_le [of s q cs] by force
  qed
  have V: "length r < length s" if "parse_value (Suc f) s = Some (j, r)" for s j r
    using IH(2,3) that by (rule parse_value_shorter_step)
  show ?case
    using V E M by blast
qed simp

lemma parse_value_shorter: "parse_value f s = Some (j, r) \<Longrightarrow> length r < length s"
  using parse_shorter_all by blast

text \<open>
  Every second call consumes a byte, so a call on \<open>s\<close> needs at most twice the length of \<open>s\<close> plus
  one or two as fuel, and more fuel changes nothing.
\<close>

lemma parse_fuel_all:
  "(\<forall>s. 2 * length s + 2 \<le> f \<and> f \<le> g \<longrightarrow> parse_value f s = parse_value g s)
   \<and> (\<forall>s. 2 * length s + 3 \<le> f \<and> f \<le> g \<longrightarrow> parse_elems f s = parse_elems g s)
   \<and> (\<forall>s. 2 * length s + 3 \<le> f \<and> f \<le> g \<longrightarrow> parse_members f s = parse_members g s)"
proof (induction f arbitrary: g)
  case (Suc f)
  have IH: "2 * length s + 2 \<le> f \<Longrightarrow> f \<le> g \<Longrightarrow> parse_value f s = parse_value g s"
    "2 * length s + 3 \<le> f \<Longrightarrow> f \<le> g \<Longrightarrow> parse_elems f s = parse_elems g s"
    "2 * length s + 3 \<le> f \<Longrightarrow> f \<le> g \<Longrightarrow> parse_members f s = parse_members g s" for s g
    using Suc.IH [of g] by blast+
  have V: "parse_value (Suc f) s = parse_value g s" if f: "2 * length s + 2 \<le> Suc f" "Suc f \<le> g" for s
  proof -
    obtain h where g: "g = Suc h" "f \<le> h" using f(2) by (cases g) auto
    have "parse_elems f t = parse_elems h t" "parse_members f t = parse_members h t"
      if "skip_ws s = c # cs" "skip_ws cs = t" for c cs t
      using IH(2,3) [of t h] g f skip_ws_Cons_le [OF that(1)] skip_ws_le [of cs] that(2) by auto
    then show ?thesis
      unfolding g by (auto split: list.splits)
  qed
  have E: "parse_elems (Suc f) s = parse_elems g s" if f: "2 * length s + 3 \<le> Suc f" "Suc f \<le> g" for s
  proof -
    obtain h where g: "g = Suc h" "f \<le> h" using f(2) by (cases g) auto
    have v: "parse_value f s = parse_value h s" using IH(1) [of s h] f g by simp
    have "parse_elems f ds = parse_elems h ds"
      if "parse_value h s = Some (v, r)" "skip_ws r = d # ds" for v r d ds
      using IH(2) [of ds h] g f skip_ws_Cons_le [OF that(2)] parse_value_shorter [OF that(1)] by auto
    with v show ?thesis unfolding g by (auto split: list.splits option.splits)
  qed
  have M: "parse_members (Suc f) s = parse_members g s" if f: "2 * length s + 3 \<le> Suc f" "Suc f \<le> g" for s
  proof -
    obtain h where g: "g = Suc h" "f \<le> h" using f(2) by (cases g) auto
    have v: "parse_value f cs1 = parse_value h cs1" and
      m: "parse_value h cs1 = Some (v, r2) \<Longrightarrow> skip_ws r2 = d # ds \<Longrightarrow> parse_members f ds = parse_members h ds"
      if "skip_ws s = q # cs" "parse_str cs = Some (k, r1)" "skip_ws r1 = c # cs1" for q cs k r1 c cs1 v r2 d ds
      using IH(1) [of cs1 h] IH(3) [of ds h] g f skip_ws_Cons_le [OF that(1)] parse_str_shorter [OF that(2)]
        skip_ws_Cons_le [OF that(3)] skip_ws_Cons_le [of r2 d ds] parse_value_shorter [of h cs1 v r2]
      by auto
    then show ?thesis unfolding g by (auto split: list.splits option.splits)
  qed
  show ?case using V E M by blast
qed simp

lemma parse_value_fuel: "2 * length s + 2 \<le> f \<Longrightarrow> parse_value f s = parse_value (2 * length s + 2) s"
  using parse_fuel_all [of "2 * length s + 2" f] by force

section \<open>Round trips\<close>

definition ascii :: "string \<Rightarrow> bool" where
  "ascii s \<longleftrightarrow> list_all (\<lambda>c. of_char c < (128::nat)) s"

lemma ascii_simps [simp]:
  "ascii []" "ascii (c # s) \<longleftrightarrow> of_char c < (128::nat) \<and> ascii s" "ascii (s @ t) \<longleftrightarrow> ascii s \<and> ascii t"
  by (simp_all add: ascii_def)

lemma json_escape_simps [simp]:
  "json_escape [] = []"
  "of_char c < (128::nat) \<Longrightarrow> json_escape (c # cs) = esc_ascii c @ json_escape cs"
  by (simp_all add: json_escape.simps)

lemma hex_val_digit [simp]: "n < 16 \<Longrightarrow> hex_val (hex_digit n) = Some n"
proof -
  assume "n < 16"
  moreover have "\<forall>n \<in> set [0..<16]. hex_val (hex_digit n) = Some n" by code_simp
  ultimately show ?thesis by simp
qed

lemma hex4_esc:
  assumes "r < 128"
  shows "hex4 ([hex_digit (r div 4096 mod 16), hex_digit (r div 256 mod 16), hex_digit (r div 16 mod 16),
          hex_digit (r mod 16)] @ s) = Some r"
proof -
  have "r div 4096 = 0" "r div 256 = 0" "r div 16 < 16" using assms by auto
  then show ?thesis by simp
qed

lemma parse_esc_u:
  assumes "r < 128"
  shows "parse_str (esc_u r @ s) = push [char_of r] (parse_str s)"
proof -
  let ?h = "[hex_digit (r div 4096 mod 16), hex_digit (r div 256 mod 16), hex_digit (r div 16 mod 16),
          hex_digit (r mod 16)]"
  have h: "hex4 (?h @ s) = Some r"
    by (rule hex4_esc) (use assms in simp)
  have "unescape (CHR ''u'' # ?h @ s) = Some ([char_of r], 5)"
    using assms h by (simp add: unescape_def quote_char_def bslash_def is_surrogate_def utf8_encode_def
        del: hex4.simps)
  then show ?thesis
    by (simp add: esc_u_def parse_str_bslash)
qed

lemma parse_esc_ascii:
  assumes "of_char c < (128::nat)"
  shows "parse_str (esc_ascii c @ s) = push [c] (parse_str s)"
proof (cases "esc_ascii c = [c]")
  case True
  then have "c \<noteq> quote_char" "c \<noteq> bslash" "\<not> of_char c < (32::nat)"
    by (auto simp: esc_ascii_def esc_u_def split: if_splits)
  then show ?thesis
    using True assms parse_str_other [of c s "of_char c" 1] by (simp add: rune_error_def)
next
  case False
  then have "c \<in> {quote_char, bslash, CHR 0x0A, CHR 0x0D, CHR 0x09} \<and> (\<exists>e. esc_ascii c = [bslash, e]
      \<and> unescape (e # s) = Some ([c], 1)) \<or> esc_ascii c = esc_u (of_char c)"
    by (auto simp: esc_ascii_def unescape_def quote_char_def bslash_def split: if_splits)
  then show ?thesis
    using assms parse_esc_u [of "of_char c" s] by (auto simp: parse_str_bslash)
qed

lemma parse_str_escape: "ascii s \<Longrightarrow> parse_str (json_escape s @ quote_char # r) = Some (s, r)"
  by (induction s) (simp_all add: parse_esc_ascii push_def)

text \<open>Numbers: the decimal form of an integer, followed by a comma or a closing brace.\<close>

definition delim :: "char \<Rightarrow> bool" where
  "delim d \<longleftrightarrow> d = CHR '','' \<or> d = CHR ''}''"

lemma format_nat_digits: "c \<in> set (format_nat n) \<Longrightarrow> is_digit c"
proof (induction n rule: format_nat.induct)
  case (1 n)
  then show ?case
    by (cases "n < 10") (auto simp: format_nat.simps [of n] is_digit_def)
qed

lemma format_nat_lead: "0 < n \<Longrightarrow> hd (format_nat n) \<noteq> CHR ''0''"
proof (induction n rule: format_nat.induct)
  case (1 n)
  have "digit_char n \<noteq> CHR ''0''" if "n < 10" "0 < n"
    using char_digit_digit [OF that(1)] that(2) by (auto simp: char_digit_def Let_def)
  with 1 show ?case
    by (cases "n < 10") (auto simp: format_nat.simps [of n])
qed

lemma format_nat_zero: "format_nat 0 = ''0''"
  by code_simp

lemma parse_num_nat:
  assumes "delim d"
  shows "takeWhile is_digit (format_nat n @ d # r) = format_nat n"
    and "dropWhile is_digit (format_nat n @ d # r) = d # r"
proof -
  have nd: "\<not> is_digit d" using assms by (auto simp: delim_def is_digit_def char_digit_def)
  have "\<forall>c \<in> set (format_nat n). is_digit c" using format_nat_digits by blast
  then show "takeWhile is_digit (format_nat n @ d # r) = format_nat n"
    and "dropWhile is_digit (format_nat n @ d # r) = d # r"
    using nd by (simp_all add: takeWhile_append2 dropWhile_append2)
qed

lemma format_nat_no_zero: "\<not> (hd (format_nat n) = CHR ''0'' \<and> length (format_nat n) > 1)"
  using format_nat_lead [of n] format_nat_zero by (cases "n = 0") auto

lemma format_nat_not_minus: "\<exists>c cs. format_nat n = c # cs \<and> c \<noteq> CHR ''-'' \<and> is_digit c"
proof -
  obtain d cs where "format_nat n = digit_char d # cs" "d < 10" using format_nat_hd_digit by blast
  then show ?thesis using digit_char_not_sign [of d] by (simp add: is_digit_def)
qed

lemma parse_num_FormatInt:
  assumes "delim d"
  shows "parse_num (FormatInt x @ d # r) = Some (FormatInt x, d # r)"
proof -
  have rest: "num_frac (d # r) = Some ([], d # r)" "num_exp (d # r) = Some ([], d # r)"
    using assms by (auto simp: delim_def num_frac_def num_exp_def)
  obtain c cs where c: "format_nat (nat x) = c # cs" "c \<noteq> CHR ''-''"
    using format_nat_not_minus by blast
  then have "num_sign (FormatInt x @ d # r) =
      (if x < 0 then ''-'' else [], format_nat (nat \<bar>x\<bar>) @ d # r)"
    by (simp add: num_sign_def FormatInt_def)
  then show ?thesis
    using parse_num_nat [OF assms, of "nat \<bar>x\<bar>" r] format_nat_no_zero [of "nat \<bar>x\<bar>"] rest
    by (auto simp add: parse_num_def Let_def FormatInt_def)
qed

text \<open>The scalars the service encodes.\<close>

fun scalar :: "json \<Rightarrow> bool" where
  "scalar (JStr s) \<longleftrightarrow> ascii s"
| "scalar (JNum l) \<longleftrightarrow> (\<exists>x. l = FormatInt x)"
| "scalar _ \<longleftrightarrow> False"

lemma FormatInt_head: "\<exists>c cs. FormatInt x = c # cs \<and> (c = CHR ''-'' \<or> is_digit c)"
  using format_nat_not_minus [of "nat x"] by (auto simp: FormatInt_def)

lemma parse_literal_FormatInt:
  assumes "delim d"
  shows "parse_literal (FormatInt x @ d # r) = Some (JNum (FormatInt x), d # r)"
proof -
  obtain c cs where c: "FormatInt x = c # cs" "c = CHR ''-'' \<or> is_digit c"
    using FormatInt_head by blast
  then have "c \<noteq> CHR ''n''" "c \<noteq> CHR ''t''" "c \<noteq> CHR ''f''"
    by (auto simp: is_digit_def char_digit_def)
  then have "\<not> prefix ''null'' (FormatInt x @ d # r)" "\<not> prefix ''true'' (FormatInt x @ d # r)"
    "\<not> prefix ''false'' (FormatInt x @ d # r)"
    using c by auto
  then show ?thesis
    using parse_num_FormatInt [OF assms] by (simp add: parse_literal_def)
qed

lemma skip_ws_Cons [simp]: "\<not> is_space c \<Longrightarrow> skip_ws (c # cs) = c # cs"
  by (simp add: skip_ws_def)

lemma not_space [simp]:
  "\<not> is_space quote_char" "\<not> is_space CHR ''{''" "\<not> is_space CHR ''}''" "\<not> is_space CHR '':''"
  "\<not> is_space CHR '',''" "\<not> is_space CHR ''-''" "is_digit c \<Longrightarrow> \<not> is_space c" "delim c \<Longrightarrow> \<not> is_space c"
  by (auto simp: is_space_def quote_char_def is_digit_def char_digit_def delim_def)

lemma parse_scalar:
  assumes "scalar v" and "delim d"
  shows "parse_value (Suc f) (print_json v @ d # r) = Some (v, d # r)"
proof (cases v)
  case (JStr s)
  with assms show ?thesis by (simp add: print_str_def parse_str_escape)
next
  case (JNum l)
  then obtain x where x: "l = FormatInt x" using assms(1) by auto
  obtain c cs where c: "FormatInt x = c # cs" "c = CHR ''-'' \<or> is_digit c"
    using FormatInt_head by blast
  then have "c \<noteq> quote_char" "c \<noteq> CHR ''{''" "c \<noteq> CHR ''[''" "\<not> is_space c"
    by (auto simp: is_digit_def char_digit_def quote_char_def is_space_def)
  then show ?thesis
    using parse_literal_FormatInt [OF assms(2), of x r] JNum x c(1) by simp
qed (use assms in auto)

definition print_member :: "string \<times> json \<Rightarrow> string" where
  "print_member m = print_str (fst m) @ CHR '':'' # print_json (snd m)"

definition flat_member :: "string \<times> json \<Rightarrow> bool" where
  "flat_member m \<longleftrightarrow> ascii (fst m) \<and> scalar (snd m)"

lemma parse_member_step:
  assumes "flat_member m" and "delim d"
  shows "parse_members (Suc (Suc f)) (print_member m @ d # r) =
    (if d = CHR ''}'' then Some ([m], r)
     else map_option (\<lambda>(ms, r). (m # ms, r)) (parse_members (Suc f) r))"
proof -
  obtain k v where m: "m = (k, v)" by (cases m)
  have k: "parse_str (json_escape k @ quote_char # CHR '':'' # print_json v @ d # r)
      = Some (k, CHR '':'' # print_json v @ d # r)"
    using assms(1) m by (intro parse_str_escape) (simp add: flat_member_def)
  have v: "parse_value (Suc f) (print_json v @ d # r) = Some (v, d # r)"
    using assms m by (intro parse_scalar) (auto simp: flat_member_def)
  have d: "d \<noteq> CHR ''}'' \<Longrightarrow> d = CHR '',''" using assms(2) by (auto simp: delim_def)
  show ?thesis
    unfolding m print_member_def print_str_def
    using k v d assms(2) by (simp del: parse_value.simps)
qed

lemma parse_print_members:
  "list_all flat_member ms \<Longrightarrow> ms \<noteq> [] \<Longrightarrow> length ms < f \<Longrightarrow>
   parse_members f (Join CHR '','' (map print_member ms) @ CHR ''}'' # r) = Some (ms, r)"
proof (induction ms arbitrary: f)
  case (Cons m ms)
  then obtain g where f: "f = Suc (Suc g)" by (cases f; cases "f - 1") auto
  show ?case
  proof (cases ms)
    case Nil
    with Cons.prems f show ?thesis by (simp add: parse_member_step delim_def del: parse_members.simps)
  next
    case (Cons m' ms')
    with Cons.prems Cons.IH [of "Suc g"] f show ?thesis
      by (simp add: parse_member_step delim_def del: parse_members.simps)
  qed
qed simp

lemma print_json_obj: "print_json (JObj ms) = CHR ''{'' # Join CHR '','' (map print_member ms) @ ''}''"
proof -
  have "(\<lambda>(k, v). print_str k @ CHR '':'' # print_json v) = print_member"
    by (auto simp: print_member_def fun_eq_iff)
  then show ?thesis by simp
qed

lemma Join_length: "length ps \<le> length (Join sep ps) + 1"
  by (induction sep ps rule: Join.induct) auto

lemma print_member_head: "\<exists>cs. Join sep (map print_member (m # ms)) = quote_char # cs"
  by (cases ms) (simp_all add: print_member_def print_str_def)

lemma parse_value_obj:
  "parse_members f (quote_char # cs) = Some (ms, r) \<Longrightarrow>
   parse_value (Suc f) (CHR ''{'' # quote_char # cs) = Some (JObj ms, r)"
proof -
  have "quote_char \<noteq> CHR ''{''" "quote_char \<noteq> CHR ''}''" by (simp_all add: quote_char_def)
  then show "parse_members f (quote_char # cs) = Some (ms, r) \<Longrightarrow> ?thesis"
    by (auto simp del: parse_members.simps)
qed

lemma unmarshal_print_flat:
  assumes "list_all flat_member ms"
  shows "unmarshal (print_json (JObj ms) ) = Some (JObj ms)"
proof (cases ms)
  case Nil
  have "unmarshal ''{}'' = Some (JObj [])" by code_simp
  with Nil show ?thesis by simp
next
  case (Cons m ms')
  let ?b = "Join CHR '','' (map print_member ms)"
  obtain cs where cs: "?b = quote_char # cs" using print_member_head [of "CHR '',''" m ms'] Cons by auto
  have len: "length ms < 2 * length ?b + 5" using Join_length [of "map print_member ms" "CHR '',''"] by simp
  have p: "parse_members (2 * length ?b + 5) (?b @ ''}'') = Some (ms, [])"
    using parse_print_members [OF assms _ len, of "[]"] Cons by simp
  have n: "2 * length (print_json (JObj ms)) + 2 = Suc (2 * length ?b + 5)"
    unfolding print_json_obj by simp
  have "parse_value (Suc (2 * length ?b + 5)) (CHR ''{'' # ?b @ ''}'') = Some (JObj ms, [])"
    using parse_value_obj [of "2 * length ?b + 5" "cs @ ''}''" ms "[]"] p cs by simp
  moreover have "skip_ws [] = []" by (simp add: skip_ws_def)
  ultimately show ?thesis
    unfolding unmarshal_def n unfolding print_json_obj by simp
qed

end
