(* ===== verification/Cache.thy ===== *)
theory Cache
  imports Base Go_Json
begin

text \<open>
  \<open>cache.go\<close>: the replicated key-value store \<open>cacheManager\<close>. Every method takes the manager's
  lock for its whole body, so a method is one atomic step on the record (\<open>Del\<close> takes the read
  lock although it writes, and \<open>Len\<close> takes none). Its contract is the locale \<open>kv_store\<close>; the
  snapshot written by \<open>Marshal\<close> is read back by \<open>UnMarshal\<close>.
\<close>

section \<open>State and operations\<close>

record cacheManager =
  cm_data :: "(string, string) gomap"

definition NewCacheManager :: cacheManager where
  "NewCacheManager = \<lparr>cm_data = make_map\<rparr>"

text \<open>A missing key reads as the zero value of \<open>string\<close>.\<close>

definition cm_Get :: "cacheManager \<Rightarrow> string \<Rightarrow> string" where
  "cm_Get c key = (case map_get (cm_data c) key of None \<Rightarrow> [] | Some v \<Rightarrow> v)"

definition key_not_found :: "string \<Rightarrow> string" where
  "key_not_found key = ''key '' @ key @ '' not found''"

definition cm_GetKey :: "cacheManager \<Rightarrow> string \<Rightarrow> string \<times> gerror" where
  "cm_GetKey c key =
     (case map_get (cm_data c) key of
        Some v \<Rightarrow> (v, None)
      | None \<Rightarrow> ([], Some (key_not_found key)))"

definition cm_Set :: "cacheManager \<Rightarrow> string \<Rightarrow> string \<Rightarrow> (gerror \<times> cacheManager) go" where
  "cm_Set c key value =
     go_bind (map_set (cm_data c) key value) (\<lambda>m. Ret (None, c\<lparr>cm_data := m\<rparr>))"

definition cm_Del :: "cacheManager \<Rightarrow> string \<Rightarrow> gerror \<times> cacheManager" where
  "cm_Del c key = (None, c\<lparr>cm_data := map_delete (cm_data c) key\<rparr>)"

text \<open>\<open>Clone\<close>: the copy is filled in the order in which \<open>range\<close> visits the entries.\<close>

definition cm_Clone :: "(string \<times> string) range_order \<Rightarrow> cacheManager \<Rightarrow> (string, string) gomap"
  where "cm_Clone ord c = fill_map (ord (entries (cm_data c)))"

definition cm_Len :: "cacheManager \<Rightarrow> int" where
  "cm_Len c = i64 (int (map_len (cm_data c)))"

text \<open>\<open>Marshal\<close> writes the members in the order of their keys; a nil map is written as \<open>null\<close>.\<close>

definition string_map_json :: "(string \<times> string) list \<Rightarrow> json" where
  "string_map_json xs = JObj (map (\<lambda>(k, v). (k, JStr v)) (sort_key fst xs))"

definition cm_Marshal :: "cacheManager \<Rightarrow> string" where
  "cm_Marshal c =
     (case cm_data c of None \<Rightarrow> print_json JNull | Some xs \<Rightarrow> print_json (string_map_json xs))"

definition cm_MarshalForKey :: "cacheManager \<Rightarrow> string \<Rightarrow> string \<times> gerror" where
  "cm_MarshalForKey c key =
     (case map_get (cm_data c) key of
        Some v \<Rightarrow> (print_json (string_map_json [(key, v)]), None)
      | None \<Rightarrow> ([], Some (key_not_found key)))"

text \<open>\<open>UnMarshal\<close> replaces the map only when decoding succeeds; \<open>null\<close> decodes to the nil map.\<close>

definition cm_UnMarshal :: "cacheManager \<Rightarrow> string \<Rightarrow> gerror \<times> cacheManager" where
  "cm_UnMarshal c serialized =
     (case decode_first serialized of
        None \<Rightarrow> (Some ''invalid json'', c)
      | Some JNull \<Rightarrow> (None, c\<lparr>cm_data := nil_map\<rparr>)
      | Some (JObj ms) \<Rightarrow>
          (case store_string_map ms [] of
             None \<Rightarrow> (Some ''cannot unmarshal'', c)
           | Some xs \<Rightarrow> (None, c\<lparr>cm_data := Some xs\<rparr>))
      | Some _ \<Rightarrow> (Some ''cannot unmarshal'', c))"

section \<open>Well-formedness\<close>

definition cm_ok :: "cacheManager \<Rightarrow> bool" where
  "cm_ok c \<longleftrightarrow> map_alive (cm_data c)"

definition cm_view :: "cacheManager \<Rightarrow> string \<rightharpoonup> string" where
  "cm_view c = map_get (cm_data c)"

text \<open>The state after a \<open>Set\<close> that does not panic.\<close>

definition cm_after_Set :: "cacheManager \<Rightarrow> string \<Rightarrow> string \<Rightarrow> cacheManager" where
  "cm_after_Set c key value = (case cm_Set c key value of Inl _ \<Rightarrow> c | Inr (_, c') \<Rightarrow> c')"

section \<open>The contract of a key-value store\<close>

text \<open>
  What the replicated state machine relies on: a view as a finite map, and how each write changes
  it. The clients' lemmas are about whole logs of writes. Replaying a log over the state it has
  already produced changes nothing, since the last write to a key wins: this is why a snapshot
  that is taken a little late does no harm.
\<close>

datatype ('k, 'v) kv_op = Put 'k 'v | Remove 'k

fun kv_apply :: "('s \<Rightarrow> 'k \<Rightarrow> 'v \<Rightarrow> 's) \<Rightarrow> ('s \<Rightarrow> 'k \<Rightarrow> 's) \<Rightarrow> ('k, 'v) kv_op \<Rightarrow> 's \<Rightarrow> 's" where
  "kv_apply put del (Put k v) s = put s k v"
| "kv_apply put del (Remove k) s = del s k"

text \<open>The last write of a log to a key: none, a value, or a removal.\<close>

fun last_write :: "('k, 'v) kv_op list \<Rightarrow> 'k \<Rightarrow> 'v option option" where
  "last_write [] k = None"
| "last_write (op # ops) k =
     (case last_write ops k of
        Some w \<Rightarrow> Some w
      | None \<Rightarrow> (case op of Put k' v \<Rightarrow> if k' = k then Some (Some v) else None
                 | Remove k' \<Rightarrow> if k' = k then Some None else None))"

lemma last_write_append:
  "last_write (xs @ ys) k = (case last_write ys k of Some w \<Rightarrow> Some w | None \<Rightarrow> last_write xs k)"
  by (induction xs) (auto split: option.splits)

locale kv_store =
  fixes view :: "'s \<Rightarrow> 'k \<Rightarrow> 'v option"
    and put :: "'s \<Rightarrow> 'k \<Rightarrow> 'v \<Rightarrow> 's"
    and del :: "'s \<Rightarrow> 'k \<Rightarrow> 's"
    and inv :: "'s \<Rightarrow> bool"
  assumes view_put: "inv s \<Longrightarrow> view (put s k v) = (view s)(k \<mapsto> v)"
    and view_del: "inv s \<Longrightarrow> view (del s k) = (view s)(k := None)"
    and inv_put: "inv s \<Longrightarrow> inv (put s k v)"
    and inv_del: "inv s \<Longrightarrow> inv (del s k)"
begin

lemma inv_apply: "inv s \<Longrightarrow> inv (kv_apply put del op s)"
  by (cases op) (simp_all add: inv_put inv_del)

lemma inv_run: "inv s \<Longrightarrow> inv (fold (kv_apply put del) ops s)"
  by (induction ops arbitrary: s) (simp_all add: inv_apply)

lemma view_run:
  "inv s \<Longrightarrow> view (fold (kv_apply put del) ops s) k =
     (case last_write ops k of Some w \<Rightarrow> w | None \<Rightarrow> view s k)"
proof (induction ops arbitrary: s)
  case (Cons op ops)
  then show ?case
    by (cases op) (auto simp: view_put view_del inv_put inv_del split: option.splits)
qed simp

lemma replay:
  assumes "inv s"
  shows "view (fold (kv_apply put del) (es @ fs) (fold (kv_apply put del) es s))
    = view (fold (kv_apply put del) (es @ fs) s)"
proof
  fix k
  show "view (fold (kv_apply put del) (es @ fs) (fold (kv_apply put del) es s)) k
    = view (fold (kv_apply put del) (es @ fs) s) k"
    using view_run [OF inv_run [OF assms, of es], of "es @ fs" k] view_run [OF assms, of es k]
      view_run [OF assms, of "es @ fs" k]
    by (simp add: last_write_append split: option.splits)
qed

lemma lookup_after_put: "inv s \<Longrightarrow> view (put s k v) k = Some v"
  by (simp add: view_put)

end

section \<open>The cache manager is such a store\<close>

lemma cm_ok_New: "cm_ok NewCacheManager"
  by (simp add: cm_ok_def NewCacheManager_def)

lemma cm_Set_ok:
  assumes "cm_ok c"
  obtains c' where "cm_Set c k v = Ret (None, c')" and "cm_ok c'"
    and "cm_view c' = (cm_view c)(k \<mapsto> v)"
proof -
  obtain m' where "map_set (cm_data c) k v = Ret m'" "map_alive m'"
    "map_get m' = (map_get (cm_data c))(k \<mapsto> v)"
    using assms map_set_alive [of "cm_data c" k v] by (auto simp: cm_ok_def)
  then show thesis
    by (intro that [of "c\<lparr>cm_data := m'\<rparr>"]) (simp_all add: cm_Set_def cm_ok_def cm_view_def)
qed

interpretation cmkv: kv_store cm_view cm_after_Set "\<lambda>c k. snd (cm_Del c k)" cm_ok
proof
  fix c :: cacheManager and k v :: string
  assume ok: "cm_ok c"
  then obtain c' where c': "cm_Set c k v = Ret (None, c')" "cm_ok c'"
    "cm_view c' = (cm_view c)(k \<mapsto> v)"
    by (rule cm_Set_ok)
  then show "cm_view (cm_after_Set c k v) = (cm_view c)(k \<mapsto> v)" and "cm_ok (cm_after_Set c k v)"
    by (simp_all add: cm_after_Set_def)
  show "cm_view (snd (cm_Del c k)) = (cm_view c)(k := None)" and "cm_ok (snd (cm_Del c k))"
    using ok by (simp_all add: cm_view_def cm_Del_def cm_ok_def)
qed

lemma cm_Get_view: "cm_Get c k = (case cm_view c k of None \<Rightarrow> [] | Some v \<Rightarrow> v)"
  by (simp add: cm_Get_def cm_view_def)

lemma cm_GetKey_view:
  "cm_GetKey c k = (case cm_view c k of None \<Rightarrow> ([], Some (key_not_found k)) | Some v \<Rightarrow> (v, None))"
  by (simp add: cm_GetKey_def cm_view_def)

subsection \<open>Cloning\<close>

lemma cm_Clone_alive [simp]: "map_alive (cm_Clone ord c)"
  by (simp add: cm_Clone_def)

lemma cm_Clone_view: "go_order ord \<Longrightarrow> map_ok (cm_data c) \<Longrightarrow> map_get (cm_Clone ord c) = cm_view c"
  by (simp add: cm_Clone_def cm_view_def fill_map_order)

subsection \<open>Snapshots\<close>

text \<open>All keys and values are ASCII text.\<close>

definition cm_ascii :: "cacheManager \<Rightarrow> bool" where
  "cm_ascii c \<longleftrightarrow> list_all (\<lambda>(k, v). ascii k \<and> ascii v) (entries (cm_data c))"

lemma decode_unmarshal: "unmarshal s = Some j \<Longrightarrow> decode_first s = Some j"
  by (auto simp: unmarshal_def decode_first_def split: option.splits if_splits)

lemma go_order_sort: "go_order (sort_key f)"
  by (simp add: go_order_def)

lemma decode_string_map:
  assumes "list_all (\<lambda>(k, v). ascii k \<and> ascii v) xs"
  shows "decode_first (print_json (string_map_json xs)) = Some (string_map_json xs)"
proof -
  have "list_all flat_member (map (\<lambda>(k, v). (k, JStr v)) (sort_key fst xs))"
    using assms by (auto simp: list_all_iff flat_member_def)
  then show ?thesis
    unfolding string_map_json_def by (intro decode_unmarshal unmarshal_print_flat)
qed

lemma cm_UnMarshal_Marshal:
  assumes "cm_ok c" and "cm_ascii c"
  obtains c' where "cm_UnMarshal c0 (cm_Marshal c) = (None, c')" and "cm_ok c'"
    and "cm_view c' = cm_view c"
proof -
  obtain xs where xs: "cm_data c = Some xs" "distinct (map fst xs)"
    using assms(1) by (auto simp: cm_ok_def map_alive_def map_ok_def)
  have d: "distinct (map fst (sort_key fst xs))"
    using xs(2) go_order_distinct_keys [OF go_order_sort] by blast
  let ?c = "c0\<lparr>cm_data := Some (sort_key fst xs)\<rparr>"
  have "decode_first (cm_Marshal c) = Some (string_map_json xs)"
    using assms(2) xs(1) decode_string_map [of xs] by (simp add: cm_Marshal_def cm_ascii_def)
  then have "cm_UnMarshal c0 (cm_Marshal c) = (None, ?c)"
    using d store_string_map_strings [of "sort_key fst xs" "[]"]
    by (simp add: cm_UnMarshal_def string_map_json_def)
  moreover have "cm_ok ?c"
    using d by (simp add: cm_ok_def map_alive_def map_ok_def)
  moreover have "cm_view ?c = cm_view c"
    using map_of_go_order [OF go_order_sort xs(2)] xs(1) by (simp add: cm_view_def map_get_Some)
  ultimately show thesis by (rule that)
qed

end
