(* ===== verification/Gossip_Cache.thy ===== *)
theory Gossip_Cache
  imports Cache
begin

text \<open>
  \<open>gossipCache.go\<close>: what this node knows about every key. For each key the manager keeps the
  reports of the nodes (status and timestamp, the newest wins) and four fields that are only
  written by the replicated log: the last agreed status, the time of the last event, the empty
  flag and its time. All methods hold the manager's lock. \<open>Set\<close> also hands every report that
  is news to the gossip node for broadcasting; the messages it hands over are part of its result.
\<close>

section \<open>Data\<close>

type_synonym gossipStatus = string

definition GOSSIP_UP :: gossipStatus where "GOSSIP_UP = ''UP''"
definition GOSSIP_DOWN :: gossipStatus where "GOSSIP_DOWN = ''DOWN''"
definition GOSSIP_EMPTY :: gossipStatus where "GOSSIP_EMPTY = ''EMPTY''"
definition GOSSIP_LESS_THAN_MINSAMPLE :: gossipStatus where
  "GOSSIP_LESS_THAN_MINSAMPLE = ''LESS_THAN_MINSAMPLE''"
definition GOSSIP_NOT_FILL_SAMPLES :: gossipStatus where
  "GOSSIP_NOT_FILL_SAMPLES = ''NOT_FILL_SAMPLES''"
definition GOSSIP_NO_EMPTY_IN_SAMPLES :: gossipStatus where
  "GOSSIP_NO_EMPTY_IN_SAMPLES = ''NO_EMPTY_IN_SAMPLES''"
definition GOSSIP_EMPTY_RECOVER :: gossipStatus where
  "GOSSIP_EMPTY_RECOVER = ''EMPTY_RECOVER''"
definition GOSSIP_KEY_NODE_NOT_EXISTS :: gossipStatus where
  "GOSSIP_KEY_NODE_NOT_EXISTS = ''KEY_NODE_NOT_EXISTS''"

lemmas status_defs = GOSSIP_UP_def GOSSIP_DOWN_def GOSSIP_EMPTY_def
  GOSSIP_LESS_THAN_MINSAMPLE_def GOSSIP_NOT_FILL_SAMPLES_def GOSSIP_NO_EMPTY_IN_SAMPLES_def
  GOSSIP_EMPTY_RECOVER_def GOSSIP_KEY_NODE_NOT_EXISTS_def

record gossipStatusAndTimeStamp =
  gs_status :: gossipStatus
  gs_timeStamp :: int

record gossipConsensus =
  gc_prevEventTime :: time
  gc_prevConsensus :: gossipStatus
  gc_empty :: bool
  gc_emptyTime :: time
  gc_consensus :: "(string, gossipStatusAndTimeStamp) gomap"

record gossipCacheManager =
  gcm_data :: "(string, gossipConsensus) gomap"

text \<open>A broadcast message of \<open>delegate.go\<close>.\<close>

record MyBroadcastMessage =
  msg_TimeStamp :: int
  msg_Node :: string
  msg_Key :: string
  msg_Value :: string
  msg_Status :: gossipStatus

text \<open>The zero value of the struct: what \<open>&gossipConsensus{}\<close> leaves in unnamed fields.\<close>

definition zero_consensus :: gossipConsensus where
  "zero_consensus =
     \<lparr>gc_prevEventTime = zero_time, gc_prevConsensus = [], gc_empty = False,
      gc_emptyTime = zero_time, gc_consensus = nil_map\<rparr>"

section \<open>Operations\<close>

definition NewGossipCacheManager :: gossipCacheManager where
  "NewGossipCacheManager = \<lparr>gcm_data = make_map\<rparr>"

text \<open>The named result is assigned in the innermost branch and then assigned again.\<close>

definition gcm_GetKeyNode :: "gossipCacheManager \<Rightarrow> string \<Rightarrow> string \<Rightarrow> gossipStatus" where
  "gcm_GetKeyNode c key nodeAddr =
     (let ret = (case map_get (gcm_data c) key of
                   None \<Rightarrow> []
                 | Some g \<Rightarrow> (case map_get (gc_consensus g) nodeAddr of
                                None \<Rightarrow> [] | Some r \<Rightarrow> gs_status r));
          ret = GOSSIP_KEY_NODE_NOT_EXISTS
      in ret)"

definition gcm_put :: "gossipCacheManager \<Rightarrow> string \<Rightarrow> gossipConsensus \<Rightarrow> gossipCacheManager go" where
  "gcm_put c key g = go_bind (map_set (gcm_data c) key g) (\<lambda>m. Ret (c\<lparr>gcm_data := m\<rparr>))"

definition gcm_Set ::
  "gossipCacheManager \<Rightarrow> string \<Rightarrow> string \<Rightarrow> string \<Rightarrow> int \<Rightarrow> gossipStatus
   \<Rightarrow> (gossipCacheManager \<times> MyBroadcastMessage list) go" where
  "gcm_Set c key value nodeAddr timestamp status =
     (let report = \<lparr>gs_status = status, gs_timeStamp = timestamp\<rparr>;
          msg = \<lparr>msg_TimeStamp = timestamp, msg_Node = nodeAddr, msg_Key = key,
                 msg_Value = value, msg_Status = status\<rparr>;
          store = (\<lambda>g. go_bind (map_set (gc_consensus g) nodeAddr report)
                     (\<lambda>cs. go_bind (gcm_put c key (g\<lparr>gc_consensus := cs\<rparr>)) (\<lambda>c'. Ret (c', [msg]))))
      in case map_get (gcm_data c) key of
           Some g \<Rightarrow>
             (case map_get (gc_consensus g) nodeAddr of
                Some old \<Rightarrow> if timestamp > gs_timeStamp old then store g else Ret (c, [])
              | None \<Rightarrow> store g)
         | None \<Rightarrow>
             go_bind (gcm_put c key (zero_consensus\<lparr>gc_consensus := Some [(nodeAddr, report)]\<rparr>))
               (\<lambda>c'. Ret (c', [msg])))"

definition gcm_SetPreviousConsensus ::
  "gossipCacheManager \<Rightarrow> string \<Rightarrow> gossipStatus \<Rightarrow> gossipCacheManager go" where
  "gcm_SetPreviousConsensus c key status =
     (case map_get (gcm_data c) key of
        Some g \<Rightarrow> gcm_put c key (g\<lparr>gc_prevConsensus := status\<rparr>)
      | None \<Rightarrow> gcm_put c key (zero_consensus\<lparr>gc_prevConsensus := status\<rparr>))"

definition gcm_GetPreviousConsensus ::
  "gossipCacheManager \<Rightarrow> string \<Rightarrow> gossipStatus \<times> bool" where
  "gcm_GetPreviousConsensus c key =
     (case map_get (gcm_data c) key of
        Some g \<Rightarrow> (gc_prevConsensus g, True)
      | None \<Rightarrow> (GOSSIP_KEY_NODE_NOT_EXISTS, False))"

definition gcm_SetPreviousEventTime ::
  "gossipCacheManager \<Rightarrow> string \<Rightarrow> time \<Rightarrow> gossipCacheManager go" where
  "gcm_SetPreviousEventTime c key eventTime =
     (case map_get (gcm_data c) key of
        Some g \<Rightarrow> gcm_put c key (g\<lparr>gc_prevEventTime := eventTime\<rparr>)
      | None \<Rightarrow> gcm_put c key (zero_consensus\<lparr>gc_prevEventTime := eventTime\<rparr>))"

definition gcm_GetEmpty :: "gossipCacheManager \<Rightarrow> string \<Rightarrow> bool \<times> bool" where
  "gcm_GetEmpty c key =
     (case map_get (gcm_data c) key of
        Some g \<Rightarrow> (gc_empty g, True)
      | None \<Rightarrow> (False, False))"

definition gcm_SetEmpty :: "gossipCacheManager \<Rightarrow> string \<Rightarrow> bool \<Rightarrow> gossipCacheManager go" where
  "gcm_SetEmpty c key emp =
     (case map_get (gcm_data c) key of
        Some g \<Rightarrow> gcm_put c key (g\<lparr>gc_empty := emp\<rparr>)
      | None \<Rightarrow> gcm_put c key (zero_consensus\<lparr>gc_empty := emp\<rparr>))"

definition gcm_setEmptyTime :: "gossipCacheManager \<Rightarrow> string \<Rightarrow> time \<Rightarrow> gossipCacheManager go" where
  "gcm_setEmptyTime c key emptyTime =
     (case map_get (gcm_data c) key of
        Some g \<Rightarrow> gcm_put c key (g\<lparr>gc_emptyTime := emptyTime\<rparr>)
      | None \<Rightarrow> gcm_put c key (zero_consensus\<lparr>gc_emptyTime := emptyTime\<rparr>))"

definition gcm_DelNodeAddr ::
  "gossipCacheManager \<Rightarrow> string \<Rightarrow> string \<Rightarrow> gossipCacheManager go" where
  "gcm_DelNodeAddr c key nodeAddr =
     (case map_get (gcm_data c) key of
        Some g \<Rightarrow> gcm_put c key (g\<lparr>gc_consensus := map_delete (gc_consensus g) nodeAddr\<rparr>)
      | None \<Rightarrow> Ret c)"

definition gcm_DelKey :: "gossipCacheManager \<Rightarrow> string \<Rightarrow> gossipCacheManager" where
  "gcm_DelKey c key = c\<lparr>gcm_data := map_delete (gcm_data c) key\<rparr>"

text \<open>\<open>Clone\<close>: a deep copy, with one iteration order for the keys and one for the reports.\<close>

definition gc_copy ::
  "(string \<times> gossipStatusAndTimeStamp) range_order \<Rightarrow> gossipConsensus \<Rightarrow> gossipConsensus" where
  "gc_copy ordn v =
     \<lparr>gc_prevEventTime = gc_prevEventTime v, gc_prevConsensus = gc_prevConsensus v,
      gc_empty = gc_empty v, gc_emptyTime = gc_emptyTime v,
      gc_consensus = fill_map (ordn (entries (gc_consensus v)))\<rparr>"

definition gcm_Clone ::
  "(string \<times> gossipConsensus) range_order \<Rightarrow> (string \<times> gossipStatusAndTimeStamp) range_order
   \<Rightarrow> gossipCacheManager \<Rightarrow> (string, gossipConsensus) gomap" where
  "gcm_Clone ordk ordn c =
     fill_map (map (\<lambda>(key, v). (key, gc_copy ordn v)) (ordk (entries (gcm_data c))))"

text \<open>
  \<open>GetKey\<close> and \<open>Marshal\<close> build a printable copy. Formatting a time depends on the time zone of
  the host and is the argument \<open>fmt\<close>; \<open>time_json\<close> is \<open>Time.MarshalJSON\<close>, which fails for years
  of more than four digits.
\<close>

record tempGossipStatusAndTimeStamp =
  ts_GossipStatus :: gossipStatus
  ts_TimeStamp :: string

record tempGossipConsensus =
  tg_PrevEventTime :: time
  tg_PrevConsensus :: gossipStatus
  tg_Empty :: bool
  tg_EmptyTime :: time
  tg_Consensus :: "(string, tempGossipStatusAndTimeStamp) gomap"

definition zero_temp :: tempGossipConsensus where
  "zero_temp = \<lparr>tg_PrevEventTime = zero_time, tg_PrevConsensus = [], tg_Empty = False,
     tg_EmptyTime = zero_time, tg_Consensus = make_map\<rparr>"

definition temp_status ::
  "(time \<Rightarrow> string) \<Rightarrow> gossipStatusAndTimeStamp \<Rightarrow> tempGossipStatusAndTimeStamp" where
  "temp_status fmt r =
     \<lparr>ts_GossipStatus = gs_status r, ts_TimeStamp = fmt (time_of_stamp (gs_timeStamp r))\<rparr>"

definition temp_consensus ::
  "(string \<times> gossipStatusAndTimeStamp) range_order \<Rightarrow> (time \<Rightarrow> string) \<Rightarrow> gossipConsensus
   \<Rightarrow> tempGossipConsensus" where
  "temp_consensus ordn fmt v =
     zero_temp\<lparr>tg_PrevConsensus := gc_prevConsensus v, tg_PrevEventTime := gc_prevEventTime v,
       tg_Empty := gc_empty v, tg_EmptyTime := gc_emptyTime v,
       tg_Consensus := fill_map (map (\<lambda>(n, r). (n, temp_status fmt r)) (ordn (entries (gc_consensus v))))\<rparr>"

definition gcm_GetKey ::
  "(string \<times> gossipStatusAndTimeStamp) range_order \<Rightarrow> (time \<Rightarrow> string) \<Rightarrow> gossipCacheManager \<Rightarrow> string
   \<Rightarrow> tempGossipConsensus \<times> gerror" where
  "gcm_GetKey ordn fmt c key =
     (case map_get (gcm_data c) key of
        Some v \<Rightarrow> (temp_consensus ordn fmt v, None)
      | None \<Rightarrow> (zero_temp, Some (key_not_found key)))"

definition temp_status_json :: "tempGossipStatusAndTimeStamp \<Rightarrow> json" where
  "temp_status_json r =
     JObj [(''GossipStatus'', JStr (ts_GossipStatus r)), (''TimeStamp'', JStr (ts_TimeStamp r))]"

definition temp_json :: "(time \<Rightarrow> json option) \<Rightarrow> tempGossipConsensus \<Rightarrow> json option" where
  "temp_json time_json g =
     (case (time_json (tg_PrevEventTime g), time_json (tg_EmptyTime g)) of
        (Some pt, Some et) \<Rightarrow>
          Some (JObj [(''PrevEventTime'', pt), (''PrevConsensus'', JStr (tg_PrevConsensus g)),
            (''Empty'', JBool (tg_Empty g)), (''EmptyTime'', et),
            (''Consensus'', JObj (map (\<lambda>(n, r). (n, temp_status_json r))
                               (sort_key fst (entries (tg_Consensus g)))))])
      | _ \<Rightarrow> None)"

definition gcm_Marshal ::
  "(string \<times> gossipConsensus) range_order \<Rightarrow> (string \<times> gossipStatusAndTimeStamp) range_order
   \<Rightarrow> (time \<Rightarrow> string) \<Rightarrow> (time \<Rightarrow> json option) \<Rightarrow> gossipCacheManager \<Rightarrow> string option" where
  "gcm_Marshal ordk ordn fmt time_json c =
     (let result = fill_map (map (\<lambda>(k, v). (k, temp_consensus ordn fmt v)) (ordk (entries (gcm_data c))));
          members = map (\<lambda>(k, g). map_option (Pair k) (temp_json time_json g)) (sort_key fst (entries result))
      in map_option (\<lambda>ms. print_json (JObj ms)) (those members))"

section \<open>The report table: the newest report of every node on every key\<close>

definition reports :: "gossipCacheManager \<Rightarrow> string \<times> string \<Rightarrow> (int \<times> gossipStatus) option" where
  "reports c kn =
     (case map_get (gcm_data c) (fst kn) of
        None \<Rightarrow> None
      | Some g \<Rightarrow> map_option (\<lambda>r. (gs_timeStamp r, gs_status r)) (map_get (gc_consensus g) (snd kn)))"

text \<open>Well-formed: every map has one entry per key. Live: in addition no report map is nil.\<close>

definition gcm_ok :: "gossipCacheManager \<Rightarrow> bool" where
  "gcm_ok c \<longleftrightarrow> map_alive (gcm_data c)
     \<and> list_all (\<lambda>(k, g). map_ok (gc_consensus g)) (entries (gcm_data c))"

definition gcm_live :: "gossipCacheManager \<Rightarrow> bool" where
  "gcm_live c \<longleftrightarrow> map_alive (gcm_data c)
     \<and> list_all (\<lambda>(k, g). map_alive (gc_consensus g)) (entries (gcm_data c))"

text \<open>The fields the replicated log owns, with the zero value for a key that has no entry.\<close>

type_synonym log_fields = "time \<times> gossipStatus \<times> bool \<times> time"

definition log_view :: "gossipCacheManager \<Rightarrow> string \<Rightarrow> log_fields" where
  "log_view c key =
     (let g = (case map_get (gcm_data c) key of None \<Rightarrow> zero_consensus | Some g \<Rightarrow> g)
      in (gc_prevEventTime g, gc_prevConsensus g, gc_empty g, gc_emptyTime g))"

section \<open>Last-writer-wins tables\<close>

text \<open>
  The contract the gossip layer relies on: merging a report keeps the newer of the two. Whatever
  the order in which reports arrive and however often each is repeated, a table ends up with the
  newest report of each cell; two tables that have seen the same reports agree.
\<close>

fun lww :: "(int \<times> 'v) option \<Rightarrow> int \<times> 'v \<Rightarrow> int \<times> 'v" where
  "lww None x = x"
| "lww (Some old) x = (if fst x > fst old then x else old)"

definition newest :: "(int \<times> 'v) set \<Rightarrow> int \<times> 'v \<Rightarrow> bool" where
  "newest S x \<longleftrightarrow> x \<in> S \<and> (\<forall>y\<in>S. fst y \<le> fst x)"

text \<open>No two reports on one cell carry the same timestamp and different contents.\<close>

definition stamped_once :: "('k \<times> int \<times> 'v) set \<Rightarrow> bool" where
  "stamped_once M \<longleftrightarrow> (\<forall>k t v w. (k, t, v) \<in> M \<and> (k, t, w) \<in> M \<longrightarrow> v = w)"

text \<open>The reports of a message list on one cell.\<close>

definition seen :: "'k \<Rightarrow> ('k \<times> int \<times> 'v) list \<Rightarrow> (int \<times> 'v) set" where
  "seen k ms = snd ` {m \<in> set ms. fst m = k}"

lemma seen_Nil [simp]: "seen k [] = {}"
  by (simp add: seen_def)

lemma seen_Cons [simp]:
  "seen k ((k', r) # ms) = (if k' = k then insert r (seen k ms) else seen k ms)"
  by (force simp: seen_def)

lemma seen_iff: "r \<in> seen k ms \<longleftrightarrow> (k, r) \<in> set ms"
  by (force simp: seen_def)

lemma newest_insert:
  assumes "newest S x" and "newest (insert x T) y"
  shows "newest (S \<union> T) y"
  using assms by (fastforce simp: newest_def)

lemma newest_unique:
  assumes "newest S x" and "newest S y" and "\<And>t v w. (t, v) \<in> S \<Longrightarrow> (t, w) \<in> S \<Longrightarrow> v = w"
  shows "x = y"
proof -
  have "fst x = fst y"
    using assms(1,2) by (meson newest_def order_antisym)
  then show ?thesis
    using assms by (metis newest_def prod.collapse)
qed

locale lww_table =
  fixes lookup :: "'s \<Rightarrow> 'k \<Rightarrow> (int \<times> 'v) option"
    and merge :: "'s \<Rightarrow> 'k \<Rightarrow> int \<Rightarrow> 'v \<Rightarrow> 's"
    and inv :: "'s \<Rightarrow> bool"
  assumes lookup_merge:
      "inv s \<Longrightarrow> lookup (merge s k t v) = (lookup s)(k \<mapsto> lww (lookup s k) (t, v))"
    and inv_merge: "inv s \<Longrightarrow> inv (merge s k t v)"
begin

lemma inv_deliver: "inv s \<Longrightarrow> inv (fold (\<lambda>(k, t, v) s. merge s k t v) ms s)"
  by (induction ms arbitrary: s) (auto simp: inv_merge)

lemma merge_idem: "inv s \<Longrightarrow> lookup (merge (merge s k t v) k t v) = lookup (merge s k t v)"
  by (cases "lookup s k") (auto simp: lookup_merge inv_merge fun_eq_iff)

lemma merge_newest:
  assumes "inv s"
  shows "\<exists>x. lookup (merge s k t v) k = Some x \<and> newest (insert (t, v) (set_option (lookup s k))) x"
  using assms by (cases "lookup s k") (auto simp: lookup_merge newest_def)

lemma deliver_newest:
  assumes "inv s"
  shows "case lookup (fold (\<lambda>(k, t, v) s. merge s k t v) ms s) k of
           None \<Rightarrow> lookup s k = None \<and> seen k ms = {}
         | Some x \<Rightarrow> newest (set_option (lookup s k) \<union> seen k ms) x"
  using assms
proof (induction ms arbitrary: s)
  case Nil
  then show ?case by (auto simp: newest_def split: option.splits)
next
  case (Cons m ms)
  obtain k' t v where m: "m = (k', t, v)" by (cases m)
  let ?s = "merge s k' t v"
  note IH = Cons.IH [OF inv_merge [OF Cons.prems, of k' t v]]
  show ?case
  proof (cases "k' = k")
    case False
    then have "lookup ?s k = lookup s k"
      using Cons.prems by (simp add: lookup_merge)
    with IH False show ?thesis unfolding m by (auto split: option.splits)
  next
    case True
    then obtain x where x: "lookup ?s k = Some x"
        "newest (insert (t, v) (set_option (lookup s k))) x"
      using merge_newest [OF Cons.prems] by blast
    with IH obtain y where y: "lookup (fold (\<lambda>(k, t, v) s. merge s k t v) ms ?s) k = Some y"
        "newest (insert x (seen k ms)) y"
      by (auto split: option.splits)
    have "newest (insert (t, v) (set_option (lookup s k)) \<union> seen k ms) y"
      using x(2) y(2) by (rule newest_insert)
    with y(1) True show ?thesis unfolding m by simp
  qed
qed

lemma convergence:
  assumes "inv s" and "inv s'" and "lookup s = lookup s'" and "set ms = set ms'"
    and once: "stamped_once ({(k, t, v). lookup s k = Some (t, v)} \<union> set ms)"
  shows "lookup (fold (\<lambda>(k, t, v) s. merge s k t v) ms s)
    = lookup (fold (\<lambda>(k, t, v) s. merge s k t v) ms' s')"
proof
  fix k
  let ?S = "set_option (lookup s k) \<union> seen k ms"
  let ?l = "lookup (fold (\<lambda>(k, t, v) s. merge s k t v) ms s) k"
  let ?r = "lookup (fold (\<lambda>(k, t, v) s. merge s k t v) ms' s') k"
  have "v = w" if "(t, v) \<in> ?S" "(t, w) \<in> ?S" for t v w
  proof -
    have "(k, t, u) \<in> {(k, t, v). lookup s k = Some (t, v)} \<union> set ms" if "(t, u) \<in> ?S" for u
      using that by (auto simp: seen_iff)
    with that once show ?thesis unfolding stamped_once_def by blast
  qed
  then have uniq: "x = y" if "newest ?S x" "newest ?S y" for x y
    using newest_unique that by blast
  have seen': "seen k ms' = seen k ms"
    using assms(4) by (auto simp: seen_iff)
  have l: "case ?l of None \<Rightarrow> ?S = {} | Some x \<Rightarrow> newest ?S x"
    using deliver_newest [OF assms(1), of k ms] by (auto split: option.splits)
  have r: "case ?r of None \<Rightarrow> ?S = {} | Some x \<Rightarrow> newest ?S x"
    using deliver_newest [OF assms(2), of k ms'] assms(3) seen' by (auto split: option.splits)
  have none: "\<not> newest {} x" for x :: "int \<times> 'v"
    by (simp add: newest_def)
  show "?l = ?r"
    using l r uniq none by (cases ?l; cases ?r) auto
qed

end

section \<open>Lemmas on the manager\<close>

lemma gcm_ok_get:
  "gcm_ok c \<longleftrightarrow> map_alive (gcm_data c)
     \<and> (\<forall>k g. map_get (gcm_data c) k = Some g \<longrightarrow> map_ok (gc_consensus g))"
  by (auto simp: gcm_ok_def list_all_iff map_get_iff_entry)

lemma gcm_live_get:
  "gcm_live c \<longleftrightarrow> map_alive (gcm_data c)
     \<and> (\<forall>k g. map_get (gcm_data c) k = Some g \<longrightarrow> map_alive (gc_consensus g))"
  by (auto simp: gcm_live_def list_all_iff map_get_iff_entry)

lemma gcm_live_ok: "gcm_live c \<Longrightarrow> gcm_ok c"
  by (auto simp: gcm_live_get gcm_ok_get)

lemma gcm_live_New [simp]: "gcm_live NewGossipCacheManager"
  by (simp add: gcm_live_get NewGossipCacheManager_def)

lemma gcm_put_alive:
  assumes "map_alive (gcm_data c)"
  obtains c' where "gcm_put c key g = Ret c'" and "map_alive (gcm_data c')"
    and "map_get (gcm_data c') = (map_get (gcm_data c))(key \<mapsto> g)"
proof -
  obtain m' where "map_set (gcm_data c) key g = Ret m'" "map_alive m'"
    "map_get m' = (map_get (gcm_data c))(key \<mapsto> g)"
    using map_set_alive [OF assms] by blast
  then show thesis
    by (intro that [of "c\<lparr>gcm_data := m'\<rparr>"]) (simp_all add: gcm_put_def)
qed

text \<open>The state after a \<open>Set\<close> that does not panic.\<close>

definition gcm_after_Set ::
  "gossipCacheManager \<Rightarrow> string \<Rightarrow> string \<Rightarrow> string \<Rightarrow> int \<Rightarrow> gossipStatus \<Rightarrow> gossipCacheManager" where
  "gcm_after_Set c key value nodeAddr timestamp status =
     (case gcm_Set c key value nodeAddr timestamp status of Inl _ \<Rightarrow> c | Inr (c', _) \<Rightarrow> c')"

text \<open>A report is news when the table has none of that node on that key or an older one.\<close>

definition is_news :: "gossipCacheManager \<Rightarrow> string \<Rightarrow> string \<Rightarrow> int \<Rightarrow> bool" where
  "is_news c key nodeAddr timestamp \<longleftrightarrow>
     (case reports c (key, nodeAddr) of None \<Rightarrow> True | Some (t, _) \<Rightarrow> timestamp > t)"

text \<open>The reports of a key cannot be stored when its entry has a nil report map.\<close>

definition nil_reports :: "gossipCacheManager \<Rightarrow> string \<Rightarrow> bool" where
  "nil_reports c key \<longleftrightarrow>
     (case map_get (gcm_data c) key of None \<Rightarrow> False | Some g \<Rightarrow> gc_consensus g = None)"

abbreviation report_msg :: "int \<Rightarrow> string \<Rightarrow> string \<Rightarrow> string \<Rightarrow> gossipStatus \<Rightarrow> MyBroadcastMessage" where
  "report_msg t node key val st \<equiv>
     \<lparr>msg_TimeStamp = t, msg_Node = node, msg_Key = key, msg_Value = val, msg_Status = st\<rparr>"

lemma gcm_Set_new_key:
  assumes ok: "gcm_ok c" and None: "map_get (gcm_data c) key = None"
  shows "\<exists>c'. gcm_Set c key val node t st = Ret (c', [report_msg t node key val st])
    \<and> gcm_ok c' \<and> (gcm_live c \<longrightarrow> gcm_live c')
    \<and> reports c' = (reports c)((key, node) \<mapsto> (t, st)) \<and> log_view c' = log_view c"
proof -
  let ?g = "zero_consensus\<lparr>gc_consensus := Some [(node, \<lparr>gs_status = st, gs_timeStamp = t\<rparr>)]\<rparr>"
  have alive: "map_alive (gcm_data c)" using ok by (simp add: gcm_ok_get)
  obtain c' where c': "gcm_put c key ?g = Ret c'" "map_alive (gcm_data c')"
    "map_get (gcm_data c') = (map_get (gcm_data c))(key \<mapsto> ?g)"
    using gcm_put_alive [OF alive] by blast
  have "gcm_ok c'" "gcm_live c \<longrightarrow> gcm_live c'"
    using ok c' by (auto simp: gcm_live_get gcm_ok_get map_alive_def map_ok_def)
  moreover have "reports c' = (reports c)((key, node) \<mapsto> (t, st))"
    using c' None by (auto simp: reports_def map_get_Some fun_eq_iff)
  moreover have "log_view c' = log_view c"
    using c' None by (auto simp: log_view_def zero_consensus_def fun_eq_iff)
  ultimately show ?thesis
    using c' None by (auto simp: gcm_Set_def)
qed

lemma gcm_Set_old_key:
  assumes ok: "gcm_ok c" and g: "map_get (gcm_data c) key = Some g" "gc_consensus g \<noteq> None"
    and news: "is_news c key node t"
  shows "\<exists>c'. gcm_Set c key val node t st = Ret (c', [report_msg t node key val st])
    \<and> gcm_ok c' \<and> (gcm_live c \<longrightarrow> gcm_live c')
    \<and> reports c' = (reports c)((key, node) \<mapsto> (t, st)) \<and> log_view c' = log_view c"
proof -
  let ?r = "\<lparr>gs_status = st, gs_timeStamp = t\<rparr>"
  have alive: "map_alive (gcm_data c)" "map_alive (gc_consensus g)"
    using ok g by (auto simp: gcm_ok_get map_alive_def)
  obtain cs where cs: "map_set (gc_consensus g) node ?r = Ret cs" "map_alive cs"
    "map_get cs = (map_get (gc_consensus g))(node \<mapsto> ?r)"
    using map_set_alive [OF alive(2)] by blast
  let ?g = "g\<lparr>gc_consensus := cs\<rparr>"
  obtain c' where c': "gcm_put c key ?g = Ret c'" "map_alive (gcm_data c')"
    "map_get (gcm_data c') = (map_get (gcm_data c))(key \<mapsto> ?g)"
    using gcm_put_alive [OF alive(1)] by blast
  have "gcm_ok c'" "gcm_live c \<longrightarrow> gcm_live c'" "log_view c' = log_view c"
    using ok c' cs g by (auto simp: gcm_live_get gcm_ok_get log_view_def fun_eq_iff)
  moreover have "reports c' = (reports c)((key, node) \<mapsto> (t, st))"
    using c' cs g by (auto simp: reports_def fun_eq_iff)
  moreover have "gcm_Set c key val node t st = Ret (c', [report_msg t node key val st])"
    using c' cs g news by (auto simp: gcm_Set_def is_news_def reports_def Let_def split: option.splits)
  ultimately show ?thesis by blast
qed

lemma gcm_Set_stale:
  assumes "\<not> is_news c key node t"
  shows "gcm_Set c key val node t st = Ret (c, [])"
  using assms by (auto simp: gcm_Set_def is_news_def reports_def Let_def split: option.splits)

lemma lww_news:
  "lww (reports c (key, node)) (t, st) =
     (if is_news c key node t then (t, st) else the (reports c (key, node)))"
  by (auto simp: is_news_def split: option.splits)

text \<open>A \<open>Set\<close> that does not meet a nil report map.\<close>

lemma gcm_Set_ok:
  assumes ok: "gcm_ok c" and nn: "\<not> nil_reports c key"
  obtains c' where
    "gcm_Set c key val node t st =
       Ret (c', if is_news c key node t then [report_msg t node key val st] else [])"
    and "gcm_ok c'" and "gcm_live c \<Longrightarrow> gcm_live c'"
    and "reports c' = (reports c)((key, node) \<mapsto> lww (reports c (key, node)) (t, st))"
    and "log_view c' = log_view c"
proof (cases "is_news c key node t")
  case True
  then have "\<exists>c'. gcm_Set c key val node t st = Ret (c', [report_msg t node key val st])
      \<and> gcm_ok c' \<and> (gcm_live c \<longrightarrow> gcm_live c')
      \<and> reports c' = (reports c)((key, node) \<mapsto> (t, st)) \<and> log_view c' = log_view c"
    using gcm_Set_new_key [OF ok] gcm_Set_old_key [OF ok] nn
    by (cases "map_get (gcm_data c) key") (auto simp: nil_reports_def)
  with True show thesis
    using that by (auto simp: lww_news)
next
  case False
  then have "(reports c)((key, node) \<mapsto> lww (reports c (key, node)) (t, st)) = reports c"
    by (auto simp: is_news_def fun_eq_iff split: option.splits)
  with False show thesis
    using that [of c] ok gcm_Set_stale by auto
qed

lemma gcm_live_not_nil: "gcm_live c \<Longrightarrow> \<not> nil_reports c key"
  by (auto simp: gcm_live_get nil_reports_def map_alive_def split: option.splits)

lemma gcm_Set_live:
  assumes live: "gcm_live c"
  obtains c' where
    "gcm_Set c key val node t st =
       Ret (c', if is_news c key node t then [report_msg t node key val st] else [])"
    and "gcm_live c'"
    and "reports c' = (reports c)((key, node) \<mapsto> lww (reports c (key, node)) (t, st))"
    and "log_view c' = log_view c"
  using gcm_Set_ok [OF gcm_live_ok [OF live] gcm_live_not_nil [OF live], where val = val and node = node
      and t = t and st = st] live that
  by blast

interpretation gcmtab: lww_table reports
  "\<lambda>c kn t st. gcm_after_Set c (fst kn) [] (snd kn) t st" gcm_live
proof
  fix c :: gossipCacheManager and kn :: "string \<times> string" and t :: int and st :: gossipStatus
  assume live: "gcm_live c"
  obtain c' ms where "gcm_Set c (fst kn) [] (snd kn) t st = Ret (c', ms)" "gcm_live c'"
    "reports c' = (reports c)(kn \<mapsto> lww (reports c kn) (t, st))"
    using gcm_Set_live [OF live, of "fst kn" "[]" "snd kn" t st] by (metis prod.collapse)
  then show "reports (gcm_after_Set c (fst kn) [] (snd kn) t st)
      = (reports c)(kn \<mapsto> lww (reports c kn) (t, st))"
    and "gcm_live (gcm_after_Set c (fst kn) [] (snd kn) t st)"
    by (simp_all add: gcm_after_Set_def)
qed

subsection \<open>The writers of the replicated fields\<close>

text \<open>All four create the entry from the zero val when the key is new.\<close>

definition gcm_modify ::
  "gossipCacheManager \<Rightarrow> string \<Rightarrow> (gossipConsensus \<Rightarrow> gossipConsensus) \<Rightarrow> gossipCacheManager go" where
  "gcm_modify c key f =
     gcm_put c key (f (case map_get (gcm_data c) key of None \<Rightarrow> zero_consensus | Some g \<Rightarrow> g))"

lemma setters_modify:
  "gcm_SetPreviousConsensus c key st = gcm_modify c key (gc_prevConsensus_update (\<lambda>_. st))"
  "gcm_SetPreviousEventTime c key t = gcm_modify c key (gc_prevEventTime_update (\<lambda>_. t))"
  "gcm_SetEmpty c key b = gcm_modify c key (gc_empty_update (\<lambda>_. b))"
  "gcm_setEmptyTime c key t = gcm_modify c key (gc_emptyTime_update (\<lambda>_. t))"
  by (simp_all add: gcm_SetPreviousConsensus_def gcm_SetPreviousEventTime_def gcm_SetEmpty_def
      gcm_setEmptyTime_def gcm_modify_def split: option.splits)

lemma gcm_modify_get:
  assumes "map_alive (gcm_data c)"
  obtains c' where "gcm_modify c key f = Ret c'" and "map_alive (gcm_data c')"
    and "map_get (gcm_data c') = (map_get (gcm_data c))(key \<mapsto>
           f (case map_get (gcm_data c) key of None \<Rightarrow> zero_consensus | Some g \<Rightarrow> g))"
  using gcm_put_alive [OF assms, of key] unfolding gcm_modify_def by blast

text \<open>
  A write that leaves the report map alone never panics, keeps well-formedness, changes no report
  and touches the replicated fields of its key only.
\<close>

lemma gcm_modify_spec:
  assumes ok: "gcm_ok c" and keep: "\<And>g. gc_consensus (f g) = gc_consensus g"
  obtains c' where "gcm_modify c key f = Ret c'" and "gcm_ok c'" and "reports c' = reports c"
    and "\<And>k. k \<noteq> key \<Longrightarrow> log_view c' k = log_view c k"
    and "map_get (gcm_data c') key =
           Some (f (case map_get (gcm_data c) key of None \<Rightarrow> zero_consensus | Some g \<Rightarrow> g))"
proof -
  have alive: "map_alive (gcm_data c)"
    using ok by (simp add: gcm_ok_get)
  obtain c' where c': "gcm_modify c key f = Ret c'" "map_alive (gcm_data c')"
    "map_get (gcm_data c') = (map_get (gcm_data c))(key \<mapsto>
       f (case map_get (gcm_data c) key of None \<Rightarrow> zero_consensus | Some g \<Rightarrow> g))"
    using gcm_modify_get [OF alive] by blast
  have "gcm_ok c'"
    using ok c' keep
    by (auto simp: gcm_ok_get zero_consensus_def nil_map_def map_ok_def split: option.splits)
  moreover have "reports c' = reports c"
    using c' keep
    by (auto simp: reports_def fun_eq_iff zero_consensus_def nil_map_def split: option.splits)
  moreover have "log_view c' k = log_view c k" if "k \<noteq> key" for k
    using c' that by (simp add: log_view_def)
  ultimately show thesis
    using c' by (intro that [of c']) simp_all
qed

lemma gcm_modify_log_view:
  "map_get (gcm_data c') key =
     Some (f (case map_get (gcm_data c) key of None \<Rightarrow> zero_consensus | Some g \<Rightarrow> g)) \<Longrightarrow>
   log_view c' key =
     (let g = f (case map_get (gcm_data c) key of None \<Rightarrow> zero_consensus | Some g \<Rightarrow> g)
      in (gc_prevEventTime g, gc_prevConsensus g, gc_empty g, gc_emptyTime g))"
  by (simp add: log_view_def)

subsection \<open>Deletions\<close>

lemma gcm_DelNodeAddr_spec:
  assumes ok: "gcm_ok c"
  obtains c' where "gcm_DelNodeAddr c key node = Ret c'" and "gcm_ok c'"
    and "reports c' = (reports c)((key, node) := None)" and "log_view c' = log_view c"
    and "dom (map_get (gcm_data c')) = dom (map_get (gcm_data c))"
    and "gcm_live c \<Longrightarrow> gcm_live c'"
proof (cases "map_get (gcm_data c) key")
  case None
  then have "(reports c)((key, node) := None) = reports c"
    by (auto simp: reports_def fun_eq_iff)
  with None ok show thesis
    by (intro that [of c]) (simp_all add: gcm_DelNodeAddr_def)
next
  case (Some g)
  let ?g = "g\<lparr>gc_consensus := map_delete (gc_consensus g) node\<rparr>"
  have alive: "map_alive (gcm_data c)"
    using ok by (simp add: gcm_ok_get)
  obtain c' where c': "gcm_put c key ?g = Ret c'" "map_alive (gcm_data c')"
    "map_get (gcm_data c') = (map_get (gcm_data c))(key \<mapsto> ?g)"
    using gcm_put_alive [OF alive] by blast
  have "gcm_ok c'" and "gcm_live c \<Longrightarrow> gcm_live c'"
    using ok c' Some by (auto simp: gcm_ok_get gcm_live_get)
  moreover have "reports c' = (reports c)((key, node) := None)"
    using c' Some by (auto simp: reports_def fun_eq_iff)
  moreover have "log_view c' = log_view c"
    using c' Some by (auto simp: log_view_def fun_eq_iff)
  ultimately show thesis
    using c' Some by (intro that [of c']) (auto simp: gcm_DelNodeAddr_def)
qed

lemma gcm_DelKey_spec:
  assumes "gcm_ok c"
  shows "gcm_ok (gcm_DelKey c key)"
    and "reports (gcm_DelKey c key) = (\<lambda>kn. if fst kn = key then None else reports c kn)"
    and "map_get (gcm_data (gcm_DelKey c key)) = (map_get (gcm_data c))(key := None)"
    and "gcm_live c \<Longrightarrow> gcm_live (gcm_DelKey c key)"
    and "log_view (gcm_DelKey c key) = (log_view c)(key := log_view NewGossipCacheManager key)"
  using assms
  by (auto simp: gcm_ok_get gcm_live_get gcm_DelKey_def reports_def log_view_def fun_eq_iff
      NewGossipCacheManager_def)

subsection \<open>Cloning\<close>

lemma gc_copy_get:
  assumes "go_order ordn" and "map_ok (gc_consensus g)"
  shows "map_get (gc_consensus (gc_copy ordn g)) = map_get (gc_consensus g)"
  using assms by (simp add: gc_copy_def fill_map_order)

lemma gcm_Clone_get:
  assumes "go_order ordk" and "gcm_ok c"
  shows "map_get (gcm_Clone ordk ordn c) key = map_option (gc_copy ordn) (map_get (gcm_data c) key)"
proof -
  let ?xs = "ordk (entries (gcm_data c))"
  have ok: "map_ok (gcm_data c)"
    using assms(2) by (simp add: gcm_ok_get)
  then have d: "distinct (map fst ?xs)"
    using assms(1) by (simp add: map_ok_def go_order_distinct_keys)
  from d have "map_get (gcm_Clone ordk ordn c) = map_of (map (\<lambda>(k, v). (k, gc_copy ordn v)) ?xs)"
    unfolding gcm_Clone_def by (intro fill_map_distinct) simp
  moreover have "map_of ?xs = map_get (gcm_data c)"
    using assms(1) ok by (simp add: map_of_go_order map_ok_def map_get_def fun_eq_iff)
  ultimately show ?thesis by (simp add: map_of_map)
qed

lemma temp_consensus_get:
  assumes "go_order ordn" and "map_ok (gc_consensus g)"
  shows "map_get (tg_Consensus (temp_consensus ordn fmt g)) n =
    map_option (temp_status fmt) (map_get (gc_consensus g) n)"
proof -
  let ?xs = "ordn (entries (gc_consensus g))"
  have d: "distinct (map fst ?xs)"
    using assms by (simp add: map_ok_def go_order_distinct_keys)
  then have "map_get (tg_Consensus (temp_consensus ordn fmt g)) = map_of (map (\<lambda>(n, r). (n, temp_status fmt r)) ?xs)"
    unfolding temp_consensus_def by (simp add: fill_map_distinct)
  moreover have "map_of ?xs = map_get (gc_consensus g)"
    using assms by (simp add: map_of_go_order map_ok_def map_get_def fun_eq_iff)
  ultimately show ?thesis by (simp add: map_of_map)
qed

section \<open>Claims\<close>

lemma gcm_Set_nil: "nil_reports c key \<Longrightarrow> gcm_Set c key val node t st = Panic NilMapWrite"
  by (auto simp: gcm_Set_def nil_reports_def split: option.splits)

lemma gcm_modify_fresh_nil:
  assumes "gcm_ok c" and "map_get (gcm_data c) key = None" and "\<And>g. gc_consensus (f g) = gc_consensus g"
  shows "\<exists>c'. gcm_modify c key f = Ret c' \<and> (\<forall>val node t st. gcm_Set c' key val node t st = Panic NilMapWrite)"
proof -
  have "map_alive (gcm_data c)" using assms(1) by (simp add: gcm_ok_get)
  then obtain c' where c': "gcm_modify c key f = Ret c'"
    "map_get (gcm_data c') = (map_get (gcm_data c))(key \<mapsto>
       f (case map_get (gcm_data c) key of None \<Rightarrow> zero_consensus | Some g \<Rightarrow> g))"
    using gcm_modify_get [of c key f] by blast
  then have "nil_reports c' key"
    using assms(2,3) by (simp add: nil_reports_def zero_consensus_def nil_map_def)
  with c' show ?thesis using gcm_Set_nil by blast
qed

text \<open>
  (C9) What \<open>Set\<close> does in every well-formed state. When the entry of the key has a nil report map
  it panics. Otherwise the report is stored exactly when it is news, that is when the table has no
  report or an older one of that node on that key; exactly then one message with the report is
  handed over for broadcasting; every other cell of the table and the replicated fields stay.
\<close>

theorem gcm_Set_behaviour:
  assumes "gcm_ok c"
  shows "if nil_reports c key then gcm_Set c key val node t st = Panic NilMapWrite
    else \<exists>c'. gcm_Set c key val node t st =
             Ret (c', if is_news c key node t then [report_msg t node key val st] else [])
           \<and> reports c' = (if is_news c key node t then (reports c)((key, node) \<mapsto> (t, st)) else reports c)
           \<and> log_view c' = log_view c \<and> gcm_ok c'"
proof (cases "nil_reports c key")
  case False
  have "(reports c)((key, node) \<mapsto> lww (reports c (key, node)) (t, st)) =
      (if is_news c key node t then (reports c)((key, node) \<mapsto> (t, st)) else reports c)"
    by (auto simp: lww_news is_news_def fun_eq_iff split: option.splits)
  with False gcm_Set_ok [OF assms False, where val = val and node = node and t = t and st = st] show ?thesis by metis
qed (simp add: gcm_Set_nil)

theorem gcm_Set_behaviour_witness:
  "gcm_ok NewGossipCacheManager
   \<and> (if nil_reports NewGossipCacheManager ''k'' then False
      else \<exists>c'. gcm_Set NewGossipCacheManager ''k'' ''v'' ''n'' 5 GOSSIP_UP
             = Ret (c', [report_msg 5 ''n'' ''k'' ''v'' GOSSIP_UP])
           \<and> reports c' (''k'', ''n'') = Some (5, GOSSIP_UP))"
proof -
  have ok: "gcm_ok NewGossipCacheManager" by (simp add: gcm_live_ok)
  have news: "is_news NewGossipCacheManager ''k'' ''n'' 5" "\<not> nil_reports NewGossipCacheManager ''k''"
    by (simp_all add: is_news_def reports_def nil_reports_def NewGossipCacheManager_def)
  show ?thesis
    using gcm_Set_behaviour [OF ok, of "''k''" "''v''" "''n''" 5 GOSSIP_UP] ok news by auto
qed

text \<open>
  Writing any of the replicated fields of a key that has no entry yet, for example when the
  log is replayed after a restart, leaves an entry with a nil report map: the next report of any
  node on that key panics.
\<close>

lemma log_write_then_report_panics:
  assumes "gcm_ok c" and "map_get (gcm_data c) key = None"
  shows "(\<exists>c'. gcm_SetPreviousConsensus c key s = Ret c'
            \<and> (\<forall>val node t st. gcm_Set c' key val node t st = Panic NilMapWrite))
    \<and> (\<exists>c'. gcm_SetPreviousEventTime c key et = Ret c'
            \<and> (\<forall>val node t st. gcm_Set c' key val node t st = Panic NilMapWrite))
    \<and> (\<exists>c'. gcm_SetEmpty c key b = Ret c'
            \<and> (\<forall>val node t st. gcm_Set c' key val node t st = Panic NilMapWrite))
    \<and> (\<exists>c'. gcm_setEmptyTime c key et = Ret c'
            \<and> (\<forall>val node t st. gcm_Set c' key val node t st = Panic NilMapWrite))"
  unfolding setters_modify
  by (intro conjI gcm_modify_fresh_nil [OF assms]) simp_all

end
