(* ===== verification/Transmit_Queue.thy ===== *)
theory Transmit_Queue
  imports Go_Strings
begin

text \<open>
  The broadcast queue of the vendored \<open>hashicorp/memberlist\<close> (\<open>queue.go\<close>), which the service's
  delegate uses for its gossip messages. The B-tree of \<open>google/btree\<close> is modelled by the sequence
  of its items in ascending order. A broadcast is a value of type \<open>'b\<close>; the three methods of the
  Go interface are arguments: its bytes, which other broadcasts it invalidates, and whether it is
  named, unique or neither. The mutex makes every method one atomic step. \<open>Finished\<close> is a
  notification; the broadcasts that are given it are part of the results.
\<close>

section \<open>Data\<close>

datatype broadcast_kind = NamedBroadcast string | UniqueBroadcast | PlainBroadcast

record 'b limitedBroadcast =
  lb_transmits :: int
  lb_msgLen :: int
  lb_id :: int
  lb_b :: 'b
  lb_name :: string

record 'b TransmitLimitedQueue =
  q_RetransmitMult :: int
  q_tq :: "'b limitedBroadcast list option"
  q_tm :: "(string, 'b limitedBroadcast) gomap"
  q_idGen :: int

text \<open>The methods of a broadcast.\<close>

record 'b broadcast_ops =
  bo_Message :: "'b \<Rightarrow> string"
  bo_Invalidates :: "'b \<Rightarrow> 'b \<Rightarrow> bool"
  bo_kind :: "'b \<Rightarrow> broadcast_kind"

text \<open>The order of the tree compares the three key fields only.\<close>

type_synonym lb_key = "int \<times> int \<times> int"

definition lb_key :: "'b limitedBroadcast \<Rightarrow> lb_key" where
  "lb_key x = (lb_transmits x, lb_msgLen x, lb_id x)"

fun key_less :: "lb_key \<Rightarrow> lb_key \<Rightarrow> bool" where
  "key_less (t, l, i) (t', l', i') =
     (if t < t' then True else if t > t' then False
      else if l > l' then True else if l < l' then False
      else i > i')"

definition lb_Less :: "'b limitedBroadcast \<Rightarrow> 'b limitedBroadcast \<Rightarrow> bool" where
  "lb_Less b o' = key_less (lb_key b) (lb_key o')"

section \<open>The tree as an ordered sequence\<close>

fun tree_insert :: "'b limitedBroadcast \<Rightarrow> 'b limitedBroadcast list \<Rightarrow> 'b limitedBroadcast list" where
  "tree_insert x [] = [x]"
| "tree_insert x (y # ys) =
     (if lb_Less x y then x # y # ys
      else if lb_Less y x then y # tree_insert x ys
      else x # ys)"

fun tree_delete :: "'b limitedBroadcast \<Rightarrow> 'b limitedBroadcast list \<Rightarrow> 'b limitedBroadcast list" where
  "tree_delete x [] = []"
| "tree_delete x (y # ys) = (if lb_key y = lb_key x then ys else y # tree_delete x ys)"

definition tree_sorted :: "'b limitedBroadcast list \<Rightarrow> bool" where
  "tree_sorted xs = sorted_wrt lb_Less xs"

section \<open>Operations\<close>

definition new_queue :: "int \<Rightarrow> 'b TransmitLimitedQueue" where
  "new_queue mul = \<lparr>q_RetransmitMult = mul, q_tq = None, q_tm = nil_map, q_idGen = 0\<rparr>"

definition q_items :: "'b TransmitLimitedQueue \<Rightarrow> 'b limitedBroadcast list" where
  "q_items q = (case q_tq q of None \<Rightarrow> [] | Some xs \<Rightarrow> xs)"

definition lenLocked :: "'b TransmitLimitedQueue \<Rightarrow> int" where
  "lenLocked q = int (length (q_items q))"

definition lazyInit :: "'b TransmitLimitedQueue \<Rightarrow> 'b TransmitLimitedQueue" where
  "lazyInit q =
     q\<lparr>q_tq := (case q_tq q of None \<Rightarrow> Some [] | Some xs \<Rightarrow> Some xs),
       q_tm := (case q_tm q of None \<Rightarrow> make_map | Some m \<Rightarrow> Some m)\<rparr>"

definition deleteItem :: "'b TransmitLimitedQueue \<Rightarrow> 'b limitedBroadcast \<Rightarrow> 'b TransmitLimitedQueue" where
  "deleteItem q cur =
     (let xs = tree_delete cur (q_items q);
          tm = (if lb_name cur \<noteq> [] then map_delete (q_tm q) (lb_name cur) else q_tm q)
      in q\<lparr>q_tq := Some xs, q_tm := tm, q_idGen := (if xs = [] then 0 else q_idGen q)\<rparr>)"

definition addItem :: "'b TransmitLimitedQueue \<Rightarrow> 'b limitedBroadcast \<Rightarrow> 'b TransmitLimitedQueue go" where
  "addItem q cur =
     (let q' = q\<lparr>q_tq := Some (tree_insert cur (q_items q))\<rparr>
      in if lb_name cur \<noteq> []
         then go_bind (map_set (q_tm q) (lb_name cur) cur) (\<lambda>m. Ret (q'\<lparr>q_tm := m\<rparr>))
         else Ret q')"

definition nextId :: "'b TransmitLimitedQueue \<Rightarrow> int" where
  "nextId q = (if q_idGen q = max_i64 then 1 else q_idGen q + 1)"

text \<open>Which queued items a new broadcast removes.\<close>

definition invalidated ::
  "'b broadcast_ops \<Rightarrow> 'b \<Rightarrow> 'b limitedBroadcast \<Rightarrow> bool" where
  "invalidated ops b cur =
     (case bo_kind ops (lb_b cur) of
        NamedBroadcast _ \<Rightarrow> False
      | UniqueBroadcast \<Rightarrow> False
      | PlainBroadcast \<Rightarrow> bo_Invalidates ops b (lb_b cur))"

definition queueBroadcast ::
  "'b broadcast_ops \<Rightarrow> 'b TransmitLimitedQueue \<Rightarrow> 'b \<Rightarrow> int
   \<Rightarrow> ('b TransmitLimitedQueue \<times> 'b list) go" where
  "queueBroadcast ops q0 b initialTransmits =
     (let q1 = lazyInit q0;
          id' = nextId q1;
          q2 = q1\<lparr>q_idGen := id'\<rparr>;
          name = (case bo_kind ops b of NamedBroadcast n \<Rightarrow> n | _ \<Rightarrow> []);
          unique = (bo_kind ops b = UniqueBroadcast);
          lb = \<lparr>lb_transmits = initialTransmits, lb_msgLen = int (length (bo_Message ops b)),
                lb_id = id', lb_b = b, lb_name = name\<rparr>;
          remove = (if name \<noteq> [] then (case map_get (q_tm q2) name of None \<Rightarrow> [] | Some old \<Rightarrow> [old])
                    else if \<not> unique then filter (invalidated ops b) (q_items q2)
                    else []);
          q3 = fold (\<lambda>cur q. deleteItem q cur) remove q2
      in go_bind (addItem q3 lb) (\<lambda>q4. Ret (q4, map lb_b remove)))"

definition QueueBroadcast ::
  "'b broadcast_ops \<Rightarrow> 'b TransmitLimitedQueue \<Rightarrow> 'b \<Rightarrow> ('b TransmitLimitedQueue \<times> 'b list) go" where
  "QueueBroadcast ops q b = queueBroadcast ops q b 0"

definition getTransmitRange :: "'b TransmitLimitedQueue \<Rightarrow> int \<times> int" where
  "getTransmitRange q =
     (case q_items q of [] \<Rightarrow> (0, 0)
      | x # xs \<Rightarrow> (lb_transmits x, lb_transmits (last (x # xs))))"

text \<open>
  \<open>retransmitLimit\<close> (\<open>util.go\<close>): the argument \<open>ceil_log10\<close> is the rounded-up decimal logarithm in
  floating-point arithmetic.
\<close>

definition retransmitLimit :: "(int \<Rightarrow> int) \<Rightarrow> int \<Rightarrow> int \<Rightarrow> int" where
  "retransmitLimit ceil_log10 retransmitMult n = retransmitMult * ceil_log10 (n + 1)"

text \<open>
  The first item of a tier that fits into \<open>free\<close> bytes: \<open>AscendRange\<close> visits the items that are
  not below the lower pivot and below the upper pivot.
\<close>

definition pick ::
  "'b broadcast_ops \<Rightarrow> int \<Rightarrow> int \<Rightarrow> 'b limitedBroadcast list \<Rightarrow> 'b limitedBroadcast option" where
  "pick ops transmits free xs =
     find (\<lambda>cur. \<not> int (length (bo_Message ops (lb_b cur))) > free)
       (filter (\<lambda>cur. \<not> key_less (lb_key cur) (transmits, free, max_i64)
                    \<and> key_less (lb_key cur) (transmits + 1, max_i64, max_i64)) xs)"

lemma pick_SomeD:
  assumes "pick ops t free xs = Some x"
  shows "x \<in> set xs" and "int (length (bo_Message ops (lb_b x))) \<le> free"
    and "\<not> key_less (lb_key x) (t, free, max_i64)"
    and "key_less (lb_key x) (t + 1, max_i64, max_i64)"
  using find_SomeD [OF assms [unfolded pick_def]] by auto

lemma tree_delete_length:
  "x \<in> set xs \<Longrightarrow> Suc (length (tree_delete x xs)) = length xs"
  by (induction xs) auto

lemma q_items_deleteItem [simp]: "q_items (deleteItem q x) = tree_delete x (q_items q)"
  by (simp add: deleteItem_def q_items_def Let_def)

text \<open>The loop of \<open>GetBroadcasts\<close>: its local variables and the queue.\<close>

record 'b get_state =
  g_transmits :: int
  g_bytesUsed :: int
  g_toSend :: "string list"
  g_reinsert :: "'b limitedBroadcast list"
  g_finished :: "'b list"
  g_queue :: "'b TransmitLimitedQueue"

definition take_item ::
  "'b broadcast_ops \<Rightarrow> int \<Rightarrow> int \<Rightarrow> 'b limitedBroadcast \<Rightarrow> 'b get_state \<Rightarrow> 'b get_state" where
  "take_item ops overhead transmitLimit keep g =
     (let msg = bo_Message ops (lb_b keep);
          stop = (lb_transmits keep + 1 \<ge> transmitLimit)
      in g\<lparr>g_bytesUsed := g_bytesUsed g + (overhead + int (length msg)),
           g_toSend := g_toSend g @ [msg],
           g_queue := deleteItem (g_queue g) keep,
           g_finished := (if stop then g_finished g @ [lb_b keep] else g_finished g),
           g_reinsert := (if stop then g_reinsert g
                          else g_reinsert g @ [keep\<lparr>lb_transmits := lb_transmits keep + 1\<rparr>])\<rparr>)"

function get_loop ::
  "'b broadcast_ops \<Rightarrow> int \<Rightarrow> int \<Rightarrow> int \<Rightarrow> int \<Rightarrow> 'b get_state \<Rightarrow> 'b get_state" where
  "get_loop ops overhead limit transmitLimit maxTr g =
     (if g_transmits g \<le> maxTr then
        (let free = limit - g_bytesUsed g - overhead
         in if free \<le> 0 then g
            else case pick ops (g_transmits g) free (q_items (g_queue g)) of
                   None \<Rightarrow> get_loop ops overhead limit transmitLimit maxTr
                             (g\<lparr>g_transmits := g_transmits g + 1\<rparr>)
                 | Some keep \<Rightarrow> get_loop ops overhead limit transmitLimit maxTr
                             (take_item ops overhead transmitLimit keep g))
      else g)"
  by pat_completeness auto
termination
proof (relation "measure (\<lambda>(_, _, _, _, maxTr, g).
    nat (maxTr + 1 - g_transmits g) + length (q_items (g_queue g)))", goal_cases)
  case (3 ops overhead limit transmitLimit maxTr g free keep)
  then have "Suc (length (tree_delete keep (q_items (g_queue g)))) = length (q_items (g_queue g))"
    by (intro tree_delete_length) (auto dest: pick_SomeD)
  then show ?case by (simp add: take_item_def Let_def)
qed auto

declare get_loop.simps [simp del]

definition GetBroadcasts ::
  "'b broadcast_ops \<Rightarrow> (int \<Rightarrow> int) \<Rightarrow> int \<Rightarrow> 'b TransmitLimitedQueue \<Rightarrow> int \<Rightarrow> int
   \<Rightarrow> ('b TransmitLimitedQueue \<times> string list \<times> 'b list) go" where
  "GetBroadcasts ops ceil_log10 numNodes q overhead limit =
     (if lenLocked q = 0 then Ret (q, [], [])
      else (let transmitLimit = retransmitLimit ceil_log10 (q_RetransmitMult q) numNodes;
                (minTr, maxTr) = getTransmitRange q;
                g = get_loop ops overhead limit transmitLimit maxTr
                      \<lparr>g_transmits = minTr, g_bytesUsed = 0, g_toSend = [], g_reinsert = [],
                       g_finished = [], g_queue = q\<rparr>
            in go_bind (fold (\<lambda>cur r. go_bind r (\<lambda>q. addItem q cur)) (g_reinsert g) (Ret (g_queue g)))
                 (\<lambda>q'. Ret (q', g_toSend g, g_finished g))))"

definition NumQueued :: "'b TransmitLimitedQueue \<Rightarrow> int" where
  "NumQueued q = lenLocked q"

definition q_Reset :: "'b TransmitLimitedQueue \<Rightarrow> 'b TransmitLimitedQueue \<times> 'b list" where
  "q_Reset q = (q\<lparr>q_tq := None, q_tm := nil_map, q_idGen := 0\<rparr>, map lb_b (q_items q))"

text \<open>\<open>Prune\<close> drops items from the end of the order until at most \<open>maxRetain\<close> are left.\<close>

function prune_loop ::
  "'b TransmitLimitedQueue \<Rightarrow> int \<Rightarrow> 'b list \<Rightarrow> 'b TransmitLimitedQueue \<times> 'b list" where
  "prune_loop q maxRetain fin =
     (if int (length (q_items q)) > maxRetain \<and> q_items q \<noteq> []
      then prune_loop (deleteItem q (last (q_items q))) maxRetain (fin @ [lb_b (last (q_items q))])
      else (q, fin))"
  by pat_completeness auto
termination
proof (relation "measure (\<lambda>(q, _, _). length (q_items q))", goal_cases)
  case (2 q maxRetain fin)
  then show ?case
    using tree_delete_length [of "last (q_items q)" "q_items q"] by simp
qed simp

declare prune_loop.simps [simp del]

definition q_Prune ::
  "'b TransmitLimitedQueue \<Rightarrow> int \<Rightarrow> ('b TransmitLimitedQueue \<times> 'b list) go" where
  "q_Prune q maxRetain =
     (if q_tq q = None then Panic NilDereference else Ret (prune_loop q maxRetain []))"

section \<open>Order of the tree\<close>

lemma key_less_irrefl [simp]: "\<not> key_less k k"
  by (cases k) simp

lemma key_less_trans: "key_less a b \<Longrightarrow> key_less b c \<Longrightarrow> key_less a c"
  by (cases a; cases b; cases c) (auto split: if_splits)

lemma key_less_total: "\<not> key_less a b \<Longrightarrow> \<not> key_less b a \<Longrightarrow> a = b"
  by (cases a; cases b) (auto split: if_splits)

lemma tree_sorted_distinct: "tree_sorted xs \<Longrightarrow> distinct (map lb_key xs)"
  by (induction xs) (auto simp: tree_sorted_def lb_Less_def)

lemma set_tree_delete: "set (tree_delete x xs) \<subseteq> set xs"
  by (induction xs) auto

lemma tree_sorted_delete: "tree_sorted xs \<Longrightarrow> tree_sorted (tree_delete x xs)"
  using set_tree_delete by (induction xs) (auto simp: tree_sorted_def)

lemma set_tree_insert: "set (tree_insert x xs) \<subseteq> insert x (set xs)"
  by (induction xs) auto

lemma tree_sorted_insert: "tree_sorted xs \<Longrightarrow> tree_sorted (tree_insert x xs)"
proof (induction xs)
  case (Cons y ys)
  have less: "lb_Less y z" if "z \<in> set (tree_insert x ys)" "lb_Less y x" for z
    using that set_tree_insert [of x ys] Cons.prems by (auto simp: tree_sorted_def)
  show ?case
  proof (cases "lb_Less x y")
    case True
    with Cons.prems show ?thesis
      by (auto simp: tree_sorted_def lb_Less_def intro: key_less_trans)
  next
    case False
    show ?thesis
    proof (cases "lb_Less y x")
      case True
      with False Cons less show ?thesis by (simp add: tree_sorted_def)
    next
      case False
      with \<open>\<not> lb_Less x y\<close> have "lb_key x = lb_key y"
        by (simp add: lb_Less_def key_less_total)
      with False \<open>\<not> lb_Less x y\<close> Cons.prems show ?thesis
        by (simp add: tree_sorted_def lb_Less_def)
    qed
  qed
qed (simp add: tree_sorted_def)

lemma mset_tree_delete:
  "distinct (map lb_key xs) \<Longrightarrow> x \<in> set xs \<Longrightarrow> mset xs = add_mset x (mset (tree_delete x xs))"
  by (induction xs) auto

lemma mset_tree_insert:
  "lb_key x \<notin> lb_key ` set xs \<Longrightarrow> mset (tree_insert x xs) = add_mset x (mset xs)"
  by (induction xs) (auto simp: lb_Less_def dest: key_less_total)

lemma fold_tree_insert:
  assumes "tree_sorted xs" and "distinct (map lb_key (ys @ xs))"
  shows "tree_sorted (fold tree_insert ys xs) \<and> mset (fold tree_insert ys xs) = mset ys + mset xs"
  using assms
proof (induction ys arbitrary: xs)
  case (Cons y ys)
  have m: "mset (tree_insert y xs) = add_mset y (mset xs)"
    using Cons.prems by (intro mset_tree_insert) auto
  then have "set (tree_insert y xs) = insert y (set xs)"
    by (metis set_mset_mset set_mset_add_mset_insert)
  then have "distinct (map lb_key (ys @ tree_insert y xs))"
    using Cons.prems tree_sorted_distinct [OF tree_sorted_insert [OF Cons.prems(1), of y]] by auto
  then show ?case
    using Cons.IH [of "tree_insert y xs"] tree_sorted_insert [OF Cons.prems(1), of y] m by simp
qed simp

section \<open>The loop\<close>

text \<open>The rule for the loop: what both kinds of round keep holds at the end.\<close>

lemma get_loop_rule:
  assumes "P g"
    and "\<And>g. P g \<Longrightarrow> P (g\<lparr>g_transmits := g_transmits g + 1\<rparr>)"
    and "\<And>g keep. P g \<Longrightarrow>
      pick ops (g_transmits g) (limit - g_bytesUsed g - overhead) (q_items (g_queue g)) = Some keep \<Longrightarrow>
      P (take_item ops overhead transmitLimit keep g)"
  shows "P (get_loop ops overhead limit transmitLimit maxTr g)"
  using assms
proof (induction ops overhead limit transmitLimit maxTr g rule: get_loop.induct)
  case (1 ops overhead limit transmitLimit maxTr g)
  then show ?case
    by (subst get_loop.simps) (auto simp: Let_def split: option.splits)
qed

definition within_limit :: "int \<Rightarrow> int \<Rightarrow> 'b get_state \<Rightarrow> bool" where
  "within_limit overhead limit g \<longleftrightarrow>
     g_bytesUsed g = sum_list (map (\<lambda>m. overhead + int (length m)) (g_toSend g))
     \<and> (g_toSend g = [] \<or> g_bytesUsed g \<le> limit)"

lemma get_loop_within_limit:
  "within_limit overhead limit g \<Longrightarrow>
   within_limit overhead limit (get_loop ops overhead limit transmitLimit maxTr g)"
  by (rule get_loop_rule)
    (auto simp: within_limit_def take_item_def Let_def dest!: pick_SomeD(2))

text \<open>
  What the rounds have moved: the picked items are sent in order; those that have reached the
  limit are finished, the others wait to be put back with their count raised.
\<close>

definition bump :: "'b limitedBroadcast \<Rightarrow> 'b limitedBroadcast" where
  "bump x = x\<lparr>lb_transmits := lb_transmits x + 1\<rparr>"

definition moved ::
  "'b broadcast_ops \<Rightarrow> int \<Rightarrow> 'b limitedBroadcast list \<Rightarrow> 'b limitedBroadcast list \<Rightarrow> 'b get_state \<Rightarrow> bool"
  where
  "moved ops tlim items picks g \<longleftrightarrow>
     tree_sorted (q_items (g_queue g)) \<and> mset items = mset picks + mset (q_items (g_queue g))
     \<and> g_toSend g = map (\<lambda>x. bo_Message ops (lb_b x)) picks
     \<and> g_finished g = map lb_b (filter (\<lambda>x. lb_transmits x + 1 \<ge> tlim) picks)
     \<and> g_reinsert g = map bump (filter (\<lambda>x. \<not> lb_transmits x + 1 \<ge> tlim) picks)"

lemma get_loop_moved:
  assumes "\<exists>picks. moved ops tlim items picks g"
  shows "\<exists>picks. moved ops tlim items picks (get_loop ops overhead limit tlim maxTr g)"
proof (rule get_loop_rule [where P = "\<lambda>g. \<exists>picks. moved ops tlim items picks g"])
  show "\<exists>picks. moved ops tlim items picks g" by (rule assms)
  show "\<exists>picks. moved ops tlim items picks (g\<lparr>g_transmits := g_transmits g + 1\<rparr>)"
    if "\<exists>picks. moved ops tlim items picks g" for g
    using that by (simp add: moved_def)
  show "\<exists>picks. moved ops tlim items picks (take_item ops overhead tlim keep g)"
    if "\<exists>picks. moved ops tlim items picks g"
      "pick ops (g_transmits g) (limit - g_bytesUsed g - overhead) (q_items (g_queue g)) = Some keep"
    for g keep
  proof -
    from that(1) obtain picks where m: "moved ops tlim items picks g" by (elim exE)
    have "keep \<in> set (q_items (g_queue g))" using that(2) by (rule pick_SomeD)
    then have "mset (q_items (g_queue g)) = add_mset keep (mset (tree_delete keep (q_items (g_queue g))))"
      using m by (intro mset_tree_delete tree_sorted_distinct) (simp_all add: moved_def)
    with m have "moved ops tlim items (picks @ [keep]) (take_item ops overhead tlim keep g)"
      by (simp add: moved_def take_item_def Let_def tree_sorted_delete bump_def)
    then show ?thesis by blast
  qed
qed

section \<open>Whole calls\<close>

text \<open>The queue of the service holds plain messages only: no item has a name.\<close>

definition plain_queue :: "'b TransmitLimitedQueue \<Rightarrow> bool" where
  "plain_queue q \<longleftrightarrow> tree_sorted (q_items q) \<and> (\<forall>x \<in> set (q_items q). lb_name x = [])"

lemma fold_addItem_plain:
  "\<forall>x \<in> set ys. lb_name x = [] \<Longrightarrow> ys \<noteq> [] \<or> q_tq q \<noteq> None \<Longrightarrow>
   fold (\<lambda>cur r. go_bind r (\<lambda>q. addItem q cur)) ys (Ret q)
   = Ret (q\<lparr>q_tq := Some (fold tree_insert ys (q_items q))\<rparr>)"
  by (induction ys arbitrary: q) (auto simp: addItem_def Let_def q_items_def)

lemma take_item_tq: "q_tq (g_queue (take_item ops overhead tlim keep g)) \<noteq> None"
  by (simp add: take_item_def deleteItem_def Let_def)

lemma get_loop_tq:
  "q_tq (g_queue g) \<noteq> None \<Longrightarrow> q_tq (g_queue (get_loop ops overhead limit tlim maxTr g)) \<noteq> None"
  by (rule get_loop_rule [where P = "\<lambda>g. q_tq (g_queue g) \<noteq> None"]) (use take_item_tq in auto)

definition start_state :: "'b TransmitLimitedQueue \<Rightarrow> 'b get_state" where
  "start_state q = \<lparr>g_transmits = fst (getTransmitRange q), g_bytesUsed = 0, g_toSend = [],
     g_reinsert = [], g_finished = [], g_queue = q\<rparr>"

lemma moved_start: "tree_sorted (q_items q) \<Longrightarrow> moved ops tlim (q_items q) [] (start_state q)"
  by (simp add: moved_def start_state_def)

lemma bump_sel [simp]:
  "lb_name (bump x) = lb_name x" "lb_id (bump x) = lb_id x" "lb_b (bump x) = lb_b x"
  "lb_transmits (bump x) = lb_transmits x + 1" "lb_msgLen (bump x) = lb_msgLen x"
  by (simp_all add: bump_def)

lemma map_ids_bump [simp]: "map (lb_id \<circ> bump) xs = map lb_id xs"
  by simp

lemma distinct_ids_keys: "distinct (map lb_id xs) \<Longrightarrow> distinct (map lb_key xs)"
  by (induction xs) (auto simp: lb_key_def)

lemma distinct_map_mset:
  "mset xs = mset ys + mset zs \<Longrightarrow> distinct (map f xs) \<Longrightarrow> distinct (map f ys @ map f zs)"
  by (metis distinct_append map_append mset_append mset_eq_imp_distinct_iff mset_map)

lemma distinct_map_perm: "mset xs = mset ys \<Longrightarrow> distinct (map f xs) \<longleftrightarrow> distinct (map f ys)"
  by (rule mset_eq_imp_distinct_iff) simp

text \<open>The result of one call on a plain queue whose items have different ids.\<close>

definition sent_batch ::
  "'b broadcast_ops \<Rightarrow> int \<Rightarrow> int \<Rightarrow> int \<Rightarrow> 'b limitedBroadcast list \<Rightarrow> 'b limitedBroadcast list \<Rightarrow>
   'b limitedBroadcast list \<Rightarrow> 'b TransmitLimitedQueue \<times> string list \<times> 'b list \<Rightarrow> bool" where
  "sent_batch ops tlim overhead limit items picks rest = (\<lambda>(q', msgs, fin).
     mset items = mset picks + mset rest
     \<and> msgs = map (\<lambda>x. bo_Message ops (lb_b x)) picks
     \<and> (msgs = [] \<or> sum_list (map (\<lambda>m. overhead + int (length m)) msgs) \<le> limit)
     \<and> mset (q_items q') = mset rest + mset (map bump (filter (\<lambda>x. lb_transmits x + 1 < tlim) picks))
     \<and> fin = map lb_b (filter (\<lambda>x. lb_transmits x + 1 \<ge> tlim) picks)
     \<and> plain_queue q' \<and> distinct (map lb_id (q_items q')))"

lemma finish_batch:
  assumes m: "moved ops tlim (q_items q) picks g" and w: "within_limit overhead limit g"
    and tq: "q_tq (g_queue g) \<noteq> None" and pl: "plain_queue q" and ids: "distinct (map lb_id (q_items q))"
  shows "\<exists>q'. fold (\<lambda>cur r. go_bind r (\<lambda>q. addItem q cur)) (g_reinsert g) (Ret (g_queue g)) = Ret q'
      \<and> sent_batch ops tlim overhead limit (q_items q) picks (q_items (g_queue g)) (q', g_toSend g, g_finished g)"
proof -
  let ?rest = "q_items (g_queue g)" and ?again = "filter (\<lambda>x. lb_transmits x + 1 < tlim) picks"
  let ?q = "(g_queue g)\<lparr>q_tq := Some (fold tree_insert (g_reinsert g) ?rest)\<rparr>"
  have ms: "mset (q_items q) = mset picks + mset ?rest" and srt: "tree_sorted ?rest"
    and re: "g_reinsert g = map bump ?again"
    using m by (auto simp: moved_def not_le)
  have set_eq: "set (q_items q) = set picks \<union> set ?rest"
    using ms by (metis set_mset_mset set_mset_union)
  have idd: "distinct (map lb_id picks @ map lb_id ?rest)"
    using distinct_map_mset [OF ms ids] .
  have idr: "distinct (map lb_id (map bump ?again @ ?rest))"
    using idd distinct_map_filter [of lb_id picks] by (auto simp: map_ids_bump)
  have f: "tree_sorted (fold tree_insert (map bump ?again) ?rest)"
    "mset (fold tree_insert (map bump ?again) ?rest) = mset (map bump ?again) + mset ?rest"
    using fold_tree_insert [OF srt distinct_ids_keys [OF idr]] by auto
  have it: "q_items ?q = fold tree_insert (map bump ?again) ?rest"
    by (simp add: re q_items_def)
  have names: "\<forall>x \<in> set (map bump ?again) \<union> set ?rest. lb_name x = []"
    using pl set_eq by (auto simp: plain_queue_def)
  have run: "fold (\<lambda>cur r. go_bind r (\<lambda>q. addItem q cur)) (g_reinsert g) (Ret (g_queue g)) = Ret ?q"
    using names tq by (intro fold_addItem_plain) (auto simp: re)
  have set_it: "set (q_items ?q) = set (map bump ?again) \<union> set ?rest"
    using f(2) unfolding it by (metis set_mset_mset set_mset_union)
  have "plain_queue ?q"
    unfolding plain_queue_def set_it unfolding it using f(1) names by blast
  moreover have "distinct (map lb_id (q_items ?q))"
    unfolding it using idr by (subst distinct_map_perm [where ys = "map bump ?again @ ?rest"]) (simp_all add: f(2))
  moreover have "mset (q_items ?q) = mset ?rest + mset (map bump ?again)"
    using f(2) unfolding it by simp
  ultimately have "sent_batch ops tlim overhead limit (q_items q) picks ?rest (?q, g_toSend g, g_finished g)"
    using m w ms by (auto simp: sent_batch_def moved_def within_limit_def)
  with run show ?thesis by blast
qed

lemma GetBroadcasts_batch:
  fixes q :: "'b TransmitLimitedQueue"
  assumes "plain_queue q" and "distinct (map lb_id (q_items q))"
  shows "\<exists>r picks rest. GetBroadcasts ops ceil_log10 n q overhead limit = Ret r
    \<and> sent_batch ops (retransmitLimit ceil_log10 (q_RetransmitMult q) n) overhead limit (q_items q) picks rest r"
proof (cases "q_items q = []")
  case True
  then have "sent_batch ops (retransmitLimit ceil_log10 (q_RetransmitMult q) n) overhead limit
      (q_items q) [] [] (q, [], [])"
    using assms by (simp add: sent_batch_def)
  with True show ?thesis by (auto simp: GetBroadcasts_def lenLocked_def)
next
  case False
  define tlim where "tlim = retransmitLimit ceil_log10 (q_RetransmitMult q) n"
  define g where "g = get_loop ops overhead limit tlim (snd (getTransmitRange q)) (start_state q)"
  have "tree_sorted (q_items q)" using assms(1) by (simp add: plain_queue_def)
  then have "\<exists>picks. moved ops tlim (q_items q) picks g"
    unfolding g_def by (intro get_loop_moved) (blast intro: moved_start)
  then obtain picks where m: "moved ops tlim (q_items q) picks g" ..
  have w: "within_limit overhead limit g"
    unfolding g_def by (rule get_loop_within_limit) (simp add: within_limit_def start_state_def)
  have "q_tq q \<noteq> None" using False by (auto simp: q_items_def split: option.splits)
  then have tq: "q_tq (g_queue g) \<noteq> None"
    unfolding g_def by (intro get_loop_tq) (simp add: start_state_def)
  from finish_batch [OF m w tq assms] obtain q' where
    q': "fold (\<lambda>cur r. go_bind r (\<lambda>q. addItem q cur)) (g_reinsert g) (Ret (g_queue g)) = Ret q'"
    "sent_batch ops tlim overhead limit (q_items q) picks (q_items (g_queue g)) (q', g_toSend g, g_finished g)"
    by blast
  have "GetBroadcasts ops ceil_log10 n q overhead limit = Ret (q', g_toSend g, g_finished g)"
    using False q'(1)
    by (simp add: GetBroadcasts_def lenLocked_def Let_def split_beta g_def tlim_def start_state_def)
  with q'(2) show ?thesis unfolding tlim_def by blast
qed

subsection \<open>Queueing\<close>

lemma tree_delete_filter:
  "distinct (map lb_key ys) \<Longrightarrow> tree_delete x ys = filter (\<lambda>y. lb_key y \<noteq> lb_key x) ys"
proof (induction ys)
  case (Cons y ys)
  then have "filter (\<lambda>z. lb_key z \<noteq> lb_key y) ys = ys"
    by (intro filter_True) (metis image_eqI distinct.simps(2) list.simps(9) set_map)
  with Cons show ?case by auto
qed simp

lemma fold_tree_delete:
  "distinct (map lb_key ys) \<Longrightarrow>
   fold tree_delete xs ys = filter (\<lambda>y. lb_key y \<notin> lb_key ` set xs) ys"
proof (induction xs arbitrary: ys)
  case (Cons x xs)
  then have "distinct (map lb_key (filter (\<lambda>y. lb_key y \<noteq> lb_key x) ys))"
    by (simp add: distinct_map_filter)
  with Cons show ?case
    by (simp add: tree_delete_filter conj_commute)
qed simp

lemma fold_tree_delete_filter:
  assumes "distinct (map lb_key ys)"
  shows "fold tree_delete (filter P ys) ys = filter (\<lambda>y. \<not> P y) ys"
  unfolding fold_tree_delete [OF assms]
proof (rule filter_cong)
  fix y assume "y \<in> set ys"
  moreover have "inj_on lb_key (set ys)" using assms by (simp add: distinct_map)
  ultimately show "lb_key y \<notin> lb_key ` set (filter P ys) \<longleftrightarrow> \<not> P y"
    by (auto dest: inj_onD)
qed simp

lemma q_items_fold_deleteItem:
  "q_items (fold (\<lambda>cur q. deleteItem q cur) xs q) = fold tree_delete xs (q_items q)"
  by (induction xs arbitrary: q) simp_all

lemma q_items_lazyInit [simp]: "q_items (lazyInit q) = q_items q"
  by (simp add: q_items_def lazyInit_def split: option.splits)

lemma q_items_update [simp]:
  "q_items (q\<lparr>q_idGen := i\<rparr>) = q_items q" "q_items (q\<lparr>q_tm := m\<rparr>) = q_items q"
  "q_items (q\<lparr>q_tq := Some xs\<rparr>) = xs"
  by (simp_all add: q_items_def)

lemma nextId_lazyInit [simp]: "nextId (lazyInit q) = nextId q"
  by (simp add: nextId_def lazyInit_def)

text \<open>The item a broadcast is queued as.\<close>

definition new_item :: "'b broadcast_ops \<Rightarrow> 'b TransmitLimitedQueue \<Rightarrow> 'b \<Rightarrow> 'b limitedBroadcast" where
  "new_item ops q b = \<lparr>lb_transmits = 0, lb_msgLen = int (length (bo_Message ops b)),
     lb_id = nextId q, lb_b = b, lb_name = []\<rparr>"

text \<open>Queueing a plain broadcast: the items it invalidates go, then its own item is put in.\<close>

lemma QueueBroadcast_plain:
  assumes "plain_queue q" and "\<And>x. bo_kind ops x = PlainBroadcast"
  obtains q' where "QueueBroadcast ops q b =
      Ret (q', map lb_b (filter (\<lambda>x. bo_Invalidates ops b (lb_b x)) (q_items q)))"
    and "q_items q' = tree_insert (new_item ops q b)
           (filter (\<lambda>x. \<not> bo_Invalidates ops b (lb_b x)) (q_items q))"
    and "plain_queue q'"
proof -
  let ?P = "\<lambda>x. bo_Invalidates ops b (lb_b x)"
  let ?q2 = "(lazyInit q)\<lparr>q_idGen := nextId q\<rparr>"
  let ?q3 = "fold (\<lambda>cur q. deleteItem q cur) (filter ?P (q_items q)) ?q2"
  let ?keep = "filter (\<lambda>x. \<not> ?P x) (q_items q)"
  let ?q' = "?q3\<lparr>q_tq := Some (tree_insert (new_item ops q b) ?keep)\<rparr>"
  have inv: "invalidated ops b = ?P"
    by (simp add: invalidated_def assms(2) fun_eq_iff)
  have srt: "tree_sorted (q_items q)" using assms(1) by (simp add: plain_queue_def)
  then have it: "q_items ?q3 = ?keep"
    by (simp add: q_items_fold_deleteItem fold_tree_delete_filter tree_sorted_distinct)
  have "QueueBroadcast ops q b = Ret (?q', map lb_b (filter ?P (q_items q)))"
    using it by (simp add: QueueBroadcast_def queueBroadcast_def Let_def assms(2) inv addItem_def new_item_def)
  moreover have "tree_sorted ?keep"
    using srt by (simp add: tree_sorted_def sorted_wrt_filter)
  then have "plain_queue ?q'"
    using assms(1) tree_sorted_insert [of ?keep "new_item ops q b"] set_tree_insert [of "new_item ops q b" ?keep]
    by (auto simp: plain_queue_def new_item_def)
  ultimately show thesis by (intro that [of ?q']) simp_all
qed

section \<open>Claims\<close>

text \<open>
  (C24) A call of \<open>GetBroadcasts\<close> on a well-formed queue whose items have pairwise different ids
  returns, and splits the queued items into the ones it sends and the rest. The messages are those
  of the sent items in the order picked, and with the per-message overhead they fit into the byte
  limit. Every sent item that has not reached the retransmit limit is back in the queue with its
  count raised by one, the others are reported as finished, and the items not sent are unchanged:
  nothing is lost and nothing is sent twice in one call.
\<close>

theorem GetBroadcasts_no_loss:
  assumes "plain_queue q" and "distinct (map lb_id (q_items q))"
  shows "\<exists>q' msgs fin picks rest.
      GetBroadcasts ops ceil_log10 n q overhead limit = Ret (q', msgs, fin)
    \<and> mset (q_items q) = mset picks + mset rest
    \<and> msgs = map (\<lambda>x. bo_Message ops (lb_b x)) picks
    \<and> (msgs = [] \<or> sum_list (map (\<lambda>m. overhead + int (length m)) msgs) \<le> limit)
    \<and> mset (q_items q') = mset rest + mset (map bump (filter
         (\<lambda>x. lb_transmits x + 1 < retransmitLimit ceil_log10 (q_RetransmitMult q) n) picks))
    \<and> fin = map lb_b (filter
         (\<lambda>x. lb_transmits x + 1 \<ge> retransmitLimit ceil_log10 (q_RetransmitMult q) n) picks)
    \<and> plain_queue q' \<and> distinct (map lb_id (q_items q'))"
  using GetBroadcasts_batch [OF assms, of ops ceil_log10 n overhead limit]
  unfolding sent_batch_def by fast

text \<open>
  A queue of two messages, one sent once already, on a node of a three-node cluster with the
  retransmission factor 3.
\<close>

definition sample_ops :: "string broadcast_ops" where
  "sample_ops = \<lparr>bo_Message = id, bo_Invalidates = (=), bo_kind = (\<lambda>_. PlainBroadcast)\<rparr>"

definition sample_queue :: "string TransmitLimitedQueue" where
  "sample_queue = \<lparr>q_RetransmitMult = 3,
     q_tq = Some [\<lparr>lb_transmits = 0, lb_msgLen = 2, lb_id = 2, lb_b = ''up'', lb_name = []\<rparr>,
                  \<lparr>lb_transmits = 1, lb_msgLen = 4, lb_id = 1, lb_b = ''down'', lb_name = []\<rparr>],
     q_tm = make_map, q_idGen = 2\<rparr>"

theorem GetBroadcasts_no_loss_witness:
  "plain_queue sample_queue \<and> distinct (map lb_id (q_items sample_queue))
   \<and> (\<exists>q' msgs fin picks rest.
      GetBroadcasts sample_ops (\<lambda>_. 1) 3 sample_queue 2 8 = Ret (q', msgs, fin)
    \<and> mset (q_items sample_queue) = mset picks + mset rest
    \<and> msgs = map (\<lambda>x. bo_Message sample_ops (lb_b x)) picks)"
proof -
  have h: "plain_queue sample_queue" "distinct (map lb_id (q_items sample_queue))"
    by (simp_all add: plain_queue_def sample_queue_def q_items_def tree_sorted_def lb_Less_def lb_key_def)
  show ?thesis
    using h GetBroadcasts_no_loss [OF h, of sample_ops "\<lambda>_. 1" 3 2 8] by blast
qed

end
