(* ===== verification/Delegate.thy ===== *)
theory Delegate
  imports Gossip_Cache Transmit_Queue Go_Json
begin

text \<open>
  \<open>delegate.go\<close> and \<open>gossip.go\<close>: the service's side of the gossip library. \<open>MyDelegate\<close> keeps
  the messages to send in a \<open>TransmitLimitedQueue\<close> and collects the ones received; a message
  is sent as JSON. \<open>MyEventDelegate\<close> counts members. \<open>NewGossipNode\<close> builds both; creating the
  member list and joining are calls to the library and arguments here. Every method of
  \<open>MyDelegate\<close> that touches its fields holds its mutex.
\<close>

section \<open>Messages\<close>

definition message_json :: "MyBroadcastMessage \<Rightarrow> json" where
  "message_json m = JObj [(''timestamp'', JNum (FormatInt (msg_TimeStamp m))),
     (''node'', JStr (msg_Node m)), (''key'', JStr (msg_Key m)), (''value'', JStr (msg_Value m)),
     (''status'', JStr (msg_Status m))]"

text \<open>Marshalling a struct of an integer and strings cannot fail.\<close>

definition Message :: "MyBroadcastMessage \<Rightarrow> string" where
  "Message m = print_json (message_json m)"

text \<open>All broadcasts of the queue are \<open>MyBroadcastMessage\<close> values.\<close>

definition Invalidates :: "MyBroadcastMessage \<Rightarrow> MyBroadcastMessage \<Rightarrow> bool" where
  "Invalidates m mb \<longleftrightarrow>
     msg_Node m = msg_Node mb \<and> msg_Key m = msg_Key mb \<and> msg_TimeStamp m > msg_TimeStamp mb"

definition msg_ops :: "MyBroadcastMessage broadcast_ops" where
  "msg_ops = \<lparr>bo_Message = Message, bo_Invalidates = Invalidates, bo_kind = (\<lambda>_. PlainBroadcast)\<rparr>"

definition zero_message :: MyBroadcastMessage where
  "zero_message = \<lparr>msg_TimeStamp = 0, msg_Node = [], msg_Key = [], msg_Value = [], msg_Status = []\<rparr>"

definition message_fields :: "string list" where
  "message_fields = [''timestamp'', ''node'', ''key'', ''value'', ''status'']"

definition store_message :: "string \<Rightarrow> json \<Rightarrow> MyBroadcastMessage \<Rightarrow> MyBroadcastMessage option" where
  "store_message n v m =
     (if n = ''timestamp'' then map_option (\<lambda>t. m\<lparr>msg_TimeStamp := t\<rparr>) (store_int64 v (msg_TimeStamp m))
      else if n = ''node'' then map_option (\<lambda>s. m\<lparr>msg_Node := s\<rparr>) (store_string v (msg_Node m))
      else if n = ''key'' then map_option (\<lambda>s. m\<lparr>msg_Key := s\<rparr>) (store_string v (msg_Key m))
      else if n = ''value'' then map_option (\<lambda>s. m\<lparr>msg_Value := s\<rparr>) (store_string v (msg_Value m))
      else map_option (\<lambda>s. m\<lparr>msg_Status := s\<rparr>) (store_string v (msg_Status m)))"

text \<open>
  The target of the decoder is a pointer to a pointer, so that the document \<open>null\<close> decodes to the
  nil pointer without an error.
\<close>

definition ParseMyBroadcastMessage :: "string \<Rightarrow> MyBroadcastMessage option \<times> bool" where
  "ParseMyBroadcastMessage data =
     (case unmarshal data of
        None \<Rightarrow> (None, False)
      | Some JNull \<Rightarrow> (None, True)
      | Some (JObj ms) \<Rightarrow>
          (case store_members message_fields store_message ms zero_message of
             None \<Rightarrow> (None, False) | Some m \<Rightarrow> (Some m, True))
      | Some _ \<Rightarrow> (None, False))"

section \<open>The delegate\<close>

record MyDelegate =
  dl_meta :: string
  dl_state :: string
  dl_remoteState :: string
  dl_broadcasts :: "MyBroadcastMessage TransmitLimitedQueue"
  dl_msgs :: "MyBroadcastMessage list"

definition dl_setMeta :: "MyDelegate \<Rightarrow> string \<Rightarrow> MyDelegate" where
  "dl_setMeta m meta = m\<lparr>dl_meta := meta\<rparr>"

definition dl_NodeMeta :: "MyDelegate \<Rightarrow> int \<Rightarrow> string go" where
  "dl_NodeMeta m limit =
     (if int (length (dl_meta m)) > limit
      then if limit < 0 then Panic SliceOutOfRange else Ret (take (nat limit) (dl_meta m))
      else Ret (dl_meta m))"

definition dl_setState :: "MyDelegate \<Rightarrow> string \<Rightarrow> MyDelegate" where
  "dl_setState m state = m\<lparr>dl_state := state\<rparr>"

definition dl_LocalState :: "MyDelegate \<Rightarrow> bool \<Rightarrow> string" where
  "dl_LocalState m join = dl_state m"

fun dl_setBroadcasts :: "MyDelegate \<Rightarrow> MyBroadcastMessage list \<Rightarrow> MyDelegate go" where
  "dl_setBroadcasts m [] = Ret m"
| "dl_setBroadcasts m (msg # msgs) =
     go_bind (QueueBroadcast msg_ops (dl_broadcasts m) msg)
       (\<lambda>(q, _). dl_setBroadcasts (m\<lparr>dl_broadcasts := q\<rparr>) msgs)"

definition dl_GetBroadcasts ::
  "(int \<Rightarrow> int) \<Rightarrow> int \<Rightarrow> MyDelegate \<Rightarrow> int \<Rightarrow> int \<Rightarrow> (MyDelegate \<times> string list) go" where
  "dl_GetBroadcasts ceil_log10 num d overhead limit =
     go_bind (GetBroadcasts msg_ops ceil_log10 num (dl_broadcasts d) overhead limit)
       (\<lambda>(q, msgs, _). Ret (d\<lparr>dl_broadcasts := q\<rparr>, msgs))"

definition dl_getRemoteState :: "MyDelegate \<Rightarrow> string" where
  "dl_getRemoteState m = dl_remoteState m"

definition dl_MergeRemoteState :: "MyDelegate \<Rightarrow> string \<Rightarrow> bool \<Rightarrow> MyDelegate" where
  "dl_MergeRemoteState m buf join = m\<lparr>dl_remoteState := buf\<rparr>"

definition dl_getMessages :: "MyDelegate \<Rightarrow> MyDelegate \<times> MyBroadcastMessage list" where
  "dl_getMessages m = (m\<lparr>dl_msgs := []\<rparr>, dl_msgs m)"

definition dl_NotifyMsg :: "MyDelegate \<Rightarrow> string \<Rightarrow> MyDelegate go" where
  "dl_NotifyMsg m msg =
     (case ParseMyBroadcastMessage msg of
        (_, False) \<Rightarrow> Ret m
      | (None, True) \<Rightarrow> Panic NilDereference
      | (Some v, True) \<Rightarrow> Ret (m\<lparr>dl_msgs := dl_msgs m @ [v]\<rparr>))"

section \<open>Counting members\<close>

record MyEventDelegate =
  ed_Num :: int

definition ed_NotifyJoin :: "MyEventDelegate \<Rightarrow> MyEventDelegate" where
  "ed_NotifyJoin d = d\<lparr>ed_Num := i64 (ed_Num d + 1)\<rparr>"

definition ed_NotifyLeave :: "MyEventDelegate \<Rightarrow> MyEventDelegate" where
  "ed_NotifyLeave d = d\<lparr>ed_Num := i64 (ed_Num d - 1)\<rparr>"

definition ed_NotifyUpdate :: "MyEventDelegate \<Rightarrow> MyEventDelegate" where
  "ed_NotifyUpdate d = d"

section \<open>The gossip node\<close>

text \<open>What \<open>NewGossipNode\<close> sets in the configuration of the library.\<close>

record gossip_config =
  conf_Name :: string
  conf_BindAddr :: string
  conf_BindPort :: int

record gossipNode =
  gn_addr :: string
  gn_delegate :: MyDelegate
  gn_events :: MyEventDelegate

text \<open>
  \<open>create\<close> is \<open>memberlist.Create\<close> (an error or nil) and \<open>join\<close> the error of \<open>Join\<close>. The factor
  4 is the one of \<open>DefaultLANConfig\<close>. The meta data set first is overwritten before the node
  starts.
\<close>

definition new_delegate :: "string \<Rightarrow> MyDelegate" where
  "new_delegate addr =
     (let d = dl_setMeta \<lparr>dl_meta = [], dl_state = [], dl_remoteState = [], dl_broadcasts = new_queue 0,
                dl_msgs = []\<rparr> addr
      in d\<lparr>dl_meta := [], dl_remoteState := [], dl_state := [], dl_broadcasts := new_queue 4\<rparr>)"

definition Atoi :: "string \<Rightarrow> int option" where
  "Atoi s = ParseInt s"

definition NewGossipNode ::
  "(gossip_config \<Rightarrow> gerror) \<Rightarrow> (string list \<Rightarrow> gerror) \<Rightarrow> string \<Rightarrow> string \<Rightarrow> (string + gossipNode) go" where
  "NewGossipNode create join addr cluster =
     (let parts = Split CHR '':'' addr
      in go_bind (go_index parts 0) (\<lambda>host.
         go_bind (go_index parts 1) (\<lambda>p.
         case Atoi p of
           None \<Rightarrow> Ret (Inl ''invalid port'')
         | Some port \<Rightarrow>
             (case create \<lparr>conf_Name = addr, conf_BindAddr = host, conf_BindPort = port\<rparr> of
                Some e \<Rightarrow> Ret (Inl e)
              | None \<Rightarrow>
                  (case join [if cluster = [] then addr else cluster] of
                     Some e \<Rightarrow> Ret (Inl e)
                   | None \<Rightarrow> Ret (Inr \<lparr>gn_addr = addr, gn_delegate = new_delegate addr,
                                       gn_events = \<lparr>ed_Num = 0\<rparr>\<rparr>))))))"

definition gn_SetBroadcasts :: "gossipNode \<Rightarrow> MyBroadcastMessage list \<Rightarrow> gossipNode go" where
  "gn_SetBroadcasts n data =
     go_bind (dl_setBroadcasts (gn_delegate n) data) (\<lambda>d. Ret (n\<lparr>gn_delegate := d\<rparr>))"

definition gn_GetMessages :: "gossipNode \<Rightarrow> gossipNode \<times> MyBroadcastMessage list" where
  "gn_GetMessages n =
     (let (d, ms) = dl_getMessages (gn_delegate n) in (n\<lparr>gn_delegate := d\<rparr>, ms))"

definition gn_Addr :: "gossipNode \<Rightarrow> string" where
  "gn_Addr n = gn_addr n"

text \<open>
  \<open>Members\<close> lists the names of the nodes the member list has not declared dead; the node table
  of the library is an argument, as are its answers to \<open>Join\<close> and \<open>Leave\<close>.
\<close>

record ml_node =
  mn_Name :: string
  mn_dead :: bool

definition ml_Members :: "ml_node list \<Rightarrow> ml_node list" where
  "ml_Members nodes = filter (\<lambda>n. \<not> mn_dead n) nodes"

definition gn_Members :: "ml_node list \<Rightarrow> string list" where
  "gn_Members nodes = map mn_Name (ml_Members nodes)"

definition gn_Join :: "(string list \<Rightarrow> int \<times> gerror) \<Rightarrow> string list \<Rightarrow> int \<times> gerror" where
  "gn_Join ml_join peers = ml_join peers"

definition gn_Leave :: "(duration \<Rightarrow> gerror) \<Rightarrow> duration \<Rightarrow> gerror" where
  "gn_Leave ml_leave timeout = ml_leave timeout"

section \<open>Lemmas\<close>

text \<open>What a node sends is plain ASCII text with an \<open>int64\<close> timestamp.\<close>

definition sendable :: "MyBroadcastMessage \<Rightarrow> bool" where
  "sendable m \<longleftrightarrow> in_i64 (msg_TimeStamp m) \<and> ascii (msg_Node m) \<and> ascii (msg_Key m)
     \<and> ascii (msg_Value m) \<and> ascii (msg_Status m)"

lemma ascii_names [simp]:
  "ascii ''timestamp''" "ascii ''node''" "ascii ''key''" "ascii ''value''" "ascii ''status''"
  by code_simp+

lemma message_json_flat:
  "sendable m \<Longrightarrow> \<exists>ms. message_json m = JObj ms \<and> list_all flat_member ms"
  by (auto simp: message_json_def flat_member_def sendable_def)

lemma unmarshal_Message: "sendable m \<Longrightarrow> unmarshal (Message m) = Some (message_json m)"
  using message_json_flat [of m] unmarshal_print_flat by (auto simp: Message_def)

lemma parse_Message: "sendable m \<Longrightarrow> ParseMyBroadcastMessage (Message m) = (Some m, True)"
  by (simp add: ParseMyBroadcastMessage_def unmarshal_Message)
    (simp add: message_json_def message_fields_def store_message_def
      store_int64_def store_string_def ParseInt_FormatInt sendable_def zero_message_def)

lemma notify_sent: "sendable m \<Longrightarrow> dl_NotifyMsg d (Message m) = Ret (d\<lparr>dl_msgs := dl_msgs d @ [m]\<rparr>)"
  by (simp add: dl_NotifyMsg_def parse_Message)

lemma msg_ops_sel [simp]:
  "bo_Message msg_ops = Message" "bo_Invalidates msg_ops = Invalidates" "bo_kind msg_ops x = PlainBroadcast"
  by (simp_all add: msg_ops_def)

lemma Invalidates_irrefl [simp]: "\<not> Invalidates m m"
  by (simp add: Invalidates_def)

lemma Invalidates_trans: "Invalidates a b \<Longrightarrow> Invalidates b c \<Longrightarrow> Invalidates a c"
  by (auto simp: Invalidates_def)

section \<open>Claims\<close>

text \<open>
  Delivery is faithful: when a node receives the bytes that another one sent for a message
  with an \<open>int64\<close> timestamp and ASCII text, exactly that message is appended to its inbox, and
  emptying the inbox returns it last.
\<close>

lemma message_delivery:
  assumes "sendable m"
  shows "\<exists>d'. dl_NotifyMsg d (Message m) = Ret d' \<and> dl_getMessages d' = (d'\<lparr>dl_msgs := []\<rparr>, dl_msgs d @ [m])"
  using assms by (simp add: notify_sent dl_getMessages_def)

definition sample_message :: "int \<Rightarrow> string \<Rightarrow> MyBroadcastMessage" where
  "sample_message t key = \<lparr>msg_TimeStamp = t, msg_Node = ''10.0.0.1:7946'', msg_Key = key,
     msg_Value = ''host:8091'', msg_Status = GOSSIP_UP\<rparr>"

text \<open>
  A received message makes the node panic exactly when it is the JSON document \<open>null\<close>: the
  parser then reports success with a nil pointer, which \<open>NotifyMsg\<close> dereferences. Every other
  byte string is either stored or ignored.
\<close>

lemma NotifyMsg_panics_iff:
  "dl_NotifyMsg d msg = Panic NilDereference \<longleftrightarrow> unmarshal msg = Some JNull"
  by (auto simp: dl_NotifyMsg_def ParseMyBroadcastMessage_def split: option.splits json.splits)



lemma queue_loses_general:
  assumes "Invalidates m2 m1" "\<not> Invalidates m3 m2" "\<not> Invalidates m4 m2" "\<not> Invalidates m4 m3"
    and "length (Message m3) = length (Message m2)" "length (Message m4) = length (Message m2)"
  shows "\<exists>d'. dl_setBroadcasts (new_delegate addr) [m1, m2, m3, m4] = Ret d'
    \<and> map lb_b (q_items (dl_broadcasts d')) = [m4, m3]"
  using assms
  by (simp add: new_delegate_def dl_setMeta_def new_queue_def QueueBroadcast_def queueBroadcast_def Let_def
      lazyInit_def nextId_def max_i64_def q_items_def make_map_def nil_map_def invalidated_def
      deleteItem_def addItem_def lb_Less_def lb_key_def)

text \<open>
  The library can drop a queued report that nobody has sent yet. Deleting the last item of
  the queue resets the id generator, also when a newer report on the same key is about to take its
  place: after two reports on \<open>k1\<close>, the reports on \<open>k2\<close> and \<open>k3\<close> get the ids 1 and 2, and the
  second of them, as long as the waiting report on \<open>k1\<close>, replaces it in the tree.
\<close>

lemma queue_loses_report:
  "\<exists>d'. dl_setBroadcasts (new_delegate [])
        [sample_message 1 ''k1'', sample_message 2 ''k1'', sample_message 3 ''k2'', sample_message 4 ''k3''] = Ret d'
    \<and> map lb_b (q_items (dl_broadcasts d')) = [sample_message 4 ''k3'', sample_message 3 ''k2'']"
proof (rule queue_loses_general)
  show "length (Message (sample_message 3 ''k2'')) = length (Message (sample_message 2 ''k1''))"
    "length (Message (sample_message 4 ''k3'')) = length (Message (sample_message 2 ''k1''))"
    by code_simp+
qed (simp_all add: Invalidates_def sample_message_def)

end
