(* ===== verification/Shell_Cmd.thy ===== *)
theory Shell_Cmd
  imports Base
begin

text \<open>
  \<open>shellCmd.go\<close>: running a script with a time limit. The operating system's part, what one run
  of the command does, is an argument: whether the process starts, when it ends, and what it has
  written by each second.
\<close>

section \<open>Operations\<close>

record process_run =
  run_started :: bool
  run_ends :: "nat option"
  run_stdout :: "nat \<Rightarrow> string"
  run_stderr :: "nat \<Rightarrow> string"

text \<open>
  The \<open>select\<close> waits for the end of the process or for the time-out; after the time-out the
  process gets one more second before it is killed. A process that does not start makes \<open>Wait\<close>
  fail at once, so the \<open>done\<close> branch is taken with empty buffers.
\<close>

definition ShellCmdTimeout ::
  "int \<Rightarrow> string \<Rightarrow> process_run \<Rightarrow> string \<times> string \<times> gerror" where
  "ShellCmdTimeout timeout cmd run =
     (if length cmd = 0 then ([], [], Some ''cannot run a empty command'')
      else if \<not> run_started run then ([], [], None)
      else (let stop = (case run_ends run of
                          Some e \<Rightarrow> if int e \<le> timeout then e else nat timeout + 1
                        | None \<Rightarrow> nat timeout + 1)
            in (run_stdout run stop, run_stderr run stop, None)))"

text \<open>The clean-up of a buffer: trailing zero bytes, then white space on both sides.\<close>

definition trimOutput :: "string \<Rightarrow> string" where
  "trimOutput buffer = TrimSpace (rev (dropWhile (\<lambda>c. c = CHR 0x00) (rev buffer)))"

text \<open>
  One tick of \<open>traceOutput\<close>, which nothing calls: the rows of the output so far, and the new
  value of \<open>offset\<close>. A slice expression panics when its bounds are out of order.
\<close>

definition go_slice :: "'a list \<Rightarrow> int \<Rightarrow> int \<Rightarrow> 'a list go" where
  "go_slice xs i j =
     (if 0 \<le> i \<and> i \<le> j \<and> j \<le> int (length xs) then Ret (take (nat (j - i)) (drop (nat i) xs))
      else Panic SliceOutOfRange)"

definition trace_tick :: "int \<Rightarrow> string \<Rightarrow> int go" where
  "trace_tick offset out =
     (let result = rev (dropWhile (\<lambda>c. c = CHR 0x00) (rev out));
          size' = length result;
          rows = Split (CHR 0x0A) (TrimSpace result);
          nRows = int (length rows)
      in go_bind (go_slice rows offset nRows) (\<lambda>newRows0.
         go_bind (if size' > 0 \<and> last result \<noteq> CHR 0x0A then go_slice rows offset (nRows - 1) else Ret newRows0)
           (\<lambda>newRows. Ret (if int (length newRows) < offset then offset else offset + int (length newRows)))))"

section \<open>Properties\<close>

text \<open>
  When a command prints nothing in the first second and then an unfinished line, \<open>traceOutput\<close>
  counts the empty output as a row and slices out of range at the next tick.
\<close>

lemma traceOutput_panics: "trace_tick 0 [] = Ret 1 \<and> trace_tick 1 ''partial'' = Panic SliceOutOfRange"
  by code_simp

text \<open>
  A script call with a non-empty command never reports an error: a process that cannot be
  started, one that fails and one that is killed at the time-out all come back with a nil error, so
  the callers cannot tell them from a script that printed nothing.
\<close>

lemma ShellCmdTimeout_error_iff:
  "snd (snd (ShellCmdTimeout timeout cmd run)) \<noteq> None \<longleftrightarrow> cmd = []"
  by (simp add: ShellCmdTimeout_def Let_def)

text \<open>The call returns at the latest one second after the time-out.\<close>

lemma ShellCmdTimeout_output:
  assumes "cmd \<noteq> []" and "run_started run" and "0 \<le> timeout"
  shows "\<exists>stop. int stop \<le> timeout + 1
    \<and> ShellCmdTimeout timeout cmd run = (run_stdout run stop, run_stderr run stop, None)"
  using assms
  by (cases "run_ends run")
    (auto simp: ShellCmdTimeout_def Let_def intro: exI [of _ "nat timeout + 1"] exI [of _ "the (run_ends run)"])

end
