(* ===== verification/Detector.thy ===== *)
theory Detector
  imports Gossip_Cache Shell_Cmd
begin

text \<open>
  \<open>commonDetector.go\<close>: the failure detector. For each key it keeps a ring buffer \<open>Windowed\<close> of
  the last verification results; \<open>Ping\<close> adds one, \<open>Phi\<close> decides a status from the last
  \<open>minSamples\<close> of them. The ring buffer refines a plain list of everything ever pushed.
\<close>

section \<open>The ring buffer\<close>

record StatusAndTime =
  st_Status :: string
  st_Time :: time

record Windowed =
  wd_data :: "StatusAndTime list"
  wd_head :: int
  wd_length :: int

definition zero_sample :: StatusAndTime where
  "zero_sample = \<lparr>st_Status = [], st_Time = zero_time\<rparr>"

definition NewWindowed :: "int \<Rightarrow> Windowed go" where
  "NewWindowed capacity =
     go_bind (make_slice capacity zero_sample)
       (\<lambda>d. Ret \<lparr>wd_data = d, wd_head = 0, wd_length = 0\<rparr>)"

definition wd_Push :: "Windowed \<Rightarrow> StatusAndTime \<Rightarrow> (StatusAndTime \<times> Windowed) go" where
  "wd_Push w n =
     go_bind (go_index (wd_data w) (wd_head w)) (\<lambda>old.
     go_bind (go_store (wd_data w) (wd_head w) n) (\<lambda>d.
       (let head = wd_head w + 1;
            head = (if head \<ge> int (length d) then 0 else head)
        in Ret (old, \<lparr>wd_data = d, wd_head = head, wd_length = i64 (wd_length w + 1)\<rparr>))))"

definition wd_Len :: "Windowed \<Rightarrow> int" where
  "wd_Len w = (if wd_length w < int (length (wd_data w)) then wd_length w
               else int (length (wd_data w)))"

definition wd_sample_step ::
  "Windowed \<Rightarrow> int \<Rightarrow> int \<Rightarrow> nat \<Rightarrow> StatusAndTime list \<Rightarrow> StatusAndTime list go" where
  "wd_sample_step w samples len i ret =
     go_bind (go_rem (wd_head w - 1 - int i + len) len) (\<lambda>j.
     go_bind (go_index (wd_data w) j) (\<lambda>x.
       go_store ret (samples - 1 - int i) x))"

definition wd_LastNSamples :: "Windowed \<Rightarrow> int \<Rightarrow> StatusAndTime list go" where
  "wd_LastNSamples w samples =
     go_bind (make_slice samples zero_sample) (\<lambda>ret.
       fold (\<lambda>i r. go_bind r (wd_sample_step w samples (wd_Len w) i)) [0..<nat samples] (Ret ret))"

definition wd_Set :: "Windowed \<Rightarrow> StatusAndTime list \<Rightarrow> Windowed" where
  "wd_Set w d = \<lparr>wd_data = [] @ d, wd_head = 0, wd_length = int (length d)\<rparr>"

section \<open>The detector\<close>

record Detector =
  d_w :: "(string, Windowed) gomap"
  d_windowSize :: int
  d_minSamples :: int

record verifyInput =
  vi_key :: string
  vi_value :: string

record verifyOutput =
  vo_key :: string
  vo_value :: string
  vo_status :: gossipStatus

definition NewDetector :: "int \<Rightarrow> int \<Rightarrow> Detector" where
  "NewDetector windowSize minSamples =
     \<lparr>d_w = make_map, d_windowSize = windowSize, d_minSamples = minSamples\<rparr>"

definition d_Clone ::
  "(string \<times> Windowed) range_order \<Rightarrow> Detector \<Rightarrow> (string, StatusAndTime list) gomap" where
  "d_Clone ord d = fill_map (map (\<lambda>(k, v). (k, wd_data v)) (ord (entries (d_w d))))"

definition d_Get :: "Detector \<Rightarrow> string \<Rightarrow> StatusAndTime list \<times> gerror" where
  "d_Get d key =
     (case map_get (d_w d) key of
        Some v \<Rightarrow> (wd_data v, None)
      | None \<Rightarrow> ([], Some (key_not_found key)))"

definition d_DelKey :: "Detector \<Rightarrow> string \<Rightarrow> Detector" where
  "d_DelKey d key = d\<lparr>d_w := map_delete (d_w d) key\<rparr>"

text \<open>
  \<open>Ping\<close>: the argument \<open>shell\<close> is the run of the verification command; the sample is stamped
  with the clock reading \<open>now\<close>.
\<close>

definition ping_status :: "string \<Rightarrow> string" where
  "ping_status stdout = (let s = TrimSuffix stdout nl in if s = [] then ''EMPTY'' else s)"

definition d_Ping ::
  "Detector \<Rightarrow> string \<Rightarrow> verifyInput \<Rightarrow> (string \<Rightarrow> process_run) \<Rightarrow> time \<Rightarrow> Detector go" where
  "d_Ping d verificationScript input shell now =
     (let key = vi_key input;
          cmd = verificationFormat verificationScript key (vi_value input);
          (stdout, stderr, err) = ShellCmdTimeout verificationScriptTimeoiut ''sh'' (shell cmd);
          window = (case map_get (d_w d) key of
                      Some w \<Rightarrow> Ret w | None \<Rightarrow> NewWindowed (d_windowSize d))
      in go_bind window (\<lambda>w.
         go_bind (wd_Push w \<lparr>st_Status = ping_status stdout, st_Time = now\<rparr>) (\<lambda>(_, w').
         go_bind (map_set (d_w d) key w') (\<lambda>m. Ret (d\<lparr>d_w := m\<rparr>)))))"

text \<open>
  \<open>Phi\<close>: a missing key is a nil \<open>*Windowed\<close>, which \<open>Len\<close> dereferences. The loop over the
  counts visits them in the order \<open>ord\<close>.
\<close>

definition d_Phi :: "(gossipStatus \<times> int) range_order \<Rightarrow> Detector \<Rightarrow> string \<Rightarrow> gossipStatus go" where
  "d_Phi ord d key =
     (case map_get (d_w d) key of
        None \<Rightarrow> Panic NilDereference
      | Some w \<Rightarrow>
          if wd_Len w < d_minSamples d then Ret GOSSIP_LESS_THAN_MINSAMPLE
          else go_bind (wd_LastNSamples w (d_minSamples d)) (\<lambda>xs.
            (let countMap = count_all (map st_Status xs)
             in case find (\<lambda>(status, count). count = d_minSamples d) (ord countMap) of
                  Some (status, _) \<Rightarrow> Ret status
                | None \<Rightarrow>
                    if (case map_of countMap GOSSIP_EMPTY of None \<Rightarrow> 0 | Some n \<Rightarrow> n) = 0
                    then Ret GOSSIP_NO_EMPTY_IN_SAMPLES
                    else Ret GOSSIP_NOT_FILL_SAMPLES)))"

section \<open>The contract of a sample window\<close>

text \<open>
  What the detector relies on: a window of capacity \<open>cap\<close> that has been given the samples
  \<open>hist\<close> (oldest first) answers with the last \<open>n\<close> of them, as long as that many were given and
  \<open>n\<close> is at most the capacity.
\<close>

locale sample_window =
  fixes rep :: "nat \<Rightarrow> 'x list \<Rightarrow> 'w \<Rightarrow> bool"
    and fresh :: "nat \<Rightarrow> 'w \<Rightarrow> bool"
    and push :: "'w \<Rightarrow> 'x \<Rightarrow> 'w \<Rightarrow> bool"
    and len :: "'w \<Rightarrow> int"
    and lastn :: "'w \<Rightarrow> int \<Rightarrow> 'x list go"
    and limit :: nat
  assumes rep_fresh: "0 < cap \<Longrightarrow> fresh cap w \<Longrightarrow> rep cap [] w"
    and rep_push: "rep cap hist w \<Longrightarrow> Suc (length hist) < limit \<Longrightarrow>
      \<exists>w'. push w x w' \<and> rep cap (hist @ [x]) w'"
    and push_det: "push w x w' \<Longrightarrow> push w x w'' \<Longrightarrow> w' = w''"
    and rep_len: "rep cap hist w \<Longrightarrow> len w = int (min (length hist) cap)"
    and rep_last: "rep cap hist w \<Longrightarrow> n \<le> min (length hist) cap \<Longrightarrow>
      lastn w (int n) = Ret (drop (length hist - n) hist)"
begin

inductive pushes :: "'w \<Rightarrow> 'x list \<Rightarrow> 'w \<Rightarrow> bool" where
  pushes_Nil: "pushes w [] w"
| pushes_snoc: "pushes w xs w' \<Longrightarrow> push w' x w'' \<Longrightarrow> pushes w (xs @ [x]) w''"

lemma pushes_rep:
  "pushes w xs w' \<Longrightarrow> 0 < cap \<Longrightarrow> fresh cap w \<Longrightarrow> length xs < limit \<Longrightarrow> rep cap xs w'"
proof (induction rule: pushes.induct)
  case (pushes_Nil w)
  then show ?case by (simp add: rep_fresh)
next
  case (pushes_snoc w xs w' x w'')
  then have "rep cap xs w'" by simp
  then obtain v where "push w' x v" "rep cap (xs @ [x]) v"
    using rep_push pushes_snoc.prems by force
  then show ?case using push_det pushes_snoc.hyps by blast
qed

lemma last_pushed:
  assumes "pushes w xs w'" and "0 < cap" and "fresh cap w" and "length xs < limit"
    and "n \<le> min (length xs) cap"
  shows "lastn w' (int n) = Ret (drop (length xs - n) xs)"
  using rep_last pushes_rep assms by blast

end

section \<open>The ring buffer is such a window\<close>

text \<open>
  The slot of the sample pushed as number \<open>k\<close> (from 0) is \<open>k mod cap\<close>; the last \<open>cap\<close> samples are
  in their slots, and \<open>head\<close> is the slot of the next one.
\<close>

definition wd_rep :: "nat \<Rightarrow> StatusAndTime list \<Rightarrow> Windowed \<Rightarrow> bool" where
  "wd_rep cap hist w \<longleftrightarrow>
     0 < cap \<and> length (wd_data w) = cap \<and> wd_length w = int (length hist)
     \<and> wd_head w = int (length hist mod cap)
     \<and> (\<forall>k < length hist. length hist \<le> k + cap \<longrightarrow> wd_data w ! (k mod cap) = hist ! k)"

lemma wd_rep_New: "0 < cap \<Longrightarrow> NewWindowed (int cap) = Ret w \<Longrightarrow> wd_rep cap [] w"
  by (auto simp: NewWindowed_def make_slice_def wd_rep_def)

lemma mod_neq_within:
  assumes "k < n" and "n < k + cap"
  shows "k mod cap \<noteq> n mod (cap::nat)"
proof
  assume "k mod cap = n mod cap"
  then have "cap dvd n - k"
    using assms(1) by (metis less_imp_le_nat mod_eq_dvd_iff_nat)
  then show False
    using assms by (auto dest: dvd_imp_le)
qed

lemma mod_Suc_head:
  assumes "0 < cap"
  shows "(if int (n mod cap) + 1 \<ge> int cap then 0 else int (n mod cap) + 1)
     = int (Suc n mod (cap::nat))"
proof (cases "Suc (n mod cap) = cap")
  case True
  then have "int cap \<le> int (n mod cap) + 1" by linarith
  with True show ?thesis by (simp add: mod_Suc)
next
  case False
  moreover have "n mod cap < cap" using assms by simp
  ultimately have "\<not> int cap \<le> int (n mod cap) + 1" by linarith
  with False show ?thesis by (simp add: mod_Suc)
qed

lemma wd_Push_rep:
  assumes rep: "wd_rep cap hist w" and lim: "Suc (length hist) < 2 ^ 63"
  shows "\<exists>old w'. wd_Push w x = Ret (old, w') \<and> wd_rep cap (hist @ [x]) w'"
proof -
  let ?n = "length hist"
  let ?d = "(wd_data w)[?n mod cap := x]"
  let ?w = "\<lparr>wd_data = ?d, wd_head = int (Suc ?n mod cap), wd_length = int (Suc ?n)\<rparr>"
  have cap: "0 < cap" and len: "length (wd_data w) = cap" and head: "wd_head w = int (?n mod cap)"
    and cnt: "wd_length w = int ?n"
    and slots: "\<And>k. k < ?n \<Longrightarrow> ?n \<le> k + cap \<Longrightarrow> wd_data w ! (k mod cap) = hist ! k"
    using rep by (auto simp: wd_rep_def)
  have i: "?n mod cap < length (wd_data w)"
    using cap len by simp
  have l64: "i64 (wd_length w + 1) = int (Suc ?n)"
    using lim cnt by (simp add: in_i64_def min_i64_def max_i64_def)
  have "wd_Push w x = Ret (wd_data w ! (?n mod cap), ?w)"
    unfolding wd_Push_def head go_index_Ret [OF i] go_store_Ret [OF i] go_bind_Ret
    using mod_Suc_head [OF cap, of ?n] l64 len by simp
  moreover have "wd_rep cap (hist @ [x]) ?w"
  proof -
    have "?d ! (k mod cap) = (hist @ [x]) ! k" if "k < Suc ?n" "Suc ?n \<le> k + cap" for k
    proof (cases "k = ?n")
      case True
      then show ?thesis using i by simp
    next
      case False
      then have "k mod cap \<noteq> ?n mod cap" and "k < ?n"
        using that mod_neq_within [of k ?n cap] by auto
      then show ?thesis
        using slots [of k] that by (simp add: nth_append)
    qed
    then show ?thesis
      using cap len by (simp add: wd_rep_def)
  qed
  ultimately show ?thesis by blast
qed

lemma wd_Len_rep: "wd_rep cap hist w \<Longrightarrow> wd_Len w = int (min (length hist) cap)"
  by (auto simp: wd_Len_def wd_rep_def)

text \<open>The slot that the loop of \<open>LastNSamples\<close> reads in round \<open>i\<close>.\<close>

lemma wd_slot:
  assumes "wd_rep cap hist w" and "i < min (length hist) cap"
  shows "go_rem (wd_head w - 1 - int i + wd_Len w) (wd_Len w)
    = Ret (int ((length hist - 1 - i) mod cap))"
proof -
  let ?m = "length hist" and ?L = "min (length hist) cap"
  have cap: "0 < cap" and head: "wd_head w = int (?m mod cap)"
    using assms(1) by (auto simp: wd_rep_def)
  have "wd_head w - 1 - int i + wd_Len w = int (?m mod cap + (?L - 1 - i))"
    using assms head by (auto simp: wd_Len_rep)
  moreover have "(?m mod cap + (?L - 1 - i)) mod ?L = (?m - 1 - i) mod cap"
  proof (cases "?m < cap")
    case True
    then have "(?m mod cap + (?L - 1 - i)) mod ?L = ((?m - 1 - i) + ?m) mod ?m"
      using assms(2) by (intro arg_cong2 [of _ _ _ _ "(mod)"]) auto
    also have "\<dots> = ?m - 1 - i"
      using assms(2) True by (subst mod_add_self2) auto
    finally show ?thesis using True by simp
  next
    case False
    then have "(?m mod cap + (?L - 1 - i)) mod ?L = (?m + (cap - 1 - i)) mod cap"
      by (simp add: mod_add_left_eq)
    also have "?m + (cap - 1 - i) = (?m - 1 - i) + cap"
      using False assms(2) by auto
    finally show ?thesis by simp
  qed
  ultimately show ?thesis
    using assms by (auto simp: go_rem_def wd_Len_rep smod_nonneg simp flip: of_nat_mod of_nat_add)
qed

lemma wd_sample_step_rep:
  assumes rep: "wd_rep cap hist w" and "i < n" and "n \<le> min (length hist) cap"
    and "length ret = n"
  shows "wd_sample_step w (int n) (wd_Len w) i ret
    = Ret (ret[n - 1 - i := hist ! (length hist - 1 - i)])"
proof -
  let ?k = "length hist - 1 - i"
  have len: "length (wd_data w) = cap" and cap: "0 < cap"
    using rep by (auto simp: wd_rep_def)
  have "wd_data w ! (?k mod cap) = hist ! ?k"
    using rep assms(2,3) by (auto simp: wd_rep_def)
  moreover have "go_index (wd_data w) (int (?k mod cap)) = Ret (wd_data w ! (?k mod cap))"
    using len cap by (intro go_index_Ret) simp
  moreover have "go_store ret (int n - 1 - int i) x = Ret (ret[n - 1 - i := x])" for x
  proof -
    have "int n - 1 - int i = int (n - 1 - i)"
      using assms(2) by auto
    moreover have "n - 1 - i < length ret"
      using assms(2,4) by auto
    ultimately show ?thesis by (simp only: go_store_Ret)
  qed
  ultimately show ?thesis
    using wd_slot [OF rep, of i] assms(2,3) by (simp add: wd_sample_step_def)
qed

lemma wd_LastNSamples_rep:
  assumes rep: "wd_rep cap hist w" and n: "n \<le> min (length hist) cap"
  shows "wd_LastNSamples w (int n) = Ret (drop (length hist - n) hist)"
proof -
  let ?m = "length hist"
  let ?step = "\<lambda>i r. go_bind r (wd_sample_step w (int n) (wd_Len w) i)"
  have "fold ?step [0..<i] (Ret (replicate n zero_sample))
      = Ret (replicate (n - i) zero_sample @ drop (?m - i) hist)" if "i \<le> n" for i
    using that
  proof (induction i)
    case (Suc i)
    let ?r = "replicate (n - i) zero_sample @ drop (?m - i) hist"
    have "wd_sample_step w (int n) (wd_Len w) i ?r = Ret (?r[n - 1 - i := hist ! (?m - 1 - i)])"
      using Suc.prems n by (intro wd_sample_step_rep [OF rep]) auto
    moreover have "replicate (n - i) zero_sample = replicate (n - Suc i) zero_sample @ [zero_sample]"
      using Suc.prems by (simp add: Suc_diff_Suc [symmetric] replicate_append_same)
    moreover have "drop (?m - Suc i) hist = hist ! (?m - Suc i) # drop (?m - i) hist"
    proof -
      have lt: "?m - Suc i < ?m" using Suc.prems n by auto
      moreover have "Suc (?m - Suc i) = ?m - i" using Suc.prems n by auto
      ultimately show ?thesis using Cons_nth_drop_Suc [OF lt] by simp
    qed
    ultimately show ?case
      using Suc by (simp add: list_update_append)
  qed simp
  from this [of n] show ?thesis
    by (simp add: wd_LastNSamples_def make_slice_def)
qed

interpretation ring: sample_window wd_rep
  "\<lambda>cap w. NewWindowed (int cap) = Ret w"
  "\<lambda>w x w'. \<exists>old. wd_Push w x = Ret (old, w')" wd_Len wd_LastNSamples "2 ^ 63"
proof
  show "0 < cap \<Longrightarrow> NewWindowed (int cap) = Ret w \<Longrightarrow> wd_rep cap [] w" for cap w
    by (rule wd_rep_New)
  show "\<exists>w'. (\<exists>old. wd_Push w x = Ret (old, w')) \<and> wd_rep cap (hist @ [x]) w'"
    if "wd_rep cap hist w" "Suc (length hist) < 2 ^ 63" for cap hist w x
    using wd_Push_rep [OF that] by blast
  show "w' = w''" if "\<exists>old. wd_Push w x = Ret (old, w')" "\<exists>old. wd_Push w x = Ret (old, w'')"
    for w x w' w''
    using that by auto
  show "wd_Len w = int (min (length hist) cap)" if "wd_rep cap hist w" for cap hist w
    using that by (rule wd_Len_rep)
  show "wd_LastNSamples w (int n) = Ret (drop (length hist - n) hist)"
    if "wd_rep cap hist w" "n \<le> min (length hist) cap" for cap hist w n
    using that by (rule wd_LastNSamples_rep)
qed

section \<open>The verdict\<close>

text \<open>What \<open>Phi\<close> decides from the statuses pushed so far, oldest first.\<close>

definition phi_spec :: "nat \<Rightarrow> gossipStatus list \<Rightarrow> gossipStatus" where
  "phi_spec n ss =
     (if length ss < n then GOSSIP_LESS_THAN_MINSAMPLE
      else let xs = drop (length ss - n) ss
           in if xs \<noteq> [] \<and> list_all (\<lambda>x. x = hd xs) xs then hd xs
              else if GOSSIP_EMPTY \<in> set xs then GOSSIP_NOT_FILL_SAMPLES
              else GOSSIP_NO_EMPTY_IN_SAMPLES)"

lemma count_list_full: "count_list xs s = length xs \<longleftrightarrow> (\<forall>x\<in>set xs. x = s)"
proof (induction xs)
  case (Cons x xs)
  have "count_list xs s \<noteq> Suc (length xs)"
    using count_le_length [of xs s] by linarith
  with Cons show ?case by auto
qed simp

lemma find_full_count:
  assumes ord: "go_order ord"
  shows "find (\<lambda>(s, n). n = int (length xs)) (ord (count_all xs)) =
    (if xs \<noteq> [] \<and> list_all (\<lambda>x. x = hd xs) xs then Some (hd xs, int (length xs)) else None)"
proof -
  have mem: "(s, n) \<in> set (ord (count_all xs)) \<longleftrightarrow> s \<in> set xs \<and> n = int (count_list xs s)" for s n
    using ord by (simp add: go_order_set count_all_mem)
  have full: "(s, int (length xs)) \<in> set (ord (count_all xs)) \<longleftrightarrow>
      xs \<noteq> [] \<and> s = hd xs \<and> list_all (\<lambda>x. x = hd xs) xs" for s
    unfolding mem using count_list_full [of xs s] by (cases xs) (auto simp: list_all_iff)
  show ?thesis
  proof (cases "find (\<lambda>(s, n). n = int (length xs)) (ord (count_all xs))")
    case None
    then have "(hd xs, int (length xs)) \<notin> set (ord (count_all xs))"
      by (auto simp: find_None_iff)
    with None full show ?thesis by auto
  next
    case (Some p)
    then have "p \<in> set (ord (count_all xs))" and "snd p = int (length xs)"
      using find_SomeD [OF Some] by (auto simp: case_prod_beta)
    then have "(fst p, int (length xs)) \<in> set (ord (count_all xs))"
      by (metis prod.collapse)
    with Some \<open>snd p = int (length xs)\<close> full show ?thesis
      by (cases p) auto
  qed
qed

lemma empty_count_zero:
  "(case map_of (count_all xs) s of None \<Rightarrow> 0 | Some n \<Rightarrow> n) = 0 \<longleftrightarrow> s \<notin> set xs"
  by (auto simp: count_all_get count_list_0_iff)

text \<open>
  The verdict on a key depends only on the last \<open>minSamples\<close> verification results: fewer
  results give LESS_THAN_MINSAMPLE, equal results give their common status, mixed results give
  NOT_FILL_SAMPLES when EMPTY is among them and NO_EMPTY_IN_SAMPLES otherwise. The order in which
  the count map is traversed does not matter.
\<close>

lemma d_Phi_spec:
  assumes "go_order ord" and "map_get (d_w d) key = Some w" and "wd_rep cap hist w"
    and "d_minSamples d = int n" and "n \<le> cap"
  shows "d_Phi ord d key = Ret (phi_spec n (map st_Status hist))"
proof (cases "length hist < n")
  case True
  then show ?thesis
    using assms(2-5) wd_Len_rep [OF assms(3)] by (auto simp: d_Phi_def phi_spec_def)
next
  case False
  define xs where "xs = map st_Status (drop (length hist - n) hist)"
  have len: "length xs = n" using False by (simp add: xs_def)
  have last: "wd_LastNSamples w (int n) = Ret (drop (length hist - n) hist)"
    using False assms(3,5) by (intro wd_LastNSamples_rep) auto
  have "\<not> wd_Len w < int n"
    using False assms(3,5) by (simp add: wd_Len_rep)
  then have "d_Phi ord d key =
      (case find (\<lambda>(s, c). c = int (length xs)) (ord (count_all xs)) of
         Some (s, _) \<Rightarrow> Ret s
       | None \<Rightarrow> if (case map_of (count_all xs) GOSSIP_EMPTY of None \<Rightarrow> 0 | Some n \<Rightarrow> n) = 0
                 then Ret GOSSIP_NO_EMPTY_IN_SAMPLES else Ret GOSSIP_NOT_FILL_SAMPLES)"
    using last assms(2,4) len unfolding d_Phi_def xs_def by (simp add: Let_def)
  also have "\<dots> = Ret (if xs \<noteq> [] \<and> list_all (\<lambda>x. x = hd xs) xs then hd xs
      else if GOSSIP_EMPTY \<in> set xs then GOSSIP_NOT_FILL_SAMPLES else GOSSIP_NO_EMPTY_IN_SAMPLES)"
    unfolding find_full_count [OF assms(1)] empty_count_zero by simp
  also have "\<dots> = Ret (phi_spec n (map st_Status hist))"
    using False unfolding phi_spec_def xs_def by (simp add: Let_def drop_map)
  finally show ?thesis .
qed

text \<open>Samples for examples.\<close>

definition sample_at :: "string \<Rightarrow> time \<Rightarrow> StatusAndTime" where
  "sample_at s t = \<lparr>st_Status = s, st_Time = t\<rparr>"

section \<open>Sequences of operations\<close>

definition wd_push_all :: "Windowed \<Rightarrow> StatusAndTime list \<Rightarrow> Windowed go" where
  "wd_push_all w xs =
     fold (\<lambda>x r. go_bind r (\<lambda>w. go_bind (wd_Push w x) (\<lambda>(_, w'). Ret w'))) xs (Ret w)"

lemma wd_push_all_rep:
  assumes "0 < cap" and "NewWindowed (int cap) = Ret w" and "length xs < 2 ^ 63"
  shows "\<exists>w'. wd_push_all w xs = Ret w' \<and> wd_rep cap xs w'"
  using assms(3)
proof (induction xs rule: rev_induct)
  case Nil
  then show ?case using assms by (simp add: wd_push_all_def wd_rep_New)
next
  case (snoc x xs)
  then obtain w' where w': "wd_push_all w xs = Ret w'" "wd_rep cap xs w'"
    by auto
  obtain old v where "wd_Push w' x = Ret (old, v)" "wd_rep cap (xs @ [x]) v"
    using wd_Push_rep [OF w'(2), of x] snoc.prems by auto
  with w'(1) show ?case by (simp add: wd_push_all_def)
qed

text \<open>
  (C22) The ring buffer keeps exactly the most recent samples: after any number of pushes (fewer
  than two to the 63) into a new window of positive capacity, asking for \<open>n\<close> samples, at most the
  capacity and at most the number pushed, returns the last \<open>n\<close> pushed, oldest first, without an
  index panic.
\<close>

theorem ring_buffer_refines_list:
  assumes "0 < cap" and "NewWindowed (int cap) = Ret w" and "length xs < 2 ^ 63"
    and "n \<le> length xs" and "n \<le> cap"
  shows "\<exists>w'. wd_push_all w xs = Ret w' \<and> wd_Len w' = int (min (length xs) cap)
    \<and> wd_LastNSamples w' (int n) = Ret (drop (length xs - n) xs)"
proof -
  obtain w' where "wd_push_all w xs = Ret w'" and rep: "wd_rep cap xs w'"
    using wd_push_all_rep assms(1-3) by blast
  moreover have "wd_LastNSamples w' (int n) = Ret (drop (length xs - n) xs)"
    using ring.rep_last [OF rep, of n] assms(4,5) by simp
  ultimately show ?thesis using ring.rep_len [OF rep] by blast
qed

theorem ring_buffer_refines_list_witness:
  "\<exists>w'. wd_push_all \<lparr>wd_data = [zero_sample, zero_sample], wd_head = 0, wd_length = 0\<rparr>
           [sample_at ''UP'' 1, sample_at ''DOWN'' 2, sample_at ''EMPTY'' 3] = Ret w'
     \<and> wd_Len w' = 2 \<and> wd_LastNSamples w' 2 = Ret [sample_at ''DOWN'' 2, sample_at ''EMPTY'' 3]"
proof -
  let ?w = "\<lparr>wd_data = [zero_sample, zero_sample], wd_head = 0, wd_length = 0\<rparr>"
  have "NewWindowed (int 2) = Ret ?w"
    by (simp add: NewWindowed_def make_slice_def numeral_2_eq_2)
  moreover have "length [sample_at ''UP'' 1, sample_at ''DOWN'' 2, sample_at ''EMPTY'' 3] < 2 ^ 63"
    by simp
  ultimately show ?thesis
    using ring_buffer_refines_list [of 2 ?w
      "[sample_at ''UP'' 1, sample_at ''DOWN'' 2, sample_at ''EMPTY'' 3]" 2] by simp
qed

text \<open>\<open>Windowed.Set\<close> installs a window that holds exactly the given samples.\<close>

lemma wd_Set_rep: "d \<noteq> [] \<Longrightarrow> wd_rep (length d) d (wd_Set w d)"
  by (simp add: wd_rep_def wd_Set_def)

section \<open>Histories of a detector\<close>

text \<open>The detector holds a window for exactly the keys of \<open>H\<close>, each with that history.\<close>

definition d_rep :: "nat \<Rightarrow> (string \<Rightarrow> StatusAndTime list option) \<Rightarrow> Detector \<Rightarrow> bool" where
  "d_rep cap H d \<longleftrightarrow> 0 < cap \<and> d_windowSize d = int cap \<and> map_alive (d_w d)
     \<and> dom H = dom (map_get (d_w d))
     \<and> (\<forall>key w. map_get (d_w d) key = Some w \<longrightarrow> wd_rep cap (the (H key)) w)"

definition history :: "(string \<Rightarrow> StatusAndTime list option) \<Rightarrow> string \<Rightarrow> StatusAndTime list" where
  "history H key = (case H key of None \<Rightarrow> [] | Some h \<Rightarrow> h)"

lemma d_rep_New: "0 < cap \<Longrightarrow> d_rep cap (\<lambda>_. None) (NewDetector (int cap) n)"
  by (auto simp: d_rep_def NewDetector_def)

text \<open>The status a \<open>Ping\<close> records for a run of the verification script.\<close>

definition ping_sample ::
  "string \<Rightarrow> verifyInput \<Rightarrow> (string \<Rightarrow> process_run) \<Rightarrow> time \<Rightarrow> StatusAndTime" where
  "ping_sample script input shell now =
     \<lparr>st_Status = ping_status (fst (ShellCmdTimeout verificationScriptTimeoiut ''sh''
          (shell (verificationFormat script (vi_key input) (vi_value input))))),
      st_Time = now\<rparr>"

lemma d_Ping_rep:
  assumes rep: "d_rep cap H d" and len: "Suc (length (history H (vi_key input))) < 2 ^ 63"
  shows "\<exists>d'. d_Ping d script input shell now = Ret d' \<and> d_minSamples d' = d_minSamples d
    \<and> d_rep cap (H(vi_key input \<mapsto> history H (vi_key input) @ [ping_sample script input shell now])) d'"
proof -
  let ?k = "vi_key input" and ?x = "ping_sample script input shell now"
  have cap: "0 < cap" "d_windowSize d = int cap" and alive: "map_alive (d_w d)"
    and dom: "dom H = dom (map_get (d_w d))"
    and win: "\<And>key w. map_get (d_w d) key = Some w \<Longrightarrow> wd_rep cap (the (H key)) w"
    using rep by (auto simp: d_rep_def)
  define window where "window = (case map_get (d_w d) ?k of
      Some w \<Rightarrow> Ret w | None \<Rightarrow> NewWindowed (d_windowSize d))"
  obtain w where w: "window = Ret w" "wd_rep cap (history H ?k) w"
  proof (cases "map_get (d_w d) ?k")
    case None
    then have "H ?k = None" using dom by (metis domIff)
    moreover obtain w where "NewWindowed (int cap) = Ret w"
      by (simp add: NewWindowed_def make_slice_def)
    ultimately show thesis
      using None cap wd_rep_New [of cap w] that by (simp add: window_def history_def)
  next
    case (Some w)
    then obtain h where "H ?k = Some h" using dom by (metis domD domI)
    then show thesis
      using Some win [of ?k w] that by (simp add: window_def history_def)
  qed
  obtain old w' where w': "wd_Push w ?x = Ret (old, w')" "wd_rep cap (history H ?k @ [?x]) w'"
    using wd_Push_rep [OF w(2) len] by blast
  obtain m where m: "map_set (d_w d) ?k w' = Ret m" "map_alive m"
    "map_get m = (map_get (d_w d))(?k \<mapsto> w')"
    using map_set_alive [OF alive] by blast
  have "d_Ping d script input shell now = Ret (d\<lparr>d_w := m\<rparr>)"
    using w(1) w'(1) m(1)
    by (simp add: d_Ping_def Let_def window_def [symmetric] ping_sample_def case_prod_beta)
  moreover have "d_rep cap (H(?k \<mapsto> history H ?k @ [?x])) (d\<lparr>d_w := m\<rparr>)"
    using cap m(2,3) dom win w'(2) by (auto simp: d_rep_def)
  ultimately show ?thesis by (auto intro!: exI [of _ "d\<lparr>d_w := m\<rparr>"])
qed

lemma d_rep_window:
  assumes "d_rep cap H d" and "H key = Some h"
  shows "\<exists>w. map_get (d_w d) key = Some w \<and> wd_rep cap h w"
proof -
  from assms have "key \<in> dom (map_get (d_w d))"
    by (auto simp: d_rep_def)
  then obtain w where w: "map_get (d_w d) key = Some w"
    by blast
  with assms(1) have "wd_rep cap (the (H key)) w"
    by (simp add: d_rep_def)
  with w assms(2) show ?thesis by simp
qed

lemma d_DelKey_rep: "d_rep cap H d \<Longrightarrow> d_rep cap (H(key := None)) (d_DelKey d key)"
  by (auto simp: d_rep_def d_DelKey_def)

end
