(* ===== verification/Gpool.thy ===== *)
theory Gpool
  imports Go_Prelude
begin

text \<open>
  \<open>gpool.go\<close>: a pool that bounds the number of concurrent goroutines, made of a buffered channel
  and a \<open>WaitGroup\<close>. An operation that would block has the result \<open>None\<close>. The way the service
  uses the pool (\<open>Add(1)\<close> in the dispatching loop, \<open>Done\<close> at the end of each goroutine) is a
  step relation in which the channel operation and the \<open>WaitGroup\<close> operation of each call are
  separate steps.
\<close>

section \<open>Operations\<close>

record pool =
  p_cap :: nat
  p_queue :: nat
  p_wg :: int

definition New :: "int \<Rightarrow> pool" where
  "New sz = (let sz = (if sz \<le> 0 then 1 else sz)
               in \<lparr>p_cap = nat sz, p_queue = 0, p_wg = 0\<rparr>)"

definition chan_send :: "pool \<Rightarrow> pool option" where
  "chan_send p = (if p_queue p < p_cap p then Some (p\<lparr>p_queue := p_queue p + 1\<rparr>) else None)"

definition chan_recv :: "pool \<Rightarrow> pool option" where
  "chan_recv p = (if 0 < p_queue p then Some (p\<lparr>p_queue := p_queue p - 1\<rparr>) else None)"

definition wg_Add :: "pool \<Rightarrow> int \<Rightarrow> pool go" where
  "wg_Add p delta =
     (let n = p_wg p + delta in if n < 0 then Panic NegativeWaitGroup else Ret (p\<lparr>p_wg := n\<rparr>))"

fun repeat_opt :: "nat \<Rightarrow> ('s \<Rightarrow> 's option) \<Rightarrow> 's \<Rightarrow> 's option" where
  "repeat_opt 0 f s = Some s"
| "repeat_opt (Suc n) f s = Option.bind (f s) (repeat_opt n f)"

definition pool_Add :: "pool \<Rightarrow> int \<Rightarrow> pool option go" where
  "pool_Add p delta =
     (case Option.bind (repeat_opt (nat delta) chan_send p) (repeat_opt (nat (- delta)) chan_recv) of
        None \<Rightarrow> Ret None
      | Some p' \<Rightarrow> go_bind (wg_Add p' delta) (\<lambda>q. Ret (Some q)))"

definition pool_Done :: "pool \<Rightarrow> pool option go" where
  "pool_Done p =
     (case chan_recv p of
        None \<Rightarrow> Ret None
      | Some p' \<Rightarrow> go_bind (wg_Add p' (- 1)) (\<lambda>q. Ret (Some q)))"

text \<open>\<open>Wait\<close> returns when the counter is zero.\<close>

definition pool_Wait :: "pool \<Rightarrow> bool" where
  "pool_Wait p \<longleftrightarrow> p_wg p = 0"

section \<open>Dispatching goroutines\<close>

text \<open>
  The dispatcher is between the two halves of \<open>Add(1)\<close> or not; \<open>running\<close> goroutines have not
  reached \<open>Done\<close>; \<open>leaving\<close> ones have freed their slot and not yet left the \<open>WaitGroup\<close>.
\<close>

record workers =
  wk_pool :: pool
  wk_adding :: bool
  wk_running :: nat
  wk_leaving :: nat

definition workers_init :: "int \<Rightarrow> workers" where
  "workers_init n = \<lparr>wk_pool = New n, wk_adding = False, wk_running = 0, wk_leaving = 0\<rparr>"

inductive worker_step :: "workers \<Rightarrow> workers go \<Rightarrow> bool" where
  add_send: "\<not> wk_adding s \<Longrightarrow> chan_send (wk_pool s) = Some p \<Longrightarrow>
     worker_step s (Ret (s\<lparr>wk_pool := p, wk_adding := True\<rparr>))"
| add_wg: "wk_adding s \<Longrightarrow>
     worker_step s (go_bind (wg_Add (wk_pool s) 1)
       (\<lambda>p. Ret (s\<lparr>wk_pool := p, wk_adding := False, wk_running := wk_running s + 1\<rparr>)))"
| done_recv: "0 < wk_running s \<Longrightarrow> chan_recv (wk_pool s) = Some p \<Longrightarrow>
     worker_step s (Ret (s\<lparr>wk_pool := p, wk_running := wk_running s - 1,
                          wk_leaving := wk_leaving s + 1\<rparr>))"
| done_wg: "0 < wk_leaving s \<Longrightarrow>
     worker_step s (go_bind (wg_Add (wk_pool s) (- 1))
       (\<lambda>p. Ret (s\<lparr>wk_pool := p, wk_leaving := wk_leaving s - 1\<rparr>)))"

inductive worker_reach :: "int \<Rightarrow> workers go \<Rightarrow> bool" for n where
  start: "worker_reach n (Ret (workers_init n))"
| step: "worker_reach n (Ret s) \<Longrightarrow> worker_step s r \<Longrightarrow> worker_reach n r"

inductive_cases worker_stepE: "worker_step s r"

section \<open>Invariant\<close>

definition workers_inv :: "int \<Rightarrow> workers \<Rightarrow> bool" where
  "workers_inv n s \<longleftrightarrow>
     p_cap (wk_pool s) = p_cap (New n)
     \<and> p_queue (wk_pool s) = wk_running s + (if wk_adding s then 1 else 0)
     \<and> p_queue (wk_pool s) \<le> p_cap (wk_pool s)
     \<and> p_wg (wk_pool s) = int (wk_running s + wk_leaving s)"

lemma workers_inv_init: "workers_inv n (workers_init n)"
  by (simp add: workers_inv_def workers_init_def New_def Let_def)

lemma worker_step_inv:
  assumes "worker_step s r" and "workers_inv n s"
  shows "\<exists>t. r = Ret t \<and> workers_inv n t"
  using assms
  by (cases rule: worker_step.cases)
    (auto simp: workers_inv_def wg_Add_def chan_send_def chan_recv_def Let_def split: if_splits)

lemma worker_reach_inv: "worker_reach n r \<Longrightarrow> \<exists>s. r = Ret s \<and> workers_inv n s"
  by (induction rule: worker_reach.induct) (auto simp: workers_inv_init dest: worker_step_inv)

text \<open>
  However the dispatching loop and the goroutines interleave, a pool of positive size \<open>n\<close> never
  has more than \<open>n\<close> goroutines running, its \<open>WaitGroup\<close> never panics, a goroutine that ends is never
  blocked in \<open>Done\<close>, and \<open>Wait\<close> returns only when no goroutine is running.
\<close>

lemma pool_bounds_workers:
  assumes "worker_reach n r" and "0 < n"
  shows "\<exists>s. r = Ret s \<and> int (wk_running s) \<le> n
    \<and> (0 < wk_running s \<longrightarrow> chan_recv (wk_pool s) \<noteq> None)
    \<and> (pool_Wait (wk_pool s) \<longrightarrow> wk_running s = 0)"
proof -
  obtain s where "r = Ret s" and "workers_inv n s"
    using worker_reach_inv [OF assms(1)] by blast
  then show ?thesis
    using assms(2)
    by (auto simp: workers_inv_def New_def chan_recv_def pool_Wait_def Let_def split: if_splits)
qed

text \<open>A whole \<open>Add(1)\<close> or \<open>Done\<close> is the composition of its two steps.\<close>

lemma pool_Add_one:
  "pool_Add p 1 = (case chan_send p of None \<Rightarrow> Ret None
                   | Some p' \<Rightarrow> go_bind (wg_Add p' 1) (\<lambda>q. Ret (Some q)))"
  by (cases "chan_send p") (simp_all add: pool_Add_def)

end
