(* ===== verification/Options.thy ===== *)
theory Options
  imports Base
begin

text \<open>
  \<open>options.go\<close>: the command-line options. What \<open>flag.Parse\<close> has read is an argument, a partial
  function from flag names to values already converted to the flag's type; an absent flag takes
  its default.
\<close>

datatype flag_value = FString string | FInt int | FBool bool

record options =
  dataDir :: string
  httpAddress :: string
  raftTCPAddress :: string
  joinAddress :: string
  bootstrap :: bool
  gossipTCPAddress :: string
  gossipJoinAddress :: string
  gossipQuorum :: int
  verificationScript :: string
  notificationScript :: string
  eventInterval :: int

definition flag_String :: "(string \<Rightarrow> flag_value option) \<Rightarrow> string \<Rightarrow> string \<Rightarrow> string" where
  "flag_String args name def = (case args name of Some (FString s) \<Rightarrow> s | _ \<Rightarrow> def)"

definition flag_Int :: "(string \<Rightarrow> flag_value option) \<Rightarrow> string \<Rightarrow> int \<Rightarrow> int" where
  "flag_Int args name def = (case args name of Some (FInt n) \<Rightarrow> n | _ \<Rightarrow> def)"

definition flag_Bool :: "(string \<Rightarrow> flag_value option) \<Rightarrow> string \<Rightarrow> bool \<Rightarrow> bool" where
  "flag_Bool args name def = (case args name of Some (FBool b) \<Rightarrow> b | _ \<Rightarrow> def)"

definition NewOptions :: "(string \<Rightarrow> flag_value option) \<Rightarrow> options" where
  "NewOptions args =
     (let node = flag_String args ''node'' ''node1''
      in \<lparr>dataDir = ''./'' @ node,
          httpAddress = flag_String args ''http'' ''127.0.0.1:6000'',
          raftTCPAddress = flag_String args ''raft'' ''127.0.0.1:7000'',
          joinAddress = flag_String args ''join'' [],
          bootstrap = flag_Bool args ''bootstrap'' False,
          gossipTCPAddress = flag_String args ''gossip'' ''127.0.0.1:8000'',
          gossipJoinAddress = flag_String args ''gossipJoin'' [],
          gossipQuorum = flag_Int args ''gossipQuorum'' 3,
          verificationScript = flag_String args ''verificationScript'' ''./verification_script'',
          notificationScript = flag_String args ''notificationScript'' ''./notification_script'',
          eventInterval = flag_Int args ''eventInterval'' 60\<rparr>)"

lemma NewOptions_defaults:
  "gossipQuorum (NewOptions (\<lambda>_. None)) = 3" "eventInterval (NewOptions (\<lambda>_. None)) = 60"
  "joinAddress (NewOptions (\<lambda>_. None)) = []" "\<not> bootstrap (NewOptions (\<lambda>_. None))"
  by (simp_all add: NewOptions_def flag_Int_def flag_String_def flag_Bool_def Let_def)

end
