(* ===== verification/Verifier.thy ===== *)
theory Verifier
  imports Detector Gpool Options
begin

text \<open>
  \<open>commonVerifier.go\<close>: for every input a goroutine runs \<open>Ping\<close> and then \<open>Phi\<close> on the detector and
  sends the verdict on. The two calls take the detector's lock separately, so other goroutines can
  act on the detector in between; what they do is the argument \<open>between\<close>.
\<close>

section \<open>Operations\<close>

record commonVerifier =
  cv_verificationScript :: string
  cv_detector :: Detector

definition NewCommonVerifier :: "options \<Rightarrow> commonVerifier" where
  "NewCommonVerifier opts =
     \<lparr>cv_verificationScript = verificationScript opts, cv_detector = NewDetector 5 3\<rparr>"

definition verify_worker ::
  "(gossipStatus \<times> int) range_order \<Rightarrow> (Detector \<Rightarrow> Detector) \<Rightarrow> (string \<Rightarrow> process_run) \<Rightarrow> time
   \<Rightarrow> commonVerifier \<Rightarrow> verifyInput \<Rightarrow> (commonVerifier \<times> verifyOutput) go" where
  "verify_worker ord between shell now cv input =
     go_bind (d_Ping (cv_detector cv) (cv_verificationScript cv) input shell now) (\<lambda>d.
       (let d' = between d; key = vi_key input
        in go_bind (d_Phi ord d' key) (\<lambda>status.
             Ret (cv\<lparr>cv_detector := d'\<rparr>,
                  \<lparr>vo_key = key, vo_value = vi_value input, vo_status = status\<rparr>))))"

section \<open>Properties\<close>

lemma ping_then_phi:
  assumes "go_order ord" and "d_rep 5 H d" and "d_minSamples d = 3"
    and "Suc (length (history H (vi_key input))) < 2 ^ 63"
  obtains d' where "d_Ping d script input shell now = Ret d'"
    and "d_rep 5 (H(vi_key input \<mapsto> history H (vi_key input) @ [ping_sample script input shell now])) d'"
    and "d_Phi ord d' (vi_key input) =
      Ret (phi_spec 3 (map st_Status (history H (vi_key input) @ [ping_sample script input shell now])))"
proof -
  let ?k = "vi_key input"
  let ?h = "history H ?k @ [ping_sample script input shell now]"
  obtain d' where d': "d_Ping d script input shell now = Ret d'" "d_minSamples d' = 3" "d_rep 5 (H(?k \<mapsto> ?h)) d'"
    using d_Ping_rep [OF assms(2,4), of script shell now] assms(3) by auto
  obtain w where w: "map_get (d_w d') ?k = Some w" "wd_rep 5 ?h w"
    using d_rep_window [OF d'(3), of ?k ?h] by auto
  have "d_Phi ord d' ?k = Ret (phi_spec 3 (map st_Status ?h))"
    using d'(2) by (intro d_Phi_spec [OF assms(1) w]) simp_all
  with d' show thesis by (intro that)
qed

lemma verify_worker_returns:
  "\<exists>cv out. verify_worker rev (\<lambda>d. d) shell now (NewCommonVerifier opts) input = Ret (cv, out)"
proof -
  have "d_rep 5 (\<lambda>_. None) (NewDetector 5 3)" "d_minSamples (NewDetector 5 3) = 3"
    "Suc (length (history (\<lambda>_. None) (vi_key input))) < 2 ^ 63"
    using d_rep_New [of 5 3] by (simp_all add: NewDetector_def history_def)
  then show ?thesis
    by (rule ping_then_phi [OF go_order_rev, where script = "verificationScript opts" and shell = shell and now = now])
      (simp add: verify_worker_def NewCommonVerifier_def Let_def)
qed

text \<open>
  (C14) With nothing in between, a verification round on a key adds one sample to the history of
  that key and reports the verdict on its last three results; the histories of the other keys stay
  as they are.
\<close>

theorem verify_worker_verdict:
  assumes "go_order ord" and "d_rep 5 H (cv_detector cv)" and "d_minSamples (cv_detector cv) = 3"
    and "Suc (length (history H (vi_key input))) < 2 ^ 63"
  shows "\<exists>cv'. let h = history H (vi_key input) @ [ping_sample (cv_verificationScript cv) input shell now]
    in verify_worker ord (\<lambda>d. d) shell now cv input =
         Ret (cv', \<lparr>vo_key = vi_key input, vo_value = vi_value input,
                    vo_status = phi_spec 3 (map st_Status h)\<rparr>)
       \<and> d_rep 5 (H(vi_key input \<mapsto> h)) (cv_detector cv')"
proof -
  let ?h = "history H (vi_key input) @ [ping_sample (cv_verificationScript cv) input shell now]"
  obtain d where d: "d_Ping (cv_detector cv) (cv_verificationScript cv) input shell now = Ret d"
    "d_rep 5 (H(vi_key input \<mapsto> ?h)) d" "d_Phi ord d (vi_key input) = Ret (phi_spec 3 (map st_Status ?h))"
    by (rule ping_then_phi [OF assms])
  then show ?thesis
    by (intro exI [of _ "cv\<lparr>cv_detector := d\<rparr>"]) (simp add: verify_worker_def Let_def)
qed

text \<open>A script that answers UP on every run.\<close>

definition up_script :: "string \<Rightarrow> process_run" where
  "up_script cmd = \<lparr>run_started = True, run_ends = Some 1,
                   run_stdout = (\<lambda>_. ''UP'' @ nl), run_stderr = (\<lambda>_. [])\<rparr>"

theorem verify_worker_verdict_witness:
  "\<exists>cv'. verify_worker rev (\<lambda>d. d) up_script 7 (NewCommonVerifier (NewOptions (\<lambda>_. None)))
       \<lparr>vi_key = ''k'', vi_value = ''v''\<rparr>
     = Ret (cv', \<lparr>vo_key = ''k'', vo_value = ''v'', vo_status = GOSSIP_LESS_THAN_MINSAMPLE\<rparr>)"
proof -
  let ?cv = "NewCommonVerifier (NewOptions (\<lambda>_. None))"
  let ?in = "\<lparr>vi_key = ''k'', vi_value = ''v''\<rparr>"
  have rep: "d_rep 5 (\<lambda>_. None) (cv_detector ?cv)"
    using d_rep_New [of 5 3] by (simp add: NewCommonVerifier_def)
  have min: "d_minSamples (cv_detector ?cv) = 3"
    by (simp add: NewCommonVerifier_def NewDetector_def)
  have len: "Suc (length (history (\<lambda>_. None) (vi_key ?in))) < 2 ^ 63"
    by (simp add: history_def)
  from verify_worker_verdict [OF go_order_rev rep min len, of up_script 7]
  show ?thesis by (auto simp: Let_def history_def phi_spec_def)
qed

text \<open>
  The two locked calls are not one atomic step: when the scavenger drops the key from the
  detector after the goroutine's \<open>Ping\<close> and before its \<open>Phi\<close>, \<open>Phi\<close> dereferences a nil window and
  the service panics, whatever the script printed.
\<close>

lemma verify_worker_race:
  assumes "d_rep 5 H (cv_detector cv)" and "Suc (length (history H (vi_key input))) < 2 ^ 63"
  shows "verify_worker ord (\<lambda>d. d_DelKey d (vi_key input)) shell now cv input = Panic NilDereference"
proof -
  obtain d where "d_Ping (cv_detector cv) (cv_verificationScript cv) input shell now = Ret d"
    using d_Ping_rep [OF assms, of "cv_verificationScript cv" shell now] by blast
  then show ?thesis
    by (simp add: verify_worker_def Let_def d_Phi_def d_DelKey_def)
qed

end
