(* ===== verification/Bridge.thy ===== *)
theory Bridge
  imports Delegate Verifier
begin

text \<open>
  \<open>bridge.go\<close>: between the key-value store, the verifier and the gossip table. \<open>makeGossip1\<close>
  puts every key of the store on the verifier's input channel; \<open>makeGossip2\<close> takes the verdicts
  and enters them as reports of this node under a fresh timestamp; \<open>consumeGossip\<close> enters the
  reports received from other nodes. \<open>gcm.Set\<close> calls the gossip node while it holds the
  manager's lock, so entering a report and queueing its broadcast are one step here.
\<close>

section \<open>State and operations\<close>

record bridge =
  b_gcm :: gossipCacheManager
  b_gnode :: gossipNode
  b_lastTimeStamp :: int

text \<open>\<open>gcm.Set\<close> with the broadcasts it hands to the gossip node.\<close>

definition set_and_broadcast ::
  "gossipCacheManager \<Rightarrow> gossipNode \<Rightarrow> string \<Rightarrow> string \<Rightarrow> string \<Rightarrow> int \<Rightarrow> gossipStatus
   \<Rightarrow> (gossipCacheManager \<times> gossipNode) go" where
  "set_and_broadcast c n key value node t st =
     go_bind (gcm_Set c key value node t st) (\<lambda>(c', msgs).
     go_bind (gn_SetBroadcasts n msgs) (\<lambda>n'. Ret (c', n')))"

definition makeGossip1 ::
  "(string \<times> string) range_order \<Rightarrow> (string \<times> string) range_order \<Rightarrow> cacheManager \<Rightarrow> verifyInput list" where
  "makeGossip1 ord1 ord2 cm =
     map (\<lambda>(k, v). \<lparr>vi_key = k, vi_value = v\<rparr>) (ord2 (entries (cm_Clone ord1 cm)))"

text \<open>The two lines \<open>makeGossip2\<close> may log about a verdict that differs from what was agreed.\<close>

definition event_hint :: "gossipCacheManager \<Rightarrow> string \<Rightarrow> gossipStatus \<Rightarrow> bool" where
  "event_hint c key status =
     (let (prevConsensus, ok) = gcm_GetPreviousConsensus c key
      in ok \<and> ((prevConsensus = GOSSIP_DOWN \<and> status = GOSSIP_UP)
             \<or> (prevConsensus = GOSSIP_UP \<and> status = GOSSIP_DOWN)))"

definition empty_hint :: "gossipCacheManager \<Rightarrow> string \<Rightarrow> gossipStatus \<Rightarrow> bool" where
  "empty_hint c key status =
     (let (prevEmpty, ok) = gcm_GetEmpty c key
      in ok \<and> ((prevEmpty \<and> status \<noteq> GOSSIP_LESS_THAN_MINSAMPLE \<and> status \<noteq> GOSSIP_NOT_FILL_SAMPLES
                \<and> status \<noteq> GOSSIP_EMPTY)
             \<or> (\<not> prevEmpty \<and> status = GOSSIP_EMPTY)))"

text \<open>One round of the loop of \<open>makeGossip2\<close>, for the clock reading \<open>now\<close>.\<close>

definition next_stamp :: "bridge \<Rightarrow> time \<Rightarrow> int" where
  "next_stamp b now = i64 (Max (UnixNano now) (b_lastTimeStamp b) + 1)"

definition makeGossip2 :: "bridge \<Rightarrow> time \<Rightarrow> verifyOutput \<Rightarrow> (bridge \<times> bool \<times> bool) go" where
  "makeGossip2 b now output =
     (let node = gn_addr (b_gnode b);
          key = vo_key output;
          value = vo_value output;
          status = vo_status output;
          timeStamp = next_stamp b now
      in go_bind (set_and_broadcast (b_gcm b) (b_gnode b) key value node timeStamp status)
           (\<lambda>(c, n). Ret (b\<lparr>b_gcm := c, b_gnode := n, b_lastTimeStamp := timeStamp\<rparr>,
                          event_hint (b_gcm b) key status, empty_hint (b_gcm b) key status)))"

fun consume_loop ::
  "gossipCacheManager \<Rightarrow> gossipNode \<Rightarrow> MyBroadcastMessage list \<Rightarrow> (gossipCacheManager \<times> gossipNode) go" where
  "consume_loop c n [] = Ret (c, n)"
| "consume_loop c n (m # ms) =
     go_bind (set_and_broadcast c n (msg_Key m) (msg_Value m) (msg_Node m) (msg_TimeStamp m) (msg_Status m))
       (\<lambda>(c', n'). consume_loop c' n' ms)"

definition consumeGossip :: "bridge \<Rightarrow> bridge go" where
  "consumeGossip b =
     (let (n, ms) = gn_GetMessages (b_gnode b)
      in go_bind (consume_loop (b_gcm b) n ms) (\<lambda>(c, n'). Ret (b\<lparr>b_gcm := c, b_gnode := n'\<rparr>)))"

section \<open>Lemmas\<close>

definition node_queue :: "gossipNode \<Rightarrow> MyBroadcastMessage TransmitLimitedQueue" where
  "node_queue n = dl_broadcasts (gn_delegate n)"

definition node_ok :: "gossipNode \<Rightarrow> bool" where
  "node_ok n \<longleftrightarrow> plain_queue (node_queue n)"

lemma new_item_in_tree: "x \<in> set (tree_insert x xs)"
  by (induction xs) auto

lemma gn_SetBroadcasts_one:
  assumes "node_ok n"
  obtains n' where "gn_SetBroadcasts n [m] = Ret n'" and "node_ok n'" and "gn_addr n' = gn_addr n"
    and "m \<in> lb_b ` set (q_items (node_queue n'))"
proof -
  obtain q' where q': "QueueBroadcast msg_ops (node_queue n) m =
      Ret (q', map lb_b (filter (\<lambda>x. Invalidates m (lb_b x)) (q_items (node_queue n))))"
    "q_items q' = tree_insert (new_item msg_ops (node_queue n) m)
       (filter (\<lambda>x. \<not> Invalidates m (lb_b x)) (q_items (node_queue n)))" "plain_queue q'"
    using QueueBroadcast_plain [of "node_queue n" msg_ops m] assms by (auto simp: node_ok_def)
  let ?n = "n\<lparr>gn_delegate := (gn_delegate n)\<lparr>dl_broadcasts := q'\<rparr>\<rparr>"
  have "m = lb_b (new_item msg_ops (node_queue n) m)" by (simp add: new_item_def)
  then have "m \<in> lb_b ` set (q_items q')"
    unfolding q'(2) using new_item_in_tree by (rule image_eqI)
  with q' show thesis
    by (intro that [of ?n]) (simp_all add: gn_SetBroadcasts_def node_queue_def node_ok_def)
qed

text \<open>Entering a report in a live table with a well-formed queue.\<close>

lemma set_and_broadcast_live:
  assumes "gcm_live c" and "node_ok n"
  obtains c' n' where "set_and_broadcast c n key val node t st = Ret (c', n')"
    and "gcm_live c'" and "node_ok n'" and "gn_addr n' = gn_addr n"
    and "reports c' = (reports c)((key, node) \<mapsto> lww (reports c (key, node)) (t, st))"
    and "log_view c' = log_view c"
    and "\<not> is_news c key node t \<Longrightarrow> c' = c \<and> n' = n"
    and "is_news c key node t \<Longrightarrow> report_msg t node key val st \<in> lb_b ` set (q_items (node_queue n'))"
proof (cases "is_news c key node t")
  case True
  obtain c' where c': "gcm_Set c key val node t st = Ret (c', [report_msg t node key val st])" "gcm_live c'"
    "reports c' = (reports c)((key, node) \<mapsto> lww (reports c (key, node)) (t, st))" "log_view c' = log_view c"
    using gcm_Set_live [OF assms(1), where key = key and val = val and node = node and t = t and st = st] True
    by auto
  obtain n' where "gn_SetBroadcasts n [report_msg t node key val st] = Ret n'" "node_ok n'" "gn_addr n' = gn_addr n"
    "report_msg t node key val st \<in> lb_b ` set (q_items (node_queue n'))"
    using gn_SetBroadcasts_one [OF assms(2)] by blast
  with c' True show thesis
    by (intro that [of c' n']) (simp_all add: set_and_broadcast_def)
next
  case False
  then have "(reports c)((key, node) \<mapsto> lww (reports c (key, node)) (t, st)) = reports c"
    by (auto simp: is_news_def fun_eq_iff split: option.splits)
  with False assms show thesis
    by (intro that [of c n]) (simp_all add: set_and_broadcast_def gcm_Set_stale gn_SetBroadcasts_def)
qed

text \<open>The messages as operations on the report table.\<close>

definition msg_report :: "MyBroadcastMessage \<Rightarrow> (string \<times> string) \<times> int \<times> gossipStatus" where
  "msg_report m = ((msg_Key m, msg_Node m), msg_TimeStamp m, msg_Status m)"

definition absorb :: "(string \<times> string) \<times> int \<times> gossipStatus \<Rightarrow> gossipCacheManager \<Rightarrow> gossipCacheManager" where
  "absorb = (\<lambda>(kn, t, st) c. gcm_after_Set c (fst kn) [] (snd kn) t st)"

lemma consume_loop_live:
  assumes "gcm_live c" and "node_ok n"
  obtains c' n' where "consume_loop c n ms = Ret (c', n')" and "gcm_live c'" and "node_ok n'"
    and "gn_addr n' = gn_addr n" and "log_view c' = log_view c"
    and "\<And>c0. gcm_live c0 \<Longrightarrow> reports c0 = reports c \<Longrightarrow> reports c' = reports (fold absorb (map msg_report ms) c0)"
  using assms
proof (induction ms arbitrary: c n thesis)
  case Nil
  show ?case by (rule Nil.prems(1) [of c n]) (use Nil in simp_all)
next
  case (Cons m ms)
  obtain c1 n1 where s: "set_and_broadcast c n (msg_Key m) (msg_Value m) (msg_Node m) (msg_TimeStamp m) (msg_Status m)
      = Ret (c1, n1)" "gcm_live c1" "node_ok n1" "gn_addr n1 = gn_addr n"
    "reports c1 = (reports c)((msg_Key m, msg_Node m) \<mapsto>
       lww (reports c (msg_Key m, msg_Node m)) (msg_TimeStamp m, msg_Status m))" "log_view c1 = log_view c"
    using set_and_broadcast_live [OF Cons.prems(2,3)] by metis
  obtain c' n' where l: "consume_loop c1 n1 ms = Ret (c', n')" "gcm_live c'" "node_ok n'"
    "gn_addr n' = gn_addr n1" "log_view c' = log_view c1"
    "\<And>c0. gcm_live c0 \<Longrightarrow> reports c0 = reports c1 \<Longrightarrow> reports c' = reports (fold absorb (map msg_report ms) c0)"
    using Cons.IH [OF _ s(2,3)] by metis
  have "reports c' = reports (fold absorb (map msg_report (m # ms)) c0)"
    if "gcm_live c0" "reports c0 = reports c" for c0
  proof -
    have "gcm_live (absorb (msg_report m) c0)" "reports (absorb (msg_report m) c0) = reports c1"
      using gcmtab.lookup_merge [OF that(1), of "(msg_Key m, msg_Node m)"]
        gcmtab.inv_merge [OF that(1), of "(msg_Key m, msg_Node m)"] s(5) that(2)
      by (simp_all add: absorb_def msg_report_def)
    then show ?thesis using l(6) by simp
  qed
  with s l show ?case by (intro Cons.prems(1) [of c' n']) simp_all
qed

text \<open>After a batch no message of it is news any more.\<close>

lemma absorb_fold: "fold absorb ms c = fold (\<lambda>(kn, t, st) c. gcm_after_Set c (fst kn) [] (snd kn) t st) ms c"
  by (simp add: absorb_def)

lemma absorbed_not_news:
  assumes "gcm_live c" and "m \<in> set ms" and "reports c' = reports (fold absorb (map msg_report ms) c)"
  shows "\<not> is_news c' (msg_Key m) (msg_Node m) (msg_TimeStamp m)"
proof -
  let ?k = "(msg_Key m, msg_Node m)" and ?rs = "map msg_report ms"
  have mem: "(msg_TimeStamp m, msg_Status m) \<in> seen ?k ?rs"
    using assms(2) by (force simp: seen_iff msg_report_def)
  have "case reports c' ?k of None \<Rightarrow> reports c ?k = None \<and> seen ?k ?rs = {}
      | Some x \<Rightarrow> newest (set_option (reports c ?k) \<union> seen ?k ?rs) x"
    using gcmtab.deliver_newest [OF assms(1), of ?k ?rs] assms(3) by (simp add: absorb_fold)
  with mem obtain x where "reports c' ?k = Some x" "newest (set_option (reports c ?k) \<union> seen ?k ?rs) x"
    by (cases "reports c' ?k") auto
  then have "reports c' ?k = Some x" "msg_TimeStamp m \<le> fst x"
    using mem unfolding newest_def by force+
  then show ?thesis
    by (cases x) (simp add: is_news_def)
qed

lemma consume_loop_stale:
  "\<forall>m \<in> set ms. \<not> is_news c (msg_Key m) (msg_Node m) (msg_TimeStamp m) \<Longrightarrow> consume_loop c n ms = Ret (c, n)"
  by (induction ms) (simp_all add: set_and_broadcast_def gcm_Set_stale gn_SetBroadcasts_def)

section \<open>Claims\<close>

text \<open>The state of a running bridge, and the messages waiting in its inbox.\<close>

definition bridge_ok :: "bridge \<Rightarrow> bool" where
  "bridge_ok b \<longleftrightarrow> gcm_live (b_gcm b) \<and> node_ok (b_gnode b)"

definition inbox :: "bridge \<Rightarrow> MyBroadcastMessage list" where
  "inbox b = dl_msgs (gn_delegate (b_gnode b))"

definition with_inbox :: "bridge \<Rightarrow> MyBroadcastMessage list \<Rightarrow> bridge" where
  "with_inbox b ms = b\<lparr>b_gnode := (b_gnode b)\<lparr>gn_delegate := (gn_delegate (b_gnode b))\<lparr>dl_msgs := ms\<rparr>\<rparr>\<rparr>"

lemma consumeGossip_live:
  assumes "bridge_ok b"
  obtains b' where "consumeGossip b = Ret b'" and "bridge_ok b'" and "log_view (b_gcm b') = log_view (b_gcm b)"
    and "\<And>c0. gcm_live c0 \<Longrightarrow> reports c0 = reports (b_gcm b) \<Longrightarrow>
           reports (b_gcm b') = reports (fold absorb (map msg_report (inbox b)) c0)"
proof -
  let ?n = "fst (gn_GetMessages (b_gnode b))"
  have n: "node_ok ?n" and ms: "snd (gn_GetMessages (b_gnode b)) = inbox b"
    using assms by (simp_all add: bridge_ok_def node_ok_def node_queue_def gn_GetMessages_def dl_getMessages_def inbox_def)
  obtain c' n' where "consume_loop (b_gcm b) ?n (inbox b) = Ret (c', n')" "gcm_live c'" "node_ok n'"
    "log_view c' = log_view (b_gcm b)"
    "\<And>c0. gcm_live c0 \<Longrightarrow> reports c0 = reports (b_gcm b) \<Longrightarrow>
       reports c' = reports (fold absorb (map msg_report (inbox b)) c0)"
    using consume_loop_live [of "b_gcm b" ?n "inbox b"] assms n by (metis bridge_ok_def)
  with ms show thesis
    by (intro that [of "b\<lparr>b_gcm := c', b_gnode := n'\<rparr>"]) (simp_all add: consumeGossip_def bridge_ok_def split_beta Let_def)
qed

text \<open>
  (C5) Convergence of gossip. Two nodes that start from the same report table and consume inboxes
  with the same set of messages, in any order and with any repetitions, end with the same table,
  provided that no node signs two different statuses of a key with one timestamp.
\<close>

theorem gossip_convergence:
  assumes "bridge_ok b1" and "bridge_ok b2" and "reports (b_gcm b1) = reports (b_gcm b2)"
    and "set (inbox b1) = set (inbox b2)"
    and "stamped_once ({(kn, t, st). reports (b_gcm b1) kn = Some (t, st)} \<union> msg_report ` set (inbox b1))"
  shows "\<exists>b1' b2'. consumeGossip b1 = Ret b1' \<and> consumeGossip b2 = Ret b2'
    \<and> reports (b_gcm b1') = reports (b_gcm b2')"
proof -
  have live: "gcm_live (b_gcm b1)" "gcm_live (b_gcm b2)"
    using assms(1,2) by (simp_all add: bridge_ok_def)
  obtain b1' where b1': "consumeGossip b1 = Ret b1'"
    "reports (b_gcm b1') = reports (fold absorb (map msg_report (inbox b1)) (b_gcm b1))"
    using consumeGossip_live [OF assms(1)] live(1) by metis
  obtain b2' where b2': "consumeGossip b2 = Ret b2'"
    "reports (b_gcm b2') = reports (fold absorb (map msg_report (inbox b2)) (b_gcm b2))"
    using consumeGossip_live [OF assms(2)] live(2) by metis
  have "reports (fold absorb (map msg_report (inbox b1)) (b_gcm b1))
      = reports (fold absorb (map msg_report (inbox b2)) (b_gcm b2))"
    unfolding absorb_fold using assms(3-5) live by (intro gcmtab.convergence) simp_all
  with b1' b2' show ?thesis by simp
qed

text \<open>Two messages of one node on one key, in both orders.\<close>

definition sample_bridge :: "MyBroadcastMessage list \<Rightarrow> bridge" where
  "sample_bridge ms = \<lparr>b_gcm = NewGossipCacheManager,
     b_gnode = \<lparr>gn_addr = ''10.0.0.2:7946'', gn_delegate = (new_delegate [])\<lparr>dl_msgs := ms\<rparr>,
                gn_events = \<lparr>ed_Num = 2\<rparr>\<rparr>, b_lastTimeStamp = 0\<rparr>"

lemma sample_bridge_ok: "bridge_ok (sample_bridge ms)"
  by (simp add: bridge_ok_def sample_bridge_def node_ok_def node_queue_def new_delegate_def new_queue_def
      plain_queue_def q_items_def tree_sorted_def)

theorem gossip_convergence_witness:
  "\<exists>b1' b2'. consumeGossip (sample_bridge [sample_message 1 ''k'', sample_message 2 ''k'']) = Ret b1'
    \<and> consumeGossip (sample_bridge [sample_message 2 ''k'', sample_message 1 ''k'', sample_message 2 ''k'']) = Ret b2'
    \<and> reports (b_gcm b1') = reports (b_gcm b2')"
proof (rule gossip_convergence [OF sample_bridge_ok sample_bridge_ok])
  show "stamped_once ({(kn, t, st). reports (b_gcm (sample_bridge [sample_message 1 ''k'', sample_message 2 ''k''])) kn
        = Some (t, st)} \<union> msg_report ` set (inbox (sample_bridge [sample_message 1 ''k'', sample_message 2 ''k''])))"
    by (auto simp: stamped_once_def sample_bridge_def inbox_def msg_report_def sample_message_def reports_def
        NewGossipCacheManager_def)
qed (auto simp: sample_bridge_def inbox_def)

text \<open>
  Gossip dies out: once a node has consumed its inbox, getting any of those messages again,
  any number of times, changes nothing, and in particular queues no further broadcast.
\<close>

lemma redelivery_is_silent:
  assumes "bridge_ok b" and "consumeGossip b = Ret b'" and "set ms \<subseteq> set (inbox b)"
  shows "consumeGossip (with_inbox b' ms) = Ret (with_inbox b' [])"
proof -
  have live: "gcm_live (b_gcm b)" using assms(1) by (simp add: bridge_ok_def)
  have "reports (b_gcm b') = reports (fold absorb (map msg_report (inbox b)) (b_gcm b))"
    using consumeGossip_live [OF assms(1)] assms(2) live by (metis Inr_inject)
  then have "\<forall>m \<in> set ms. \<not> is_news (b_gcm b') (msg_Key m) (msg_Node m) (msg_TimeStamp m)"
    using absorbed_not_news [OF live] assms(3) by blast
  then show ?thesis
    by (simp add: consumeGossip_def with_inbox_def gn_GetMessages_def dl_getMessages_def consume_loop_stale)
qed

text \<open>No report of this node carries a later timestamp than the last one it used.\<close>

definition own_reports_past :: "bridge \<Rightarrow> bool" where
  "own_reports_past b \<longleftrightarrow>
     (\<forall>key t st. reports (b_gcm b) (key, gn_addr (b_gnode b)) = Some (t, st) \<longrightarrow> t \<le> b_lastTimeStamp b)"

text \<open>
  (C13) Every verdict of this node reaches its table: as long as the timestamps have not reached
  the end of \<open>int64\<close> and the table has no report of this node from the future, one round of
  \<open>makeGossip2\<close> does not panic, picks a timestamp that is later than the clock and than every
  timestamp used before, stores the verdict under it, queues it for broadcasting, and keeps the
  condition for the next round.
\<close>

theorem verdict_is_reported:
  assumes "bridge_ok b" and "own_reports_past b" and "in_i64 (b_lastTimeStamp b)"
    and "max (UnixNano now) (b_lastTimeStamp b) < max_i64"
  shows "\<exists>b' h1 h2. makeGossip2 b now out = Ret (b', h1, h2)
    \<and> b_lastTimeStamp b' > b_lastTimeStamp b \<and> b_lastTimeStamp b' > UnixNano now
    \<and> reports (b_gcm b') = (reports (b_gcm b))
        ((vo_key out, gn_addr (b_gnode b)) \<mapsto> (b_lastTimeStamp b', vo_status out))
    \<and> report_msg (b_lastTimeStamp b') (gn_addr (b_gnode b)) (vo_key out) (vo_value out) (vo_status out)
        \<in> lb_b ` set (q_items (node_queue (b_gnode b')))
    \<and> bridge_ok b' \<and> own_reports_past b'"
proof -
  let ?t = "max (UnixNano now) (b_lastTimeStamp b) + 1" and ?self = "gn_addr (b_gnode b)"
  have "in_i64 ?t"
    unfolding in_i64_def using assms(3,4) by (auto simp: in_i64_def max_def)
  then have t: "next_stamp b now = ?t"
    by (simp add: next_stamp_def)
  have news: "is_news (b_gcm b) (vo_key out) ?self ?t"
    using assms(2) by (force simp: is_news_def own_reports_past_def split: option.splits)
  obtain c' n' where c': "set_and_broadcast (b_gcm b) (b_gnode b) (vo_key out) (vo_value out) ?self ?t (vo_status out)
      = Ret (c', n')" "gcm_live c'" "node_ok n'" "gn_addr n' = ?self"
    "reports c' = (reports (b_gcm b))((vo_key out, ?self) \<mapsto>
        lww (reports (b_gcm b) (vo_key out, ?self)) (?t, vo_status out))"
    "report_msg ?t ?self (vo_key out) (vo_value out) (vo_status out) \<in> lb_b ` set (q_items (node_queue n'))"
    using set_and_broadcast_live [of "b_gcm b" "b_gnode b"] assms(1) news unfolding bridge_ok_def by metis
  have r: "reports c' = (reports (b_gcm b))((vo_key out, ?self) \<mapsto> (?t, vo_status out))"
    using c'(5) news by (simp add: lww_news)
  let ?b = "b\<lparr>b_gcm := c', b_gnode := n', b_lastTimeStamp := ?t\<rparr>"
  have "own_reports_past ?b"
    using assms(2) r c'(4) by (fastforce simp: own_reports_past_def split: if_splits)
  moreover have "makeGossip2 b now out = Ret (?b, event_hint (b_gcm b) (vo_key out) (vo_status out),
      empty_hint (b_gcm b) (vo_key out) (vo_status out))"
    using c'(1) t by (simp add: makeGossip2_def Let_def)
  ultimately show ?thesis
    using c' r by (intro exI [of _ ?b]) (simp add: bridge_ok_def)
qed

theorem verdict_is_reported_witness:
  "\<exists>b' h1 h2. makeGossip2 (sample_bridge []) 1000 \<lparr>vo_key = ''k'', vo_value = ''v'', vo_status = GOSSIP_DOWN\<rparr>
      = Ret (b', h1, h2) \<and> b_lastTimeStamp b' > 1000
    \<and> reports (b_gcm b') (''k'', ''10.0.0.2:7946'') = Some (b_lastTimeStamp b', GOSSIP_DOWN)"
proof -
  have h: "own_reports_past (sample_bridge [])" "in_i64 (b_lastTimeStamp (sample_bridge []))"
    "max (UnixNano 1000) (b_lastTimeStamp (sample_bridge [])) < max_i64" "UnixNano 1000 = 1000"
    "gn_addr (b_gnode (sample_bridge [])) = ''10.0.0.2:7946''"
    by (simp_all add: own_reports_past_def sample_bridge_def reports_def NewGossipCacheManager_def UnixNano_def
        in_i64_def min_i64_def max_i64_def)
  show ?thesis
    using verdict_is_reported [OF sample_bridge_ok h(1-3), of "\<lparr>vo_key = ''k'', vo_value = ''v'', vo_status = GOSSIP_DOWN\<rparr>"]
    by (auto simp: h(4,5))
qed

section \<open>Gossip ends\<close>

text \<open>The broadcasts that \<open>gcm.Set\<close> hands to the gossip node while messages are entered.\<close>

fun handed_on :: "gossipCacheManager \<Rightarrow> MyBroadcastMessage list \<Rightarrow> MyBroadcastMessage list" where
  "handed_on c [] = []"
| "handed_on c (m # ms) =
     (case gcm_Set c (msg_Key m) (msg_Value m) (msg_Node m) (msg_TimeStamp m) (msg_Status m) of
        Inl _ \<Rightarrow> [] | Inr (c', out) \<Rightarrow> out @ handed_on c' ms)"

definition msg_stamp :: "MyBroadcastMessage \<Rightarrow> (string \<times> string) \<times> int" where
  "msg_stamp m = ((msg_Key m, msg_Node m), msg_TimeStamp m)"

text \<open>The stamps of a set that would still be news.\<close>

definition still_news :: "gossipCacheManager \<Rightarrow> ((string \<times> string) \<times> int) set \<Rightarrow> ((string \<times> string) \<times> int) set" where
  "still_news c S = {((k, n), t) \<in> S. is_news c k n t}"

lemma still_news_Set:
  assumes "gcm_live c" and "gcm_Set c k v n t st = Ret (c', out)"
  shows "gcm_live c' \<and> still_news c' S \<subseteq> still_news c S
    \<and> (is_news c k n t \<longrightarrow> still_news c' S \<subseteq> still_news c S - {((k, n), t)})
    \<and> length out = (if is_news c k n t then 1 else 0)"
proof -
  obtain c1 where "gcm_Set c k v n t st = Ret (c1, if is_news c k n t then [report_msg t n k v st] else [])"
    "gcm_live c1" "reports c1 = (reports c)((k, n) \<mapsto> lww (reports c (k, n)) (t, st))"
    using gcm_Set_live [OF assms(1), where key = k and val = v and node = n and t = t and st = st] by blast
  with assms(2) have c': "gcm_live c'" "reports c' = (reports c)((k, n) \<mapsto> lww (reports c (k, n)) (t, st))"
    "out = (if is_news c k n t then [report_msg t n k v st] else [])" by simp_all
  have "is_news c' k' n' t' \<Longrightarrow> is_news c k' n' t'" for k' n' t'
    using c'(2) by (auto simp: is_news_def split: option.splits if_splits prod.splits)
  moreover have "\<not> is_news c' k n t"
    using c'(2) by (auto simp: is_news_def lww_news split: option.splits if_splits)
  ultimately show ?thesis using c' by (auto simp: still_news_def)
qed

lemma handed_on_bound:
  "gcm_live c \<Longrightarrow> finite S \<Longrightarrow> msg_stamp ` set ms \<subseteq> S \<Longrightarrow> length (handed_on c ms) \<le> card (still_news c S)"
proof (induction ms arbitrary: c)
  case (Cons m ms)
  let ?k = "msg_Key m" and ?n = "msg_Node m" and ?t = "msg_TimeStamp m"
  have fin: "finite (still_news c S)"
    by (rule finite_subset [OF _ Cons.prems(2)]) (auto simp: still_news_def)
  obtain c' out where s: "gcm_Set c ?k (msg_Value m) ?n ?t (msg_Status m) = Ret (c', out)"
    using gcm_Set_live [OF Cons.prems(1)] by metis
  note n = still_news_Set [OF Cons.prems(1) s, of S]
  have ih: "length (handed_on c' ms) \<le> card (still_news c' S)"
    using Cons.IH n Cons.prems by auto
  show ?case
  proof (cases "is_news c ?k ?n ?t")
    case True
    then have "((?k, ?n), ?t) \<in> still_news c S"
      using Cons.prems(3) by (auto simp: still_news_def msg_stamp_def)
    moreover have "card (still_news c' S) \<le> card (still_news c S - {((?k, ?n), ?t)})"
      using True n fin by (intro card_mono) auto
    ultimately have "Suc (card (still_news c' S)) \<le> card (still_news c S)"
      using card_Suc_Diff1 [OF fin] by (metis Suc_le_mono)
    with True s n ih show ?thesis by simp
  next
    case False
    then have "card (still_news c' S) \<le> card (still_news c S)"
      using n fin by (intro card_mono) auto
    with False s n ih show ?thesis by simp
  qed
qed simp



end
