(* ===== verification/Scavenger.thy ===== *)
theory Scavenger
  imports Bridge
begin

text \<open>
  \<open>scavenger.go\<close>: removes what belongs to keys that are no longer in the store and to nodes that
  have left the gossip cluster. Each deletion takes the lock of the table by itself; \<open>scavenge\<close>
  is a round without interference, and the plans below are its single deletions, between which other
  goroutines may act. The iteration orders of the four \<open>range\<close> loops are arguments.
\<close>

section \<open>Operations\<close>

fun Exists :: "string list \<Rightarrow> string \<Rightarrow> bool" where
  "Exists [] ele = False"
| "Exists (v # slice) ele = (if v = ele then True else Exists slice ele)"

fun scavenge_nodes ::
  "string list \<Rightarrow> string \<Rightarrow> string list \<Rightarrow> gossipCacheManager \<Rightarrow> gossipCacheManager go" where
  "scavenge_nodes members key [] c = Ret c"
| "scavenge_nodes members key (node # nodes) c =
     (if \<not> Exists members node
      then go_bind (gcm_DelNodeAddr c key node) (scavenge_nodes members key nodes)
      else scavenge_nodes members key nodes c)"

fun scavenge_keys ::
  "(string \<times> gossipStatusAndTimeStamp) range_order \<Rightarrow> (string, string) gomap \<Rightarrow> string list
   \<Rightarrow> (string \<times> gossipConsensus) list \<Rightarrow> gossipCacheManager \<Rightarrow> gossipCacheManager go" where
  "scavenge_keys ordn data members [] c = Ret c"
| "scavenge_keys ordn data members ((key, v) # kvs) c =
     (if map_get data key = None then scavenge_keys ordn data members kvs (gcm_DelKey c key)
      else go_bind (scavenge_nodes members key (map fst (ordn (entries (gc_consensus v)))) c)
             (scavenge_keys ordn data members kvs))"

fun scavenge_detector :: "(string, string) gomap \<Rightarrow> string list \<Rightarrow> Detector \<Rightarrow> Detector" where
  "scavenge_detector data [] d = d"
| "scavenge_detector data (key # keys) d =
     scavenge_detector data keys (if map_get data key = None then d_DelKey d key else d)"

text \<open>The orders of the loops: store copy, table copy (outer and inner), and the loops themselves.\<close>

record scavenge_orders =
  so_cm :: "(string \<times> string) range_order"
  so_keys :: "(string \<times> gossipConsensus) range_order"
  so_nodes :: "(string \<times> gossipStatusAndTimeStamp) range_order"
  so_windows :: "(string \<times> Windowed) range_order"
  so_samples :: "(string \<times> StatusAndTime list) range_order"

definition orders_ok :: "scavenge_orders \<Rightarrow> bool" where
  "orders_ok o' \<longleftrightarrow> go_order (so_cm o') \<and> go_order (so_keys o') \<and> go_order (so_nodes o')
     \<and> go_order (so_windows o') \<and> go_order (so_samples o')"

definition scavenge ::
  "scavenge_orders \<Rightarrow> cacheManager \<Rightarrow> string list \<Rightarrow> gossipCacheManager \<Rightarrow> Detector
   \<Rightarrow> (gossipCacheManager \<times> Detector) go" where
  "scavenge o' cm members gcm d =
     (let data = cm_Clone (so_cm o') cm
      in go_bind (scavenge_keys (so_nodes o') data members
                    (so_keys o' (entries (gcm_Clone (so_keys o') (so_nodes o') gcm))) gcm)
           (\<lambda>gcm'. Ret (gcm', scavenge_detector data
                          (map fst (so_samples o' (entries (d_Clone (so_windows o') d)))) d)))"

section \<open>Lemmas\<close>

lemma Exists_iff [simp]: "Exists slice ele \<longleftrightarrow> ele \<in> set slice"
  by (induction slice) auto

text \<open>
  What deletions leave of a table: the reports in \<open>gone\<close> and the whole entries of the keys in
  \<open>gonek\<close> are no longer there, everything else is as before.
\<close>

definition pruned ::
  "gossipCacheManager \<Rightarrow> (string \<times> string) set \<Rightarrow> string set \<Rightarrow> gossipCacheManager \<Rightarrow> bool" where
  "pruned c gone gonek c' \<longleftrightarrow> gcm_ok c'
     \<and> reports c' = (\<lambda>kn. if kn \<in> gone then None else reports c kn)
     \<and> log_view c' = (\<lambda>k. if k \<in> gonek then log_view NewGossipCacheManager k else log_view c k)
     \<and> dom (map_get (gcm_data c')) = dom (map_get (gcm_data c)) - gonek
     \<and> (gcm_live c \<longrightarrow> gcm_live c')"

lemma pruned_refl: "gcm_ok c \<Longrightarrow> pruned c {} {} c"
  by (simp add: pruned_def)

lemma pruned_trans: "pruned c g k c1 \<Longrightarrow> pruned c1 g' k' c2 \<Longrightarrow> pruned c (g \<union> g') (k \<union> k') c2"
  by (auto simp: pruned_def fun_eq_iff)

lemma pruned_ok: "pruned c g k c' \<Longrightarrow> gcm_ok c'"
  by (simp add: pruned_def)

lemma pruned_DelNodeAddr:
  assumes "gcm_ok c"
  shows "\<exists>c'. gcm_DelNodeAddr c key node = Ret c' \<and> pruned c {(key, node)} {} c'"
proof -
  obtain c' where "gcm_DelNodeAddr c key node = Ret c'" "gcm_ok c'"
    "reports c' = (reports c)((key, node) := None)" "log_view c' = log_view c"
    "dom (map_get (gcm_data c')) = dom (map_get (gcm_data c))" "gcm_live c \<Longrightarrow> gcm_live c'"
    by (rule gcm_DelNodeAddr_spec [OF assms, where key = key and node = node]) blast
  then show ?thesis by (auto simp: pruned_def fun_eq_iff)
qed

lemma pruned_DelKey:
  assumes "gcm_ok c"
  shows "pruned c {kn. fst kn = key} {key} (gcm_DelKey c key)"
proof -
  have "dom (map_get (gcm_data (gcm_DelKey c key))) = dom (map_get (gcm_data c)) - {key}"
    unfolding gcm_DelKey_spec(3) [OF assms] by auto
  then show ?thesis
    using gcm_DelKey_spec(1,2,4,5) [OF assms, of key] by (simp add: pruned_def fun_eq_iff)
qed

lemma scavenge_nodes_pruned:
  "gcm_ok c \<Longrightarrow> \<exists>c'. scavenge_nodes members key nodes c = Ret c'
     \<and> pruned c ({key} \<times> (set nodes - set members)) {} c'"
proof (induction nodes arbitrary: c)
  case Nil
  then show ?case by (simp add: pruned_refl)
next
  case (Cons node nodes)
  show ?case
  proof (cases "node \<in> set members")
    case True
    then have "{key} \<times> (set (node # nodes) - set members) = {key} \<times> (set nodes - set members)" by auto
    with Cons True show ?thesis by simp
  next
    case False
    obtain c1 where c1: "gcm_DelNodeAddr c key node = Ret c1" "pruned c {(key, node)} {} c1"
      using pruned_DelNodeAddr [OF Cons.prems] by blast
    obtain c' where c': "scavenge_nodes members key nodes c1 = Ret c'"
      "pruned c1 ({key} \<times> (set nodes - set members)) {} c'"
      using Cons.IH [OF pruned_ok [OF c1(2)]] by blast
    have "{(key, node)} \<union> {key} \<times> (set nodes - set members) = {key} \<times> (set (node # nodes) - set members)"
      using False by auto
    with pruned_trans [OF c1(2) c'(2)] c1(1) c'(1) False show ?thesis by simp
  qed
qed

text \<open>The cells the loop over the copy \<open>kvs\<close> deletes.\<close>

definition stale_cells ::
  "(string, string) gomap \<Rightarrow> string list \<Rightarrow> (string \<times> gossipConsensus) list \<Rightarrow> (string \<times> string) set" where
  "stale_cells data members kvs =
     {(k, n). k \<in> fst ` set kvs \<and> map_get data k = None}
     \<union> {(k, n). map_get data k \<noteq> None \<and> n \<notin> set members
          \<and> (\<exists>v. (k, v) \<in> set kvs \<and> n \<in> fst ` set (entries (gc_consensus v)))}"

lemma scavenge_keys_pruned:
  assumes "go_order ordn"
  shows "gcm_ok c \<Longrightarrow> \<exists>c'. scavenge_keys ordn data members kvs c = Ret c'
     \<and> pruned c (stale_cells data members kvs) {k \<in> fst ` set kvs. map_get data k = None} c'"
proof (induction kvs arbitrary: c)
  case Nil
  then show ?case by (simp add: pruned_refl stale_cells_def)
next
  case (Cons kv kvs)
  obtain key v where kv: "kv = (key, v)" by (cases kv)
  let ?S = "stale_cells data members" and ?K = "\<lambda>kvs. {k \<in> fst ` set kvs. map_get data k = None}"
  show ?case
  proof (cases "map_get data key")
    case None
    note p = pruned_DelKey [OF Cons.prems, of key]
    obtain c' where c': "scavenge_keys ordn data members kvs (gcm_DelKey c key) = Ret c'"
      "pruned (gcm_DelKey c key) (?S kvs) (?K kvs) c'"
      using Cons.IH [OF pruned_ok [OF p]] by blast
    have "{kn. fst kn = key} \<union> ?S kvs = ?S (kv # kvs)" "{key} \<union> ?K kvs = ?K (kv # kvs)"
      using None kv by (auto simp: stale_cells_def)
    with pruned_trans [OF p c'(2)] c'(1) None kv show ?thesis by simp
  next
    case (Some x)
    let ?ns = "map fst (ordn (entries (gc_consensus v)))"
    obtain c1 where c1: "scavenge_nodes members key ?ns c = Ret c1"
      "pruned c ({key} \<times> (set ?ns - set members)) {} c1"
      using scavenge_nodes_pruned [OF Cons.prems] by blast
    obtain c' where c': "scavenge_keys ordn data members kvs c1 = Ret c'" "pruned c1 (?S kvs) (?K kvs) c'"
      using Cons.IH [OF pruned_ok [OF c1(2)]] by blast
    have "set ?ns = fst ` set (entries (gc_consensus v))"
      using go_order_set [OF assms] by simp
    then have "{key} \<times> (set ?ns - set members) \<union> ?S kvs = ?S (kv # kvs)" "{} \<union> ?K kvs = ?K (kv # kvs)"
      using Some kv by (auto simp: stale_cells_def)
    with pruned_trans [OF c1(2) c'(2)] c1(1) c'(1) Some kv show ?thesis by simp
  qed
qed

text \<open>The copy has the keys and the reporting nodes of the table.\<close>

lemma clone_entries:
  assumes "go_order ordk" and "go_order ordn" and "gcm_ok c"
  shows "(k, n) \<in> {(k, n). \<exists>v. (k, v) \<in> set (ordk (entries (gcm_Clone ordk ordn c)))
           \<and> n \<in> fst ` set (entries (gc_consensus v))} \<longleftrightarrow> reports c (k, n) \<noteq> None"
    and "fst ` set (ordk (entries (gcm_Clone ordk ordn c))) = dom (map_get (gcm_data c))"
proof -
  have ok: "map_ok (gcm_Clone ordk ordn c)" by (simp add: gcm_Clone_def)
  have get: "map_get (gcm_Clone ordk ordn c) k = map_option (gc_copy ordn) (map_get (gcm_data c) k)" for k
    using gcm_Clone_get [OF assms(1,3)] .
  have ent: "(k, v) \<in> set (ordk (entries (gcm_Clone ordk ordn c)))
      \<longleftrightarrow> (\<exists>g. map_get (gcm_data c) k = Some g \<and> v = gc_copy ordn g)" for k v
    using go_order_set [OF assms(1)] map_get_iff_entry [OF ok, of k v] get [of k] by auto
  have "fst ` set (entries (gc_consensus (gc_copy ordn g))) = dom (map_get (gc_consensus g))"
    if "map_get (gcm_data c) k = Some g" for g
    using gc_copy_get [OF assms(2), of g] assms(3) that unfolding map_get_dom [symmetric] by (simp add: gcm_ok_get)
  then show "(k, n) \<in> {(k, n). \<exists>v. (k, v) \<in> set (ordk (entries (gcm_Clone ordk ordn c)))
           \<and> n \<in> fst ` set (entries (gc_consensus v))} \<longleftrightarrow> reports c (k, n) \<noteq> None"
    using ent by (cases "map_get (gcm_data c) k") (auto simp: reports_def)
  show "fst ` set (ordk (entries (gcm_Clone ordk ordn c))) = dom (map_get (gcm_data c))"
    using ent by (force simp: image_iff)
qed

lemma scavenge_detector_get:
  "map_get (d_w (scavenge_detector data keys d)) =
     (\<lambda>k. if k \<in> set keys \<and> map_get data k = None then None else map_get (d_w d) k)"
  by (induction keys arbitrary: d) (auto simp: d_DelKey_def fun_eq_iff)

lemma d_Clone_keys:
  assumes "go_order ordw" and "go_order ords"
  shows "set (map fst (ords (entries (d_Clone ordw d)))) = dom (map_get (d_w d))"
proof -
  let ?xs = "map (\<lambda>(k, v). (k, wd_data v)) (ordw (entries (d_w d)))"
  have "fst ` set (entries (d_Clone ordw d)) = dom (map_of (rev ?xs))"
    unfolding d_Clone_def map_get_dom [symmetric] fill_map_get ..
  also have "\<dots> = fst ` set (entries (d_w d))"
    using go_order_set [OF assms(1)] by (force simp: dom_map_of_conv_image_fst)
  finally show ?thesis
    using go_order_set [OF assms(2)] by (simp add: map_get_dom)
qed

lemma scavenge_spec:
  assumes "orders_ok o'" and "cm_ok cm" and "gcm_ok gcm"
  shows "\<exists>gcm' d'. scavenge o' cm members gcm d = Ret (gcm', d') \<and> gcm_ok gcm'
    \<and> (\<forall>k n. reports gcm' (k, n) = (if k \<in> dom (cm_view cm) \<and> n \<in> set members then reports gcm (k, n) else None))
    \<and> (\<forall>k. log_view gcm' k = (if k \<in> dom (cm_view cm) then log_view gcm k else log_view NewGossipCacheManager k))
    \<and> dom (map_get (gcm_data gcm')) = dom (map_get (gcm_data gcm)) \<inter> dom (cm_view cm)
    \<and> map_get (d_w d') = (\<lambda>k. if k \<in> dom (cm_view cm) then map_get (d_w d) k else None)"
proof -
  let ?data = "cm_Clone (so_cm o') cm"
  let ?kvs = "so_keys o' (entries (gcm_Clone (so_keys o') (so_nodes o') gcm))"
  have ord: "go_order (so_cm o')" "go_order (so_keys o')" "go_order (so_nodes o')" "go_order (so_windows o')"
    "go_order (so_samples o')" using assms(1) by (auto simp: orders_ok_def)
  have data: "map_get ?data = cm_view cm"
    using assms(2) ord(1) by (simp add: cm_Clone_view cm_ok_def)
  obtain gcm' where g: "scavenge_keys (so_nodes o') ?data members ?kvs gcm = Ret gcm'"
    "pruned gcm (stale_cells ?data members ?kvs) {k \<in> fst ` set ?kvs. map_get ?data k = None} gcm'"
    using scavenge_keys_pruned [OF ord(3) assms(3)] by blast
  note ce = clone_entries [OF ord(2,3) assms(3)]
  have dm: "k \<in> dom (map_get (gcm_data gcm)) \<or> reports gcm (k, n) = None" for k n
    by (auto simp: reports_def split: option.splits)
  have r: "reports gcm' (k, n) = (if k \<in> dom (cm_view cm) \<and> n \<in> set members then reports gcm (k, n) else None)" for k n
    using g(2) ce(1) [of k n] ce(2) dm [of k n] unfolding pruned_def stale_cells_def data
    by (auto simp: domIff)
  have z: "k \<in> dom (map_get (gcm_data gcm)) \<or> log_view gcm k = log_view NewGossipCacheManager k" for k
    by (cases "map_get (gcm_data gcm) k") (auto simp: log_view_def NewGossipCacheManager_def)
  have l: "log_view gcm' k = (if k \<in> dom (cm_view cm) then log_view gcm k else log_view NewGossipCacheManager k)" for k
    using g(2) ce(2) z [of k] unfolding pruned_def data by (auto simp: domIff)
  have "map_get (d_w (scavenge_detector ?data
      (map fst (so_samples o' (entries (d_Clone (so_windows o') d)))) d))
      = (\<lambda>k. if k \<in> dom (cm_view cm) then map_get (d_w d) k else None)"
    unfolding scavenge_detector_get d_Clone_keys [OF ord(4,5)] data by (auto simp: domIff fun_eq_iff)
  moreover have "dom (map_get (gcm_data gcm')) = dom (map_get (gcm_data gcm)) \<inter> dom (cm_view cm)"
    using g(2) ce(2) unfolding pruned_def data by auto
  ultimately show ?thesis
    using g r l by (auto simp: scavenge_def Let_def pruned_def)
qed

section \<open>A round as a plan\<close>

text \<open>
  Other goroutines act between the locked operations of a round. Over its copies, the round is a
  list of deletions, each of which locks the table once; carried out without interference they are
  the loops above.
\<close>

datatype deletion = Del_key string | Del_node string string

definition table_plan ::
  "(string \<times> gossipStatusAndTimeStamp) range_order \<Rightarrow> (string, string) gomap \<Rightarrow> string list
   \<Rightarrow> (string \<times> gossipConsensus) list \<Rightarrow> deletion list" where
  "table_plan ordn data members kvs =
     concat (map (\<lambda>(key, v).
       if map_get data key = None then [Del_key key]
       else map (Del_node key) (filter (\<lambda>node. \<not> Exists members node) (map fst (ordn (entries (gc_consensus v))))))
       kvs)"

definition detector_plan :: "(string, string) gomap \<Rightarrow> string list \<Rightarrow> string list" where
  "detector_plan data keys = filter (\<lambda>key. map_get data key = None) keys"

fun do_deletion :: "deletion \<Rightarrow> gossipCacheManager \<Rightarrow> gossipCacheManager go" where
  "do_deletion (Del_key key) c = Ret (gcm_DelKey c key)"
| "do_deletion (Del_node key node) c = gcm_DelNodeAddr c key node"

fun run_plan :: "deletion list \<Rightarrow> gossipCacheManager \<Rightarrow> gossipCacheManager go" where
  "run_plan [] c = Ret c"
| "run_plan (x # xs) c = go_bind (do_deletion x c) (run_plan xs)"

lemma run_plan_append: "run_plan (xs @ ys) c = go_bind (run_plan xs c) (run_plan ys)"
proof (induction xs arbitrary: c)
  case (Cons x xs)
  then show ?case by (cases "do_deletion x c") simp_all
qed simp

lemma run_plan_nodes:
  "run_plan (map (Del_node key) (filter (\<lambda>node. \<not> Exists members node) nodes)) c = scavenge_nodes members key nodes c"
proof (induction nodes arbitrary: c)
  case (Cons node nodes)
  then show ?case by (cases "gcm_DelNodeAddr c key node") simp_all
qed simp

lemma run_table_plan: "run_plan (table_plan ordn data members kvs) c = scavenge_keys ordn data members kvs c"
proof (induction kvs arbitrary: c)
  case (Cons kv kvs)
  obtain key v where kv: "kv = (key, v)" by (cases kv)
  let ?ns = "map fst (ordn (entries (gc_consensus v)))"
  show ?case
  proof (cases "map_get data key")
    case None
    then show ?thesis using Cons.IH kv by (simp add: table_plan_def)
  next
    case (Some x)
    then have "table_plan ordn data members (kv # kvs) =
        map (Del_node key) (filter (\<lambda>node. \<not> Exists members node) ?ns) @ table_plan ordn data members kvs"
      using kv by (simp add: table_plan_def)
    then have "run_plan (table_plan ordn data members (kv # kvs)) c
        = go_bind (scavenge_nodes members key ?ns c) (run_plan (table_plan ordn data members kvs))"
      by (simp only: run_plan_append run_plan_nodes)
    then show ?thesis using Some kv Cons.IH by (cases "scavenge_nodes members key ?ns c") simp_all
  qed
qed (simp add: table_plan_def)

lemma run_detector_plan: "fold (\<lambda>key d. d_DelKey d key) (detector_plan data keys) d = scavenge_detector data keys d"
  by (induction keys arbitrary: d) (simp_all add: detector_plan_def)

lemma do_deletion_ok:
  assumes "gcm_ok c"
  shows "\<exists>c'. do_deletion x c = Ret c' \<and> gcm_ok c'"
proof (cases x)
  case (Del_key key)
  then show ?thesis using pruned_ok [OF pruned_DelKey [OF assms]] by simp
next
  case (Del_node key node)
  then show ?thesis using pruned_DelNodeAddr [OF assms, of key node] pruned_ok by auto
qed

section \<open>Claims\<close>

text \<open>
  (C28) What is left after a run of the scavenger, in whatever order its loops run: of the gossip
  table exactly the reports on keys of the store by current members, of the replicated fields
  exactly those of keys of the store, and of the detector exactly the windows of keys of the store.
\<close>

theorem scavenge_result:
  assumes "orders_ok o'" and "cm_ok cm" and "gcm_ok gcm"
  shows "\<exists>gcm' d'. scavenge o' cm members gcm d = Ret (gcm', d') \<and> gcm_ok gcm'
    \<and> (\<forall>k n. reports gcm' (k, n) = (if k \<in> dom (cm_view cm) \<and> n \<in> set members then reports gcm (k, n) else None))
    \<and> (\<forall>k. log_view gcm' k = (if k \<in> dom (cm_view cm) then log_view gcm k else log_view NewGossipCacheManager k))
    \<and> dom (map_get (gcm_data gcm')) = dom (map_get (gcm_data gcm)) \<inter> dom (cm_view cm)
    \<and> map_get (d_w d') = (\<lambda>k. if k \<in> dom (cm_view cm) then map_get (d_w d) k else None)"
  using assms by (rule scavenge_spec)

definition plain_orders :: scavenge_orders where
  "plain_orders = \<lparr>so_cm = rev, so_keys = rev, so_nodes = rev, so_windows = rev, so_samples = rev\<rparr>"

theorem scavenge_result_witness:
  "orders_ok plain_orders \<and> (\<exists>gcm' d'. scavenge plain_orders NewCacheManager [''n'']
      \<lparr>gcm_data = Some [(''k'', zero_consensus\<lparr>gc_empty := True\<rparr>)]\<rparr> (NewDetector 3 2) = Ret (gcm', d')
    \<and> log_view gcm' ''k'' = log_view NewGossipCacheManager ''k'')"
proof -
  let ?g = "\<lparr>gcm_data = Some [(''k'', zero_consensus\<lparr>gc_empty := True\<rparr>)]\<rparr>"
  have h: "orders_ok plain_orders" "gcm_ok ?g" "dom (cm_view NewCacheManager) = {}"
    by (simp_all add: orders_ok_def plain_orders_def gcm_ok_def map_alive_def map_ok_def zero_consensus_def
        nil_map_def cm_view_def NewCacheManager_def fun_eq_iff)
  show ?thesis
    using scavenge_result [OF h(1) cm_ok_New h(2), of "[''n'']" "NewDetector 3 2"] h by auto
qed

end
