(* ===== verification/Fsm.thy ===== *)
theory Fsm
  imports Scavenger
begin

text \<open>
  \<open>fsm.go\<close> and \<open>snapshot.go\<close>: the replicated state machine. A log entry is a JSON document with a
  command, a key and a value; \<open>Apply\<close> executes it on the key-value store or on the replicated
  fields of the gossip table. \<open>Snapshot\<close> hands out the store itself, so that \<open>Persist\<close>, which
  runs later, may write a state that is ahead of the snapshot's index.
\<close>

section \<open>Log entries\<close>

type_synonym command = string

definition CMD_SET :: command where "CMD_SET = ''SET''"
definition CMD_DELETE :: command where "CMD_DELETE = ''DELETE''"
definition CMD_NOTIFY_STATUS :: command where "CMD_NOTIFY_STATUS = ''NOTIFY_STATUS''"
definition CMD_NOTIFY_TIME :: command where "CMD_NOTIFY_TIME = ''NOTIFY_TIME''"
definition CMD_NOTIFY_EMPTY_TIME :: command where "CMD_NOTIFY_EMPTY_TIME = ''NOTIFY_EMPTY_TIME''"
definition CMD_NOTIFY_EMPTY :: command where "CMD_NOTIFY_EMPTY = ''NOTIFY_EMPTY''"

lemmas cmd_defs = CMD_SET_def CMD_DELETE_def CMD_NOTIFY_STATUS_def CMD_NOTIFY_TIME_def
  CMD_NOTIFY_EMPTY_TIME_def CMD_NOTIFY_EMPTY_def

record logEntryData =
  le_Cmd :: command
  le_Key :: string
  le_Value :: string

abbreviation entry :: "command \<Rightarrow> string \<Rightarrow> string \<Rightarrow> logEntryData" where
  "entry cmd key val \<equiv> \<lparr>le_Cmd = cmd, le_Key = key, le_Value = val\<rparr>"

definition entry_json :: "logEntryData \<Rightarrow> json" where
  "entry_json e = JObj [(''Cmd'', JStr (le_Cmd e)), (''Key'', JStr (le_Key e)), (''Value'', JStr (le_Value e))]"

definition encode_entry :: "logEntryData \<Rightarrow> string" where
  "encode_entry e = print_json (entry_json e)"

definition store_entry :: "string \<Rightarrow> json \<Rightarrow> logEntryData \<Rightarrow> logEntryData option" where
  "store_entry n v e =
     (if n = ''Cmd'' then map_option (\<lambda>s. e\<lparr>le_Cmd := s\<rparr>) (store_string v (le_Cmd e))
      else if n = ''Key'' then map_option (\<lambda>s. e\<lparr>le_Key := s\<rparr>) (store_string v (le_Key e))
      else map_option (\<lambda>s. e\<lparr>le_Value := s\<rparr>) (store_string v (le_Value e)))"

text \<open>Decoding into the zero struct; \<open>null\<close> leaves it as it is.\<close>

definition decode_entry :: "string \<Rightarrow> logEntryData option" where
  "decode_entry data =
     (case unmarshal data of
        Some JNull \<Rightarrow> Some (entry [] [] [])
      | Some (JObj ms) \<Rightarrow> store_members [''Cmd'', ''Key'', ''Value''] store_entry ms (entry [] [] [])
      | _ \<Rightarrow> None)"

section \<open>Apply\<close>

record FSM =
  f_cm :: cacheManager
  f_gcm :: gossipCacheManager

text \<open>The four writers of the table return a nil error.\<close>

definition write_gcm :: "FSM \<Rightarrow> gossipCacheManager go \<Rightarrow> (gerror \<times> FSM) go" where
  "write_gcm f r = go_bind r (\<lambda>c. Ret (None, f\<lparr>f_gcm := c\<rparr>))"

definition apply_entry :: "logEntryData \<Rightarrow> FSM \<Rightarrow> (gerror \<times> FSM) go" where
  "apply_entry e f =
     (let key = le_Key e; val = le_Value e in
      if le_Cmd e = CMD_SET then
        go_bind (cm_Set (f_cm f) key val) (\<lambda>(ret, c). Ret (ret, f\<lparr>f_cm := c\<rparr>))
      else if le_Cmd e = CMD_DELETE then
        (let (ret, c) = cm_Del (f_cm f) key in Ret (ret, f\<lparr>f_cm := c\<rparr>))
      else if le_Cmd e = CMD_NOTIFY_STATUS then
        write_gcm f (gcm_SetPreviousConsensus (f_gcm f) key val)
      else if le_Cmd e = CMD_NOTIFY_TIME then
        (case ParseInt val of
           None \<Rightarrow> Ret (None, f)
         | Some timeStamp \<Rightarrow> write_gcm f (gcm_SetPreviousEventTime (f_gcm f) key (time_of_stamp timeStamp)))
      else if le_Cmd e = CMD_NOTIFY_EMPTY then
        (case ParseBool val of
           None \<Rightarrow> Ret (None, f)
         | Some emp \<Rightarrow> write_gcm f (gcm_SetEmpty (f_gcm f) key emp))
      else if le_Cmd e = CMD_NOTIFY_EMPTY_TIME then
        (case ParseInt val of
           None \<Rightarrow> Ret (None, f)
         | Some timeStamp \<Rightarrow> write_gcm f (gcm_setEmptyTime (f_gcm f) key (time_of_stamp timeStamp)))
      else Ret (None, f))"

definition Apply :: "FSM \<Rightarrow> string \<Rightarrow> (gerror \<times> FSM) go" where
  "Apply f data =
     (case decode_entry data of
        None \<Rightarrow> Panic (Explicit ''Failed unmarshaling Raft log entry. This is a bug.'')
      | Some e \<Rightarrow> apply_entry e f)"

section \<open>Snapshots\<close>

text \<open>
  A snapshot refers to the store of the machine, so it has no state of its own: \<open>Persist\<close> writes
  the store as it is when it runs. A sink answers \<open>Write\<close> and \<open>Close\<close>; the result is the error,
  the bytes written and whether the sink was cancelled.
\<close>

record snapshot_sink =
  ss_Write :: "string \<Rightarrow> gerror"
  ss_Close :: gerror

definition Persist :: "cacheManager \<Rightarrow> snapshot_sink \<Rightarrow> gerror \<times> string option \<times> bool" where
  "Persist cm sink =
     (let snapshotBytes = cm_Marshal cm in
      case ss_Write sink snapshotBytes of
        Some err \<Rightarrow> (Some err, None, True)
      | None \<Rightarrow>
          (case ss_Close sink of
             Some err \<Rightarrow> (Some err, Some snapshotBytes, True)
           | None \<Rightarrow> (None, Some snapshotBytes, False)))"

definition Restore :: "FSM \<Rightarrow> string \<Rightarrow> gerror \<times> FSM" where
  "Restore f serialized =
     (let (err, c) = cm_UnMarshal (f_cm f) serialized in (err, f\<lparr>f_cm := c\<rparr>))"

section \<open>Lemmas\<close>

definition ascii_entry :: "logEntryData \<Rightarrow> bool" where
  "ascii_entry e \<longleftrightarrow> ascii (le_Cmd e) \<and> ascii (le_Key e) \<and> ascii (le_Value e)"

lemma decode_encode_entry: "ascii_entry e \<Longrightarrow> decode_entry (encode_entry e) = Some e"
proof -
  assume e: "ascii_entry e"
  have "ascii ''Cmd''" "ascii ''Key''" "ascii ''Value''" by code_simp+
  with e have "unmarshal (encode_entry e) = Some (entry_json e)"
    unfolding encode_entry_def entry_json_def
    by (intro unmarshal_print_flat) (simp add: flat_member_def ascii_entry_def)
  then show ?thesis
    by (simp add: decode_entry_def entry_json_def store_entry_def store_string_def)
qed

text \<open>Well-formed machines, and the part of the state the log determines.\<close>

definition fsm_ok :: "FSM \<Rightarrow> bool" where
  "fsm_ok f \<longleftrightarrow> cm_ok (f_cm f) \<and> gcm_ok (f_gcm f)"

definition log_state :: "FSM \<Rightarrow> (string \<Rightarrow> string option) \<times> (string \<Rightarrow> log_fields)" where
  "log_state f = (cm_view (f_cm f), log_view (f_gcm f))"

text \<open>What an entry does to it, as a function on that part alone.\<close>

fun apply_fields :: "logEntryData \<Rightarrow> log_fields \<Rightarrow> log_fields" where
  "apply_fields e (pt, pc, em, et) =
     (if le_Cmd e = CMD_NOTIFY_STATUS then (pt, le_Value e, em, et)
      else if le_Cmd e = CMD_NOTIFY_TIME then
        (case ParseInt (le_Value e) of None \<Rightarrow> (pt, pc, em, et) | Some t \<Rightarrow> (t, pc, em, et))
      else if le_Cmd e = CMD_NOTIFY_EMPTY then
        (case ParseBool (le_Value e) of None \<Rightarrow> (pt, pc, em, et) | Some b \<Rightarrow> (pt, pc, b, et))
      else if le_Cmd e = CMD_NOTIFY_EMPTY_TIME then
        (case ParseInt (le_Value e) of None \<Rightarrow> (pt, pc, em, et) | Some t \<Rightarrow> (pt, pc, em, t))
      else (pt, pc, em, et))"

definition abs_apply ::
  "logEntryData \<Rightarrow> (string \<Rightarrow> string option) \<times> (string \<Rightarrow> log_fields)
   \<Rightarrow> (string \<Rightarrow> string option) \<times> (string \<Rightarrow> log_fields)" where
  "abs_apply e s =
     (if le_Cmd e = CMD_SET then ((fst s)(le_Key e \<mapsto> le_Value e), snd s)
      else if le_Cmd e = CMD_DELETE then ((fst s)(le_Key e := None), snd s)
      else (fst s, (snd s)(le_Key e := apply_fields e (snd s (le_Key e)))))"

lemma write_gcm_log:
  assumes ok: "gcm_ok (f_gcm f)" and keep: "\<And>g. gc_consensus (u g) = gc_consensus g"
    and lf: "\<And>g. (gc_prevEventTime (u g), gc_prevConsensus (u g), gc_empty (u g), gc_emptyTime (u g))
      = h (gc_prevEventTime g, gc_prevConsensus g, gc_empty g, gc_emptyTime g)"
  shows "\<exists>f'. write_gcm f (gcm_modify (f_gcm f) key u) = Ret (None, f') \<and> f_cm f' = f_cm f
    \<and> gcm_ok (f_gcm f') \<and> reports (f_gcm f') = reports (f_gcm f)
    \<and> log_view (f_gcm f') = (log_view (f_gcm f))(key := h (log_view (f_gcm f) key))"
proof -
  let ?g = "case map_get (gcm_data (f_gcm f)) key of None \<Rightarrow> zero_consensus | Some g \<Rightarrow> g"
  obtain c' where c': "gcm_modify (f_gcm f) key u = Ret c'" "gcm_ok c'" "reports c' = reports (f_gcm f)"
    "\<And>k. k \<noteq> key \<Longrightarrow> log_view c' k = log_view (f_gcm f) k" "map_get (gcm_data c') key = Some (u ?g)"
    by (rule gcm_modify_spec [OF ok keep, where key = key]) blast
  have "log_view c' key = h (log_view (f_gcm f) key)"
    using c'(5) lf [of ?g] by (simp add: log_view_def Let_def)
  then have "log_view c' = (log_view (f_gcm f))(key := h (log_view (f_gcm f) key))"
    using c'(4) by (auto simp: fun_eq_iff)
  with c' show ?thesis by (simp add: write_gcm_def)
qed

lemma cmd_distinct [simp]:
  "CMD_SET \<noteq> CMD_DELETE" "CMD_NOTIFY_STATUS \<noteq> CMD_SET" "CMD_NOTIFY_STATUS \<noteq> CMD_DELETE"
  "CMD_NOTIFY_TIME \<noteq> CMD_SET" "CMD_NOTIFY_TIME \<noteq> CMD_DELETE" "CMD_NOTIFY_TIME \<noteq> CMD_NOTIFY_STATUS"
  "CMD_NOTIFY_EMPTY \<noteq> CMD_SET" "CMD_NOTIFY_EMPTY \<noteq> CMD_DELETE" "CMD_NOTIFY_EMPTY \<noteq> CMD_NOTIFY_STATUS"
  "CMD_NOTIFY_EMPTY \<noteq> CMD_NOTIFY_TIME" "CMD_NOTIFY_EMPTY_TIME \<noteq> CMD_SET" "CMD_NOTIFY_EMPTY_TIME \<noteq> CMD_DELETE"
  "CMD_NOTIFY_EMPTY_TIME \<noteq> CMD_NOTIFY_STATUS" "CMD_NOTIFY_EMPTY_TIME \<noteq> CMD_NOTIFY_TIME"
  "CMD_NOTIFY_EMPTY_TIME \<noteq> CMD_NOTIFY_EMPTY"
  by (simp_all add: cmd_defs)

lemmas cmd_distinct_sym [simp] = cmd_distinct [THEN not_sym]

text \<open>An entry that writes the table either does nothing or is one of the four writers.\<close>

definition writer :: "logEntryData \<Rightarrow> (gossipConsensus \<Rightarrow> gossipConsensus) option" where
  "writer e =
     (if le_Cmd e = CMD_NOTIFY_STATUS then Some (gc_prevConsensus_update (\<lambda>_. le_Value e))
      else if le_Cmd e = CMD_NOTIFY_TIME then
        map_option (\<lambda>t. gc_prevEventTime_update (\<lambda>_. t)) (ParseInt (le_Value e))
      else if le_Cmd e = CMD_NOTIFY_EMPTY then
        map_option (\<lambda>b. gc_empty_update (\<lambda>_. b)) (ParseBool (le_Value e))
      else if le_Cmd e = CMD_NOTIFY_EMPTY_TIME then
        map_option (\<lambda>t. gc_emptyTime_update (\<lambda>_. t)) (ParseInt (le_Value e))
      else None)"

lemma apply_entry_writer:
  assumes "le_Cmd e \<noteq> CMD_SET" and "le_Cmd e \<noteq> CMD_DELETE"
  shows "apply_entry e f =
    (case writer e of None \<Rightarrow> Ret (None, f) | Some u \<Rightarrow> write_gcm f (gcm_modify (f_gcm f) (le_Key e) u))"
  using assms by (simp add: apply_entry_def writer_def Let_def setters_modify split: option.splits)

lemma writer_fields:
  assumes "le_Cmd e \<noteq> CMD_SET" and "le_Cmd e \<noteq> CMD_DELETE" and "writer e = Some u"
  shows "gc_consensus (u g) = gc_consensus g"
    and "(gc_prevEventTime (u g), gc_prevConsensus (u g), gc_empty (u g), gc_emptyTime (u g))
      = apply_fields e (gc_prevEventTime g, gc_prevConsensus g, gc_empty g, gc_emptyTime g)"
  using assms by (auto simp: writer_def split: if_splits option.splits)

lemma no_writer_fields: "writer e = None \<Longrightarrow> apply_fields e x = x"
  by (cases x) (auto simp: writer_def split: if_splits option.splits)

text \<open>\<open>Apply\<close> refines \<open>abs_apply\<close> and leaves the reports alone.\<close>

lemma apply_entry_refines:
  assumes ok: "fsm_ok f"
  shows "\<exists>f'. apply_entry e f = Ret (None, f') \<and> fsm_ok f' \<and> reports (f_gcm f') = reports (f_gcm f)
    \<and> log_state f' = abs_apply e (log_state f)"
proof -
  have cm: "cm_ok (f_cm f)" and gcm: "gcm_ok (f_gcm f)" using ok by (simp_all add: fsm_ok_def)
  consider (set) "le_Cmd e = CMD_SET" | (del) "le_Cmd e = CMD_DELETE"
    | (other) "le_Cmd e \<noteq> CMD_SET" "le_Cmd e \<noteq> CMD_DELETE" by blast
  then show ?thesis
  proof cases
    case set
    obtain c' where "cm_Set (f_cm f) (le_Key e) (le_Value e) = Ret (None, c')" "cm_ok c'"
      "cm_view c' = (cm_view (f_cm f))(le_Key e \<mapsto> le_Value e)"
      by (rule cm_Set_ok [OF cm, where k = "le_Key e" and v = "le_Value e"])
    with set gcm show ?thesis
      by (simp add: apply_entry_def Let_def fsm_ok_def log_state_def abs_apply_def)
  next
    case del
    with ok show ?thesis
      using cmkv.view_del [OF cm, of "le_Key e"] cmkv.inv_del [OF cm, of "le_Key e"]
      by (auto simp: apply_entry_def Let_def fsm_ok_def log_state_def abs_apply_def cm_Del_def)
  next
    case other
    show ?thesis
    proof (cases "writer e")
      case None
      then show ?thesis
        using other ok by (simp add: apply_entry_writer abs_apply_def log_state_def no_writer_fields)
    next
      case (Some u)
      obtain f' where "write_gcm f (gcm_modify (f_gcm f) (le_Key e) u) = Ret (None, f')" "f_cm f' = f_cm f"
        "gcm_ok (f_gcm f')" "reports (f_gcm f') = reports (f_gcm f)"
        "log_view (f_gcm f') = (log_view (f_gcm f))(le_Key e := apply_fields e (log_view (f_gcm f) (le_Key e)))"
        using write_gcm_log [OF gcm writer_fields [OF other Some], of "le_Key e"] by blast
      with Some other cm show ?thesis
        by (simp add: apply_entry_writer fsm_ok_def log_state_def abs_apply_def)
    qed
  qed
qed

section \<open>Runs of a replica\<close>

text \<open>
  What happens at a replica: an entry of the log is applied, a report of some node is entered in
  the table, a node that left is removed from a key. Two replicas see the same entries in the same
  order, but their gossip events are their own.
\<close>

datatype fsm_event = Entry logEntryData | Report string string string int gossipStatus | Leave string string

fun fsm_step :: "fsm_event \<Rightarrow> FSM \<Rightarrow> FSM go" where
  "fsm_step (Entry e) f = go_bind (apply_entry e f) (\<lambda>(_, f'). Ret f')"
| "fsm_step (Report key val node t st) f =
     go_bind (gcm_Set (f_gcm f) key val node t st) (\<lambda>(c, _). Ret (f\<lparr>f_gcm := c\<rparr>))"
| "fsm_step (Leave key node) f = go_bind (gcm_DelNodeAddr (f_gcm f) key node) (\<lambda>c. Ret (f\<lparr>f_gcm := c\<rparr>))"

fun fsm_run :: "fsm_event list \<Rightarrow> FSM \<Rightarrow> FSM go" where
  "fsm_run [] f = Ret f"
| "fsm_run (ev # evs) f = go_bind (fsm_step ev f) (fsm_run evs)"

fun log_of :: "fsm_event list \<Rightarrow> logEntryData list" where
  "log_of [] = []"
| "log_of (Entry e # evs) = e # log_of evs"
| "log_of (_ # evs) = log_of evs"

lemma fsm_step_log:
  assumes ok: "fsm_ok f" and st: "fsm_step ev f = Ret f'"
  shows "fsm_ok f' \<and> log_state f' = fold abs_apply (log_of [ev]) (log_state f)"
proof (cases ev)
  case (Entry e)
  with apply_entry_refines [OF ok, of e] st show ?thesis by auto
next
  case (Report key val node t s)
  have gcm: "gcm_ok (f_gcm f)" using ok by (simp add: fsm_ok_def)
  have nn: "\<not> nil_reports (f_gcm f) key"
    using st Report gcm_Set_nil [of "f_gcm f" key val node t s] by auto
  obtain c' where "gcm_ok c'" "log_view c' = log_view (f_gcm f)"
    "gcm_Set (f_gcm f) key val node t s =
       Ret (c', if is_news (f_gcm f) key node t then [report_msg t node key val s] else [])"
    by (rule gcm_Set_ok [OF gcm nn, where val = val and node = node and t = t and st = s]) blast
  with st Report ok show ?thesis by (auto simp: fsm_ok_def log_state_def)
next
  case (Leave key node)
  have gcm: "gcm_ok (f_gcm f)" using ok by (simp add: fsm_ok_def)
  obtain c' where "gcm_DelNodeAddr (f_gcm f) key node = Ret c'" "gcm_ok c'" "log_view c' = log_view (f_gcm f)"
    by (rule gcm_DelNodeAddr_spec [OF gcm, where key = key and node = node]) blast
  with st Leave ok show ?thesis by (auto simp: fsm_ok_def log_state_def)
qed

lemma log_of_Cons: "log_of (ev # evs) = log_of [ev] @ log_of evs"
  by (cases ev) simp_all

lemma fsm_run_log:
  "fsm_ok f \<Longrightarrow> fsm_run evs f = Ret f' \<Longrightarrow>
   fsm_ok f' \<and> log_state f' = fold abs_apply (log_of evs) (log_state f)"
proof (induction evs arbitrary: f)
  case (Cons ev evs)
  then obtain f1 where f1: "fsm_step ev f = Ret f1" "fsm_run evs f1 = Ret f'"
    by (auto simp: go_bind_eq_Ret)
  with fsm_step_log [OF Cons.prems(1) f1(1)] Cons.IH [of f1] show ?case
    by (simp add: log_of_Cons [of ev evs])
qed simp

subsection \<open>Logs and snapshots\<close>

lemma fsm_run_append: "fsm_run (xs @ ys) f = go_bind (fsm_run xs f) (fsm_run ys)"
proof (induction xs arbitrary: f)
  case (Cons x xs)
  then show ?case by (cases "fsm_step x f") simp_all
qed simp

text \<open>On a well-formed machine a log can always be applied.\<close>

lemma fsm_run_entries:
  "fsm_ok f \<Longrightarrow> \<exists>f'. fsm_run (map Entry es) f = Ret f' \<and> fsm_ok f'"
proof (induction es arbitrary: f)
  case (Cons e es)
  obtain f1 where "apply_entry e f = Ret (None, f1)" "fsm_ok f1"
    using apply_entry_refines [OF Cons.prems, of e] by blast
  with Cons.IH [of f1] show ?case by simp
qed simp

text \<open>The writes of an entry to the store.\<close>

definition kv_of :: "logEntryData \<Rightarrow> (string, string) kv_op list" where
  "kv_of e = (if le_Cmd e = CMD_SET then [Put (le_Key e) (le_Value e)]
              else if le_Cmd e = CMD_DELETE then [Remove (le_Key e)] else [])"

abbreviation cm_write :: "(string, string) kv_op \<Rightarrow> cacheManager \<Rightarrow> cacheManager" where
  "cm_write \<equiv> kv_apply cm_after_Set (\<lambda>c k. snd (cm_Del c k))"

lemma apply_entry_store:
  assumes ok: "fsm_ok f" and h: "apply_entry e f = Ret (r, f')"
  shows "f_cm f' = fold cm_write (kv_of e) (f_cm f)"
proof -
  consider (set) "le_Cmd e = CMD_SET" | (del) "le_Cmd e = CMD_DELETE"
    | (other) "le_Cmd e \<noteq> CMD_SET" "le_Cmd e \<noteq> CMD_DELETE" by blast
  then show ?thesis
  proof cases
    case set
    with h show ?thesis
      by (auto simp: apply_entry_def Let_def kv_of_def cm_after_Set_def go_bind_eq_Ret)
  next
    case del
    with h show ?thesis by (auto simp: apply_entry_def Let_def kv_of_def cm_Del_def)
  next
    case other
    with h show ?thesis
      by (auto simp: apply_entry_writer write_gcm_def kv_of_def go_bind_eq_Ret split: option.splits)
  qed
qed

lemma fsm_run_store:
  "fsm_ok f \<Longrightarrow> fsm_run (map Entry es) f = Ret f' \<Longrightarrow>
   f_cm f' = fold cm_write (concat (map kv_of es)) (f_cm f)"
proof (induction es arbitrary: f)
  case (Cons e es)
  obtain f1 where f1: "apply_entry e f = Ret (None, f1)" "fsm_ok f1"
    using apply_entry_refines [OF Cons.prems(1), of e] by blast
  with Cons.prems(2) Cons.IH [of f1] apply_entry_store [OF Cons.prems(1) f1(1)] show ?case
    by simp
qed simp

text \<open>The store after a log only depends on the view of the store before.\<close>

lemma store_view_cong:
  assumes "cm_ok c" and "cm_ok c'" and "cm_view c = cm_view c'"
  shows "cm_view (fold cm_write ops c) = cm_view (fold cm_write ops c')"
  using cmkv.view_run [OF assms(1)] cmkv.view_run [OF assms(2)] assms(3)
  by (simp add: fun_eq_iff split: option.split)

lemma snapshot_replay:
  assumes ok: "fsm_ok f" "fsm_ok g" and run: "fsm_run (map Entry es) f = Ret f1" "fsm_run (map Entry fs) f1 = Ret f2"
    and view: "cm_view (f_cm g) = cm_view (f_cm f1)" and rep: "fsm_run (map Entry (es @ fs)) g = Ret g2"
  shows "cm_view (f_cm g2) = cm_view (f_cm f2)"
proof -
  let ?es = "concat (map kv_of es)" and ?fs = "concat (map kv_of fs)"
  have cf: "cm_ok (f_cm f)" "cm_ok (f_cm g)" using ok by (simp_all add: fsm_ok_def)
  have ok1: "fsm_ok f1" using fsm_run_log [OF ok(1) run(1)] by blast
  have f1: "f_cm f1 = fold cm_write ?es (f_cm f)" using fsm_run_store [OF ok(1) run(1)] .
  have "cm_view (f_cm g2) = cm_view (fold cm_write (?es @ ?fs) (f_cm g))"
    using fsm_run_store [OF ok(2) rep] by simp
  also have "\<dots> = cm_view (fold cm_write (?es @ ?fs) (f_cm f1))"
    using ok1 cf view by (intro store_view_cong) (simp_all add: fsm_ok_def)
  also have "\<dots> = cm_view (fold cm_write (?es @ ?fs) (f_cm f))"
    unfolding f1 by (rule cmkv.replay [OF cf(1)])
  also have "\<dots> = cm_view (f_cm f2)"
    using fsm_run_store [OF ok1 run(2)] f1 by simp
  finally show ?thesis .
qed

section \<open>Claims\<close>

text \<open>
  (C11) \<open>Apply\<close> refines the abstract machine: on a well-formed state every entry that was written
  as ASCII text is decoded as it was encoded, does not panic, returns a nil error, acts on the
  store and the replicated fields as \<open>abs_apply\<close> does (commands it does not know and values
  that do not parse do nothing), and touches no report.
\<close>

theorem Apply_refines:
  assumes "fsm_ok f" and "ascii_entry e"
  shows "\<exists>f'. Apply f (encode_entry e) = Ret (None, f') \<and> fsm_ok f'
    \<and> reports (f_gcm f') = reports (f_gcm f) \<and> log_state f' = abs_apply e (log_state f)"
  using apply_entry_refines [OF assms(1), of e] decode_encode_entry [OF assms(2)]
  by (simp add: Apply_def)

definition new_fsm :: FSM where
  "new_fsm = \<lparr>f_cm = NewCacheManager, f_gcm = NewGossipCacheManager\<rparr>"

lemma new_fsm_ok: "fsm_ok new_fsm"
  by (simp add: fsm_ok_def new_fsm_def cm_ok_New gcm_live_ok)

theorem Apply_refines_witness:
  "\<exists>f'. Apply new_fsm (encode_entry (entry CMD_SET ''k'' ''v'')) = Ret (None, f') \<and> fsm_ok f'
    \<and> log_state f' = abs_apply (entry CMD_SET ''k'' ''v'') (log_state new_fsm)"
proof -
  have "ascii_entry (entry CMD_SET ''k'' ''v'')" by (simp add: ascii_entry_def cmd_defs)
  from Apply_refines [OF new_fsm_ok this] show ?thesis by blast
qed

text \<open>
  (C7) Replicas agree: two replicas that start alike and have applied the same log have the same
  store and the same replicated fields, whatever reports and departures each has seen in between.
\<close>

theorem replicas_agree:
  assumes "fsm_ok f1" and "fsm_ok f2" and "log_state f1 = log_state f2"
    and "log_of evs1 = log_of evs2" and "fsm_run evs1 f1 = Ret f1'" and "fsm_run evs2 f2 = Ret f2'"
  shows "log_state f1' = log_state f2'"
  using fsm_run_log [OF assms(1,5)] fsm_run_log [OF assms(2,6)] assms(3,4) by simp

text \<open>A log of two entries with a report before, between or after them.\<close>

definition sample_log :: "logEntryData list" where
  "sample_log = [entry CMD_SET ''k'' ''v'', entry CMD_NOTIFY_STATUS ''k'' ''UP'']"

definition early_reports :: "fsm_event list" where
  "early_reports = Report ''k'' ''v'' ''n1'' 5 ''UP'' # map Entry sample_log @ [Leave ''k'' ''n1'']"

lemma early_reports_run: "returns (fsm_run early_reports new_fsm)" "returns (fsm_run (map Entry sample_log) new_fsm)"
  by code_simp+

theorem replicas_agree_witness:
  "\<exists>f1 f2. fsm_run early_reports new_fsm = Ret f1 \<and> fsm_run (map Entry sample_log) new_fsm = Ret f2
    \<and> log_state f1 = log_state f2"
proof -
  obtain f1 f2 where f: "fsm_run early_reports new_fsm = Ret f1" "fsm_run (map Entry sample_log) new_fsm = Ret f2"
    using early_reports_run by (auto simp: returns_iff)
  moreover have "log_of early_reports = log_of (map Entry sample_log)"
    by (simp add: early_reports_def sample_log_def)
  ultimately show ?thesis
    using replicas_agree [OF new_fsm_ok new_fsm_ok refl _ f] by blast
qed

text \<open>
  A late snapshot does no harm to the store. \<open>Persist\<close> may run after the machine has applied
  further entries \<open>es\<close>; a node that restores the bytes and is then given the entries \<open>es\<close> again and
  the entries \<open>fs\<close> that follow them ends with the store of the machine that wrote the snapshot.
\<close>

lemma late_snapshot_harmless:
  assumes "fsm_ok f" and "fsm_run (map Entry es) f = Ret f1" and "cm_ascii (f_cm f1)"
    and "Persist (f_cm f1) sink = (None, Some bytes, cancelled)" and "fsm_ok g"
  shows "\<exists>g1 g2 f2. Restore g bytes = (None, g1) \<and> fsm_run (map Entry (es @ fs)) g1 = Ret g2
    \<and> fsm_run (map Entry fs) f1 = Ret f2 \<and> cm_view (f_cm g2) = cm_view (f_cm f2)"
proof -
  have ok1: "fsm_ok f1" using fsm_run_log [OF assms(1,2)] by blast
  then have cm1: "cm_ok (f_cm f1)" by (simp add: fsm_ok_def)
  have bytes: "bytes = cm_Marshal (f_cm f1)"
    using assms(4) by (auto simp: Persist_def Let_def split: option.splits)
  obtain c where c: "cm_UnMarshal (f_cm g) bytes = (None, c)" "cm_ok c" "cm_view c = cm_view (f_cm f1)"
    unfolding bytes by (rule cm_UnMarshal_Marshal [OF cm1 assms(3)])
  let ?g = "g\<lparr>f_cm := c\<rparr>"
  have okg: "fsm_ok ?g" using c(2) assms(5) by (simp add: fsm_ok_def)
  obtain g2 f2 where r: "fsm_run (map Entry (es @ fs)) ?g = Ret g2" "fsm_run (map Entry fs) f1 = Ret f2"
    using fsm_run_entries [OF okg] fsm_run_entries [OF ok1] by blast
  have "cm_view (f_cm g2) = cm_view (f_cm f2)"
    using snapshot_replay [OF assms(1) okg assms(2) r(2) _ r(1)] c(3) by simp
  with c(1) r show ?thesis by (simp add: Restore_def)
qed

definition good_sink :: snapshot_sink where
  "good_sink = \<lparr>ss_Write = (\<lambda>_. None), ss_Close = None\<rparr>"

text \<open>
  (C29) The replicated fields of the gossip table are not part of a snapshot: a node that restores
  the snapshot of another one has its store but not the agreed status of a key.
\<close>

theorem snapshot_loses_fields:
  assumes "fsm_ok f" and "cm_ascii (f_cm f)" and "fsm_ok g"
  shows "\<exists>g'. Restore g (cm_Marshal (f_cm f)) = (None, g') \<and> cm_view (f_cm g') = cm_view (f_cm f)
    \<and> log_view (f_gcm g') = log_view (f_gcm g)"
proof -
  have cm: "cm_ok (f_cm f)" using assms(1) by (simp add: fsm_ok_def)
  obtain c where "cm_UnMarshal (f_cm g) (cm_Marshal (f_cm f)) = (None, c)" "cm_view c = cm_view (f_cm f)"
    by (rule cm_UnMarshal_Marshal [OF cm assms(2)]) blast
  then show ?thesis by (simp add: Restore_def)
qed

theorem snapshot_loses_fields_witness:
  "\<exists>f1 g'. fsm_run (map Entry [entry CMD_NOTIFY_STATUS ''k'' ''UP'']) new_fsm = Ret f1
    \<and> Restore new_fsm (cm_Marshal (f_cm f1)) = (None, g') \<and> log_view (f_gcm g') ''k'' \<noteq> log_view (f_gcm f1) ''k''"
proof -
  let ?es = "[entry CMD_NOTIFY_STATUS ''k'' ''UP'']"
  obtain f1 where f1: "fsm_run (map Entry ?es) new_fsm = Ret f1" "fsm_ok f1"
    using fsm_run_entries [OF new_fsm_ok, of ?es] by blast
  have "f_cm f1 = NewCacheManager"
    using fsm_run_store [OF new_fsm_ok f1(1)] by (simp add: kv_of_def new_fsm_def)
  then have a: "cm_ascii (f_cm f1)" by (simp add: cm_ascii_def NewCacheManager_def make_map_def)
  have "log_state f1 = fold abs_apply ?es (log_state new_fsm)"
    using fsm_run_log [OF new_fsm_ok f1(1)] by simp
  then have "log_view (f_gcm f1) ''k'' = apply_fields (hd ?es) (log_view (f_gcm new_fsm) ''k'')"
    by (simp add: abs_apply_def log_state_def)
  then have "log_view (f_gcm f1) ''k'' \<noteq> log_view (f_gcm new_fsm) ''k''"
    by (simp add: log_view_def new_fsm_def NewGossipCacheManager_def zero_consensus_def)
  with snapshot_loses_fields [OF f1(2) a new_fsm_ok] f1(1) show ?thesis by metis
qed

text \<open>
  (C30) The scavenger breaks the agreement. It deletes the replicated fields of a key that is not
  in the store, at a time of its own choosing: after the same log (a key is set, its status is
  agreed, it is deleted and set again) a replica whose scavenger ran while the key was deleted has
  lost the agreed status, a replica whose scavenger did not run still has it.
\<close>

theorem scavenger_breaks_agreement:
  defines "es \<equiv> [entry CMD_SET ''k'' ''v'', entry CMD_NOTIFY_STATUS ''k'' ''UP'', entry CMD_DELETE ''k'' []]"
    and "fs \<equiv> [entry CMD_SET ''k'' ''v'']"
  shows "\<exists>f f1 c d f2. fsm_run (map Entry es) new_fsm = Ret f
    \<and> fsm_run (map Entry fs) f = Ret f1
    \<and> scavenge plain_orders (f_cm f) [''n''] (f_gcm f) (NewDetector 3 2) = Ret (c, d)
    \<and> fsm_run (map Entry fs) (f\<lparr>f_gcm := c\<rparr>) = Ret f2
    \<and> log_view (f_gcm f1) ''k'' \<noteq> log_view (f_gcm f2) ''k''"
proof -
  obtain f where f: "fsm_run (map Entry es) new_fsm = Ret f" "fsm_ok f"
    using fsm_run_entries [OF new_fsm_ok] by blast
  have lf: "log_state f = fold abs_apply es (log_state new_fsm)"
    using fsm_run_log [OF new_fsm_ok f(1)] by (simp add: es_def)
  have ok: "cm_ok (f_cm f)" "gcm_ok (f_gcm f)" "orders_ok plain_orders"
    using f(2) by (simp_all add: fsm_ok_def orders_ok_def plain_orders_def)
  obtain c d where c: "scavenge plain_orders (f_cm f) [''n''] (f_gcm f) (NewDetector 3 2) = Ret (c, d)" "gcm_ok c"
    "log_view c ''k'' = (if ''k'' \<in> dom (cm_view (f_cm f)) then log_view (f_gcm f) ''k''
       else log_view NewGossipCacheManager ''k'')"
    using scavenge_spec [OF ok(3,1,2), of "[''n'']" "NewDetector 3 2"] by blast
  have ok2: "fsm_ok (f\<lparr>f_gcm := c\<rparr>)" using c(2) f(2) by (simp add: fsm_ok_def)
  obtain f1 f2 where r: "fsm_run (map Entry fs) f = Ret f1" "fsm_run (map Entry fs) (f\<lparr>f_gcm := c\<rparr>) = Ret f2"
    using fsm_run_entries [OF f(2)] fsm_run_entries [OF ok2] by blast
  have v1: "log_view (f_gcm f1) ''k'' = log_view (f_gcm f) ''k''" and v2: "log_view (f_gcm f2) ''k'' = log_view c ''k''"
    using fsm_run_log [OF f(2) r(1)] fsm_run_log [OF ok2 r(2)]
    by (simp_all add: fs_def log_state_def abs_apply_def)
  have "''k'' \<notin> dom (cm_view (f_cm f))" and "fst (snd (log_view (f_gcm f) ''k'')) = ''UP''"
    using lf by (simp_all add: es_def log_state_def abs_apply_def domIff log_view_def new_fsm_def
        NewGossipCacheManager_def)
  moreover have "fst (snd (log_view NewGossipCacheManager ''k'')) = []"
    by (simp add: log_view_def NewGossipCacheManager_def zero_consensus_def)
  ultimately have "log_view (f_gcm f1) ''k'' \<noteq> log_view (f_gcm f2) ''k''"
    unfolding v1 v2 c(3) by auto
  with f(1) r c(1) show ?thesis by blast
qed

end
