(* ===== verification/Http.thy ===== *)
theory Http
  imports Fsm Options
begin

text \<open>
  \<open>http.go\<close>, the two handlers of \<open>commonDetector.go\<close>, and the membership operations of
  \<open>stCached.go\<close>. A handler is a function from the request to the response; what it asks of the
  raft and the gossip libraries is part of the response as a list of calls, and what the libraries
  answer is the argument \<open>env\<close>. Writing is only allowed while this node is the leader.
\<close>

section \<open>Requests, responses and the outside\<close>

record request =
  rq_query :: "string \<Rightarrow> string"
  rq_vars :: "string \<Rightarrow> string"

datatype lib_call =
    CallApply string
  | CallAddVoter string
  | CallRemoveServer string
  | CallJoin "string list"
  | CallLeave int

record response =
  rs_code :: int
  rs_body :: string
  rs_calls :: "lib_call list"

text \<open>
  The answers of the libraries: the leader's address, the errors of the futures, the number of
  nodes \<open>Join\<close> reached, and the members of the raft configuration and of the gossip cluster.
\<close>

record env =
  ev_Leader :: string
  ev_Apply :: "string \<Rightarrow> gerror"
  ev_AddVoter :: "string \<Rightarrow> gerror"
  ev_RemoveServer :: "string \<Rightarrow> gerror"
  ev_Join :: "string list \<Rightarrow> int \<times> gerror"
  ev_Leave :: "int \<Rightarrow> gerror"
  ev_GossipMembers :: "string list"
  ev_Configuration :: "string + string list"

abbreviation reply :: "string \<Rightarrow> response" where
  "reply body \<equiv> \<lparr>rs_code = 200, rs_body = body, rs_calls = []\<rparr>"

definition internal_error :: string where
  "internal_error = ''internal error'' @ nl"

section \<open>The server\<close>

definition ENABLE_WRITE_TRUE :: int where "ENABLE_WRITE_TRUE = 1"
definition ENABLE_WRITE_FALSE :: int where "ENABLE_WRITE_FALSE = 0"

record httpServer =
  hs_enableWrite :: int

datatype route = R_set | R_get | R_del | R_join | R_leave | R_gossipjoin | R_gossipleave | R_status
  | R_statuskey | R_gossipstatus | R_gossipstatuskey | R_leader | R_membersconsensus | R_gossipnodes
  | R_raftnodes | R_detectordata | R_detectordatakey

text \<open>The registered routes; the last two are there when the verifier is a \<open>commonVerifier\<close>.\<close>

definition NewHttpServer :: "bool \<Rightarrow> httpServer \<times> (string \<times> route) list" where
  "NewHttpServer is_common =
     (\<lparr>hs_enableWrite = ENABLE_WRITE_FALSE\<rparr>,
      [(''/set'', R_set), (''/get'', R_get), (''/del'', R_del), (''/join'', R_join), (''/leave'', R_leave),
       (''/gossipjoin/{nodes}'', R_gossipjoin), (''/gossipleave'', R_gossipleave), (''/status'', R_status),
       (''/status/{key}'', R_statuskey), (''/gossipstatus'', R_gossipstatus),
       (''/gossipstatus/{key}'', R_gossipstatuskey), (''/leader'', R_leader),
       (''/membersconsensus'', R_membersconsensus), (''/gossipnodes'', R_gossipnodes), (''/raftnodes'', R_raftnodes)]
      @ (if is_common then [(''/detectordata'', R_detectordata), (''/detectordata/{key}'', R_detectordatakey)]
         else []))"

definition checkWritePermission :: "httpServer \<Rightarrow> bool" where
  "checkWritePermission h \<longleftrightarrow> hs_enableWrite h = ENABLE_WRITE_TRUE"

definition setWriteFlag :: "httpServer \<Rightarrow> bool \<Rightarrow> httpServer" where
  "setWriteFlag h flag =
     (if flag then h\<lparr>hs_enableWrite := ENABLE_WRITE_TRUE\<rparr> else h\<lparr>hs_enableWrite := ENABLE_WRITE_FALSE\<rparr>)"

text \<open>One round of \<open>monitorLeadrship\<close>: a leadership change arrives on the notify channel.\<close>

definition monitorLeadrship :: "httpServer \<Rightarrow> bool \<Rightarrow> httpServer" where
  "monitorLeadrship h leader = (if leader then setWriteFlag h True else setWriteFlag h False)"

section \<open>Handlers of the store\<close>

definition doGet :: "cacheManager \<Rightarrow> request \<Rightarrow> response" where
  "doGet cm r =
     (let key = rq_query r ''key''
      in if key = [] then reply [] else reply (cm_Get cm key @ nl))"

definition not_allowed :: "string \<Rightarrow> env \<Rightarrow> response" where
  "not_allowed what env = reply (what @ '' method not allowed, leader is '' @ ev_Leader env @ nl)"

text \<open>The common part of \<open>doSet\<close> and \<open>doDel\<close>: propose the entry and wait for the future.\<close>

definition propose :: "env \<Rightarrow> logEntryData \<Rightarrow> response" where
  "propose env event =
     (let eventBytes = encode_entry event
      in \<lparr>rs_code = 200,
          rs_body = (case ev_Apply env eventBytes of Some err \<Rightarrow> internal_error | None \<Rightarrow> ''ok'' @ nl),
          rs_calls = [CallApply eventBytes]\<rparr>)"

definition doSet :: "httpServer \<Rightarrow> env \<Rightarrow> request \<Rightarrow> response" where
  "doSet h env r =
     (if \<not> checkWritePermission h then not_allowed ''write'' env
      else (let key = rq_query r ''key''; val = rq_query r ''value''
            in if key = [] \<or> val = [] then reply (''param error'' @ nl)
               else propose env (entry CMD_SET key val)))"

definition doDel :: "httpServer \<Rightarrow> env \<Rightarrow> request \<Rightarrow> response" where
  "doDel h env r =
     (if \<not> checkWritePermission h then not_allowed ''delete'' env
      else (let key = rq_query r ''key''
            in if key = [] then reply []
               else propose env (entry CMD_DELETE key [])))"

definition doStatus :: "cacheManager \<Rightarrow> response" where
  "doStatus cm = reply (cm_Marshal cm)"

definition doStatusForKey :: "cacheManager \<Rightarrow> request \<Rightarrow> response" where
  "doStatusForKey cm r =
     (let key = rq_vars r ''key'';
          (val, err) = cm_GetKey cm key
      in case err of Some e \<Rightarrow> reply e
         | None \<Rightarrow> reply (print_json (string_map_json [(key, val)])))"

section \<open>Handlers of the clusters\<close>

definition doJoin :: "httpServer \<Rightarrow> env \<Rightarrow> request \<Rightarrow> response" where
  "doJoin h env r =
     (if \<not> checkWritePermission h then not_allowed ''raft join'' env
      else (let peerAddress = rq_query r ''peerAddress''
            in if peerAddress = [] then reply (''invalid peerAddress'' @ nl)
               else \<lparr>rs_code = 200,
                     rs_body = (case ev_AddVoter env peerAddress of Some err \<Rightarrow> internal_error | None \<Rightarrow> ''ok'' @ nl),
                     rs_calls = [CallAddVoter peerAddress]\<rparr>))"

definition doLeave :: "httpServer \<Rightarrow> env \<Rightarrow> request \<Rightarrow> response" where
  "doLeave h env r =
     (if \<not> checkWritePermission h then not_allowed ''raft leave'' env
      else (let peerAddress = rq_query r ''peerAddress''
            in if peerAddress = [] then reply (''invalid peerAddress'' @ nl)
               else \<lparr>rs_code = 200,
                     rs_body = (case ev_RemoveServer env peerAddress of Some err \<Rightarrow> internal_error | None \<Rightarrow> ''ok'' @ nl),
                     rs_calls = [CallRemoveServer peerAddress]\<rparr>))"

definition doGossipJoin :: "env \<Rightarrow> request \<Rightarrow> response" where
  "doGossipJoin env r =
     (let peers = Split CHR '','' (rq_vars r ''nodes'');
          (n, err) = ev_Join env peers
      in \<lparr>rs_code = 200,
          rs_body = (if err \<noteq> None then internal_error
                     else if n \<noteq> int (length peers) then internal_error
                     else ''ok'' @ nl),
          rs_calls = [CallJoin peers]\<rparr>)"

definition doGossipLeave :: "env \<Rightarrow> response" where
  "doGossipLeave env =
     (let d = seconds GOSSIP_LEAVE_INTERVAL_IN_SECONDS
      in \<lparr>rs_code = 200, rs_body = (case ev_Leave env d of Some err \<Rightarrow> internal_error | None \<Rightarrow> ''ok'' @ nl),
          rs_calls = [CallLeave d]\<rparr>)"

text \<open>\<open>Members\<close> of \<open>stCached.go\<close>: an error of the future gives the empty list.\<close>

definition st_Members :: "env \<Rightarrow> string list" where
  "st_Members env = (case ev_Configuration env of Inl err \<Rightarrow> [] | Inr servers \<Rightarrow> servers)"

fun getIP :: "string list \<Rightarrow> string list" where
  "getIP [] = []"
| "getIP (node # nodes) =
     (let temp = Split CHR '':'' node
      in if length temp \<noteq> 2 then getIP nodes else hd temp # getIP nodes)"

fun need_to_join :: "string list \<Rightarrow> string list \<Rightarrow> string list" where
  "need_to_join gossipMembers [] = []"
| "need_to_join gossipMembers (node # nodes) =
     (if \<not> Exists gossipMembers node then node # need_to_join gossipMembers nodes
      else need_to_join gossipMembers nodes)"

text \<open>\<open>reJoinGossipNodes\<close>: the calls it makes; errors are only logged.\<close>

definition reJoinGossipNodes :: "env \<Rightarrow> lib_call list" where
  "reJoinGossipNodes env =
     (let raftMembers = getIP (st_Members env);
          gossipMembers = getIP (ev_GossipMembers env)
      in map (\<lambda>node. CallJoin [node]) (need_to_join gossipMembers raftMembers))"

definition doGossipNodes :: "env \<Rightarrow> response" where
  "doGossipNodes env = reply (print_json (JArr (map JStr (ev_GossipMembers env))))"

definition doNodes :: "env \<Rightarrow> response" where
  "doNodes env = reply (print_json (JArr (map JStr (st_Members env))))"

definition doLeader :: "env \<Rightarrow> response" where
  "doLeader env =
     (if ev_Leader env = [] then \<lparr>rs_code = 500, rs_body = ''error no leader'' @ nl, rs_calls = []\<rparr>
      else reply (ev_Leader env @ nl))"

definition format_slice :: "string list \<Rightarrow> string" where
  "format_slice xs = ''['' @ Join CHR '' '' xs @ '']''"

definition doMembersConsensus :: "env \<Rightarrow> response" where
  "doMembersConsensus env =
     (let raftMembers = sort (getIP (st_Members env));
          gossipMembers = sort (getIP (ev_GossipMembers env))
      in if \<not> SliceEqual (Some raftMembers) (Some gossipMembers)
         then \<lparr>rs_code = 500,
               rs_body = ''error raft members '' @ format_slice raftMembers @ '' , gossip members ''
                         @ format_slice gossipMembers @ '' differ'' @ nl,
               rs_calls = []\<rparr>
         else reply (''ok'' @ nl))"

section \<open>Handlers of the gossip table and the detector\<close>

definition doGossipStatus ::
  "(string \<times> gossipConsensus) range_order \<Rightarrow> (string \<times> gossipStatusAndTimeStamp) range_order
   \<Rightarrow> (time \<Rightarrow> string) \<Rightarrow> (time \<Rightarrow> json option) \<Rightarrow> gossipCacheManager \<Rightarrow> response" where
  "doGossipStatus ordk ordn fmt time_json gcm =
     reply (case gcm_Marshal ordk ordn fmt time_json gcm of None \<Rightarrow> internal_error | Some bytes \<Rightarrow> bytes)"

definition doGossipStatusForKey ::
  "(string \<times> gossipStatusAndTimeStamp) range_order \<Rightarrow> (time \<Rightarrow> string) \<Rightarrow> (time \<Rightarrow> json option)
   \<Rightarrow> gossipCacheManager \<Rightarrow> request \<Rightarrow> response" where
  "doGossipStatusForKey ordn fmt time_json gcm r =
     (let key = rq_vars r ''key'';
          (val, err) = gcm_GetKey ordn fmt gcm key
      in case err of Some e \<Rightarrow> reply e
         | None \<Rightarrow> reply (case temp_json time_json val of None \<Rightarrow> internal_error
                          | Some j \<Rightarrow> print_json (JObj [(key, j)])))"

definition sample_json :: "(time \<Rightarrow> json option) \<Rightarrow> StatusAndTime \<Rightarrow> json option" where
  "sample_json time_json x =
     map_option (\<lambda>t. JObj [(''Status'', JStr (st_Status x)), (''Time'', t)]) (time_json (st_Time x))"

definition samples_json :: "(time \<Rightarrow> json option) \<Rightarrow> StatusAndTime list \<Rightarrow> json option" where
  "samples_json time_json xs = map_option JArr (those (map (sample_json time_json) xs))"

definition doDetectorData ::
  "(string \<times> Windowed) range_order \<Rightarrow> (time \<Rightarrow> json option) \<Rightarrow> Detector \<Rightarrow> response" where
  "doDetectorData ord time_json d =
     (let data = sort_key fst (entries (d_Clone ord d));
          members = map (\<lambda>(k, xs). map_option (Pair k) (samples_json time_json xs)) data
      in reply (case those members of None \<Rightarrow> internal_error | Some ms \<Rightarrow> print_json (JObj ms)))"

definition doDetectorDataForKey :: "(time \<Rightarrow> json option) \<Rightarrow> Detector \<Rightarrow> request \<Rightarrow> response" where
  "doDetectorDataForKey time_json d r =
     (let key = rq_vars r ''key'';
          (xs, err) = d_Get d key
      in case err of Some e \<Rightarrow> reply e
         | None \<Rightarrow> reply (case samples_json time_json xs of None \<Rightarrow> internal_error
                          | Some j \<Rightarrow> print_json (JObj [(key, j)])))"

section \<open>Lemmas\<close>

lemma need_to_join_filter: "need_to_join g r = filter (\<lambda>node. node \<notin> set g) r"
  by (induction r) auto

lemma getIP_host_port:
  assumes "CHR '':'' \<notin> set host" and "CHR '':'' \<notin> set port"
  shows "getIP ((host @ CHR '':'' # port) # nodes) = host # getIP nodes"
  using assms by (simp add: Split_append Split_none)

lemma sort_eq_iff: "sort xs = sort ys \<longleftrightarrow> mset xs = mset ys"
proof
  show "sort xs = sort ys \<Longrightarrow> mset xs = mset ys" by (metis mset_sort)
  show "mset xs = mset ys \<Longrightarrow> sort xs = sort ys" by (rule properties_for_sort) simp_all
qed

lemma consensus_iff:
  "rs_code (doMembersConsensus env) = 200
   \<longleftrightarrow> mset (getIP (st_Members env)) = mset (getIP (ev_GossipMembers env))"
  by (simp add: doMembersConsensus_def Let_def SliceEqual_iff sort_eq_iff)

lemma checkWritePermission_set [simp]: "checkWritePermission (setWriteFlag h b) \<longleftrightarrow> b"
  by (simp add: checkWritePermission_def setWriteFlag_def ENABLE_WRITE_TRUE_def ENABLE_WRITE_FALSE_def)

lemma propose_calls [simp]: "rs_calls (propose env e) = [CallApply (encode_entry e)]"
  by (simp add: propose_def Let_def)

text \<open>The bytes of an accepted write, applied by any replica.\<close>

lemma apply_set_bytes:
  assumes "fsm_ok f" and "ascii key" and "ascii val"
  shows "\<exists>f'. Apply f (encode_entry (entry CMD_SET key val)) = Ret (None, f') \<and> fsm_ok f'
    \<and> cm_view (f_cm f') = (cm_view (f_cm f))(key \<mapsto> val)"
proof -
  have "decode_entry (encode_entry (entry CMD_SET key val)) = Some (entry CMD_SET key val)"
    using assms by (intro decode_encode_entry) (simp add: ascii_entry_def cmd_defs)
  with apply_entry_refines [OF assms(1), of "entry CMD_SET key val"] show ?thesis
    by (auto simp: Apply_def log_state_def abs_apply_def)
qed

section \<open>Claims\<close>

text \<open>
  (C21) An accepted write is what readers see: when \<open>doSet\<close> answers \<open>ok\<close> for an ASCII key and value, it has
  proposed exactly one log entry, and every replica that applies the proposed bytes answers a
  \<open>doGet\<close> for the key with the value and keeps all other keys.
\<close>

theorem set_then_get:
  assumes "rs_body (doSet h env r) = ''ok'' @ nl"
    and "ascii (rq_query r ''key'')" and "ascii (rq_query r ''value'')" and "fsm_ok f"
  shows "\<exists>bytes f'. rs_calls (doSet h env r) = [CallApply bytes] \<and> ev_Apply env bytes = None
    \<and> Apply f bytes = Ret (None, f') \<and> doGet (f_cm f') r = reply (rq_query r ''value'' @ nl)
    \<and> (\<forall>k. k \<noteq> rq_query r ''key'' \<longrightarrow> cm_view (f_cm f') k = cm_view (f_cm f) k)"
proof -
  let ?k = "rq_query r ''key''" and ?v = "rq_query r ''value''"
  have h: "?k \<noteq> []" "?v \<noteq> []" and call: "doSet h env r = propose env (entry CMD_SET ?k ?v)"
    using assms(1) by (auto simp: doSet_def not_allowed_def Let_def nl_def split: if_splits)
  have ap: "ev_Apply env (encode_entry (entry CMD_SET ?k ?v)) = None"
    using assms(1) unfolding call by (simp add: propose_def Let_def internal_error_def nl_def split: option.splits)
  obtain f' where f': "Apply f (encode_entry (entry CMD_SET ?k ?v)) = Ret (None, f')"
    "cm_view (f_cm f') = (cm_view (f_cm f))(?k \<mapsto> ?v)"
    using apply_set_bytes [OF assms(4,2,3)] by blast
  then have "doGet (f_cm f') r = reply (?v @ nl)"
    using h by (simp add: doGet_def Let_def cm_Get_view)
  with f' call ap show ?thesis by auto
qed

definition sample_env :: env where
  "sample_env = \<lparr>ev_Leader = ''10.0.0.1:7000'', ev_Apply = (\<lambda>_. None), ev_AddVoter = (\<lambda>_. None),
     ev_RemoveServer = (\<lambda>_. None), ev_Join = (\<lambda>ps. (int (length ps), None)), ev_Leave = (\<lambda>_. None),
     ev_GossipMembers = [''10.0.0.1:7946''], ev_Configuration = Inr [''10.0.0.1:7000'', ''10.0.0.2:7000'']\<rparr>"

definition set_request :: request where
  "set_request = \<lparr>rq_query = (\<lambda>n. if n = ''key'' then ''k'' else ''v''), rq_vars = (\<lambda>_. [])\<rparr>"

theorem set_then_get_witness:
  "\<exists>bytes f'. rs_calls (doSet \<lparr>hs_enableWrite = 1\<rparr> sample_env set_request) = [CallApply bytes]
    \<and> Apply new_fsm bytes = Ret (None, f') \<and> doGet (f_cm f') set_request = reply (''v'' @ nl)"
proof -
  let ?h = "\<lparr>hs_enableWrite = 1\<rparr>"
  have "rs_body (doSet ?h sample_env set_request) = ''ok'' @ nl"
    by (simp add: doSet_def checkWritePermission_def ENABLE_WRITE_TRUE_def set_request_def propose_def
        sample_env_def)
  from set_then_get [OF this _ _ new_fsm_ok] show ?thesis by (auto simp: set_request_def)
qed



text \<open>
  (C32) Rejoining repairs the membership: \<open>reJoinGossipNodes\<close> asks exactly the hosts of the raft
  configuration that are not gossip members to join, one call for each listed server, so that it
  makes no call when the member lists agree as \<open>/membersconsensus\<close> checks it (which is up to order
  and counts repetitions).
\<close>

theorem rejoin_exactly_missing:
  "(\<forall>ps. CallJoin ps \<in> set (reJoinGossipNodes env) \<longleftrightarrow>
      (\<exists>ip. ps = [ip] \<and> ip \<in> set (getIP (st_Members env)) \<and> ip \<notin> set (getIP (ev_GossipMembers env))))
   \<and> (rs_code (doMembersConsensus env) = 200 \<longleftrightarrow>
        mset (getIP (st_Members env)) = mset (getIP (ev_GossipMembers env)))
   \<and> (rs_code (doMembersConsensus env) = 200 \<longrightarrow> reJoinGossipNodes env = [])"
proof -
  have "filter (\<lambda>node. node \<notin> set (getIP (ev_GossipMembers env))) (getIP (st_Members env)) = []"
    if "mset (getIP (st_Members env)) = mset (getIP (ev_GossipMembers env))"
    using mset_eq_setD [OF that] by simp
  then show ?thesis
    by (auto simp: reJoinGossipNodes_def Let_def need_to_join_filter consensus_iff)
qed

theorem rejoin_exactly_missing_witness:
  "CallJoin [''10.0.0.2''] \<in> set (reJoinGossipNodes sample_env)"
proof -
  have "getIP (st_Members sample_env) = [''10.0.0.1'', ''10.0.0.2'']"
    "getIP (ev_GossipMembers sample_env) = [''10.0.0.1'']"
    by code_simp+
  then show ?thesis
    using rejoin_exactly_missing [of sample_env] by simp
qed

end
