(* ===== verification/Quorum.thy ===== *)
theory Quorum
  imports Http
begin

text \<open>
  \<open>quorum.go\<close>: the leader counts fresh reports and decides. \<open>hasEvent\<close> and \<open>emptyRecover\<close>
  look for a status that at least \<open>quorum\<close> nodes report; \<open>checkEvent\<close> and \<open>checkEmpty\<close> record the
  decision in the replicated log and start the notification script; \<open>quorumCheck2\<close> records the
  outcome once the script has run. The clock readings, the answers of \<open>checkWritePermission\<close>
  and the errors of the raft futures come from an environment, read in sequence; what the checker
  asks for is kept in a trace.
\<close>

section \<open>Data\<close>

record quorumChecker =
  qc_quorum :: int
  qc_notificationScript :: string
  qc_eventInterval :: int

record timeoutShellCmd =
  tc_key :: string
  tc_status :: gossipStatus
  tc_timeout :: int
  tc_cmd :: string

record shellCmdResult =
  sr_key :: string
  sr_status :: gossipStatus
  sr_stdout :: string
  sr_stderr :: string
  sr_err :: gerror

record quorum_env =
  qe_clock :: clock
  qe_perm :: "nat \<Rightarrow> bool"
  qe_apply :: "nat \<Rightarrow> gerror"

record quorum_trace =
  qt_clock :: nat
  qt_perm :: nat
  qt_apply :: nat
  qt_proposed :: "logEntryData list"
  qt_cmds :: "timeoutShellCmd list"

section \<open>Counting\<close>

text \<open>
  The reports that count: later than \<open>since\<close> and not older than five minutes at the clock reading
  taken for them. The number of readings taken is threaded through.
\<close>

fun fresh_reports ::
  "clock \<Rightarrow> time \<Rightarrow> gossipStatusAndTimeStamp list \<Rightarrow> nat \<Rightarrow> gossipStatus list \<times> nat" where
  "fresh_reports clk since [] n = ([], n)"
| "fresh_reports clk since (r # rs) n =
     (if gs_timeStamp r \<le> UnixNano since then fresh_reports clk since rs n
      else if time_Sub (clk n) (time_of_stamp (gs_timeStamp r)) > seconds STALE_INFO_INTERVAL_IN_SECONDS
      then fresh_reports clk since rs (Suc n)
      else (let (ss, n') = fresh_reports clk since rs (Suc n) in (gs_status r # ss, n')))"

text \<open>The first status in the map's order that reaches the quorum; the empty string if none does.\<close>

definition status_now :: "(gossipStatus \<times> int) range_order \<Rightarrow> int \<Rightarrow> gossipStatus list \<Rightarrow> gossipStatus" where
  "status_now ord quorum ss =
     (case find (\<lambda>(status, count). count \<ge> quorum) (ord (count_all ss)) of
        Some (status, _) \<Rightarrow> status | None \<Rightarrow> [])"

definition decide_event :: "gossipStatus \<Rightarrow> gossipStatus \<Rightarrow> bool \<times> bool \<times> gossipStatus" where
  "decide_event statusNow prevConsensus =
     (if statusNow = GOSSIP_DOWN \<and> prevConsensus = GOSSIP_UP then (True, False, GOSSIP_DOWN)
      else if statusNow = GOSSIP_DOWN \<and> prevConsensus \<noteq> GOSSIP_DOWN then (False, True, GOSSIP_DOWN)
      else if statusNow = GOSSIP_UP \<and> prevConsensus = GOSSIP_DOWN then (True, False, GOSSIP_UP)
      else if statusNow = GOSSIP_UP \<and> prevConsensus \<noteq> GOSSIP_UP then (False, True, GOSSIP_UP)
      else (False, False, statusNow))"

text \<open>The two orders of the loops over the reports and over the counts.\<close>

record count_orders =
  co_reports :: "(string \<times> gossipStatusAndTimeStamp) range_order"
  co_counts :: "(gossipStatus \<times> int) range_order"

definition hasEvent ::
  "quorumChecker \<Rightarrow> count_orders \<Rightarrow> clock \<Rightarrow> gossipConsensus \<Rightarrow> nat \<Rightarrow> (bool \<times> bool \<times> gossipStatus) \<times> nat" where
  "hasEvent q o' clk v n =
     (let (ss, n') = fresh_reports clk (gc_prevEventTime v)
                       (map snd (co_reports o' (entries (gc_consensus v)))) n;
          statusNow = status_now (co_counts o') (qc_quorum q) ss
      in (decide_event statusNow (gc_prevConsensus v), n'))"

definition counts_as_recovered :: "gossipStatus \<Rightarrow> bool" where
  "counts_as_recovered s \<longleftrightarrow>
     s \<noteq> GOSSIP_LESS_THAN_MINSAMPLE \<and> s \<noteq> GOSSIP_NOT_FILL_SAMPLES \<and> s \<noteq> GOSSIP_EMPTY"

definition emptyRecover ::
  "quorumChecker \<Rightarrow> count_orders \<Rightarrow> clock \<Rightarrow> gossipConsensus \<Rightarrow> nat \<Rightarrow> (bool \<times> gossipStatus) \<times> nat" where
  "emptyRecover q o' clk v n =
     (let (ss, n') = fresh_reports clk (gc_emptyTime v)
                       (map snd (co_reports o' (entries (gc_consensus v)))) n;
          recoverCount = int (length (filter counts_as_recovered ss));
          statusNow = status_now (co_counts o') (qc_quorum q) ss
      in (if statusNow = GOSSIP_EMPTY then (False, statusNow)
          else if recoverCount \<ge> qc_quorum q then (True, statusNow)
          else (False, statusNow), n'))"

section \<open>Proposals and commands\<close>

definition read_clock :: "quorum_env \<Rightarrow> quorum_trace \<Rightarrow> time \<times> quorum_trace" where
  "read_clock env t = (qe_clock env (qt_clock t), t\<lparr>qt_clock := Suc (qt_clock t)\<rparr>)"

definition notifyFollower :: "quorum_env \<Rightarrow> logEntryData \<Rightarrow> quorum_trace \<Rightarrow> gerror \<times> quorum_trace" where
  "notifyFollower env event t =
     (if \<not> qe_perm env (qt_perm t)
      then (Some ''nofity follower can only be performed on leader'', t\<lparr>qt_perm := Suc (qt_perm t)\<rparr>)
      else (qe_apply env (qt_apply t),
            t\<lparr>qt_perm := Suc (qt_perm t), qt_apply := Suc (qt_apply t), qt_proposed := qt_proposed t @ [event]\<rparr>))"

text \<open>A proposal of the current time; the error is only logged.\<close>

definition propose_time :: "quorum_env \<Rightarrow> command \<Rightarrow> string \<Rightarrow> quorum_trace \<Rightarrow> quorum_trace" where
  "propose_time env cmd key t =
     (let (now, t1) = read_clock env t
      in snd (notifyFollower env (entry cmd key (FormatInt (UnixNano now))) t1))"

definition send_cmd ::
  "quorumChecker \<Rightarrow> cacheManager \<Rightarrow> string \<Rightarrow> gossipStatus \<Rightarrow> quorum_trace \<Rightarrow> quorum_trace" where
  "send_cmd q cm key status t =
     t\<lparr>qt_cmds := qt_cmds t @ [\<lparr>tc_key = key, tc_status = status, tc_timeout = notificationScriptTimeout,
         tc_cmd = notificationFormat (qc_notificationScript q) key (cm_Get cm key) status\<rparr>]\<rparr>"

text \<open>\<open>time.Since(since) < eventInterval\<close> seconds, with a clock reading.\<close>

definition too_early :: "quorumChecker \<Rightarrow> quorum_env \<Rightarrow> time \<Rightarrow> quorum_trace \<Rightarrow> bool" where
  "too_early q env since t \<longleftrightarrow>
     time_Sub (qe_clock env (qt_clock t)) since < seconds (qc_eventInterval q)"

definition checkEvent ::
  "quorumChecker \<Rightarrow> quorum_env \<Rightarrow> count_orders \<Rightarrow> cacheManager \<Rightarrow> string \<Rightarrow> gossipConsensus
   \<Rightarrow> quorum_trace \<Rightarrow> quorum_trace" where
  "checkEvent q env o' cm key v t0 =
     (let early = too_early q env (gc_prevEventTime v) t0;
          t1 = snd (read_clock env t0)
      in if early then t1
         else (let ((ev, pending, status), n) = hasEvent q o' (qe_clock env) v (qt_clock t1);
                   t2 = t1\<lparr>qt_clock := n\<rparr>;
                   t3 = (if pending then
                           snd (notifyFollower env (entry CMD_NOTIFY_STATUS key status)
                                  (propose_time env CMD_NOTIFY_TIME key t2))
                         else t2)
               in if ev then send_cmd q cm key status (propose_time env CMD_NOTIFY_TIME key t3) else t3))"

definition checkEmpty ::
  "quorumChecker \<Rightarrow> quorum_env \<Rightarrow> count_orders \<Rightarrow> cacheManager \<Rightarrow> string \<Rightarrow> gossipConsensus
   \<Rightarrow> quorum_trace \<Rightarrow> quorum_trace" where
  "checkEmpty q env o' cm key v t0 =
     (let early = too_early q env (gc_emptyTime v) t0;
          t1 = snd (read_clock env t0)
      in if early then t1
         else (let ((rec, status), n) = emptyRecover q o' (qe_clock env) v (qt_clock t1);
                   t2 = t1\<lparr>qt_clock := n\<rparr>;
                   t3 = (if status = GOSSIP_EMPTY \<and> \<not> gc_empty v
                         then send_cmd q cm key status (propose_time env CMD_NOTIFY_EMPTY_TIME key t2)
                         else t2)
               in if rec \<and> gc_empty v
                  then send_cmd q cm key GOSSIP_EMPTY_RECOVER (propose_time env CMD_NOTIFY_EMPTY_TIME key t3)
                  else t3))"

fun check_keys ::
  "quorumChecker \<Rightarrow> quorum_env \<Rightarrow> count_orders \<Rightarrow> cacheManager \<Rightarrow> (string \<times> gossipConsensus) list
   \<Rightarrow> quorum_trace \<Rightarrow> quorum_trace" where
  "check_keys q env o' cm [] t = t"
| "check_keys q env o' cm ((key, v) # kvs) t =
     check_keys q env o' cm kvs (checkEmpty q env o' cm key v (checkEvent q env o' cm key v t))"

text \<open>\<open>barrier\<close> is the error of the raft barrier.\<close>

definition quorumCheck1 ::
  "quorumChecker \<Rightarrow> quorum_env \<Rightarrow> count_orders \<Rightarrow> (string \<times> gossipConsensus) range_order \<Rightarrow> gerror
   \<Rightarrow> cacheManager \<Rightarrow> gossipCacheManager \<Rightarrow> quorum_trace \<Rightarrow> quorum_trace" where
  "quorumCheck1 q env o' ordk barrier cm gcm t =
     (let t1 = t\<lparr>qt_perm := Suc (qt_perm t)\<rparr>
      in if \<not> qe_perm env (qt_perm t) then t1
         else if barrier \<noteq> None then t1
         else check_keys q env o' cm (ordk (entries (gcm_Clone ordk (co_reports o') gcm))) t1)"

text \<open>One round of \<open>quorumCheck2\<close>: the entry that records the outcome of a script.\<close>

definition outcome_entry :: "shellCmdResult \<Rightarrow> logEntryData" where
  "outcome_entry out =
     (if sr_status out = GOSSIP_EMPTY then entry CMD_NOTIFY_EMPTY (sr_key out) (FormatBool True)
      else if sr_status out = GOSSIP_EMPTY_RECOVER then entry CMD_NOTIFY_EMPTY (sr_key out) (FormatBool False)
      else entry CMD_NOTIFY_STATUS (sr_key out) (sr_status out))"

definition quorumCheck2 :: "quorum_env \<Rightarrow> shellCmdResult \<Rightarrow> quorum_trace \<Rightarrow> quorum_trace" where
  "quorumCheck2 env out t = snd (notifyFollower env (outcome_entry out) t)"

text \<open>A worker of \<open>doTimeoutShellCmd\<close>: no result when this node is no longer the leader.\<close>

definition timeout_worker :: "bool \<Rightarrow> (string \<Rightarrow> process_run) \<Rightarrow> timeoutShellCmd \<Rightarrow> shellCmdResult option" where
  "timeout_worker perm shell tsc =
     (if \<not> perm then None
      else (let (stdout, stderr, err) = ShellCmdTimeout (tc_timeout tsc) ''sh'' (shell (tc_cmd tsc))
            in Some \<lparr>sr_key = tc_key tsc, sr_status = tc_status tsc, sr_stdout = stdout, sr_stderr = stderr,
                     sr_err = err\<rparr>))"

section \<open>Lemmas on counting\<close>

text \<open>A report that may count: late enough, and fresh at some reading from the n-th on.\<close>

definition may_count :: "clock \<Rightarrow> nat \<Rightarrow> time \<Rightarrow> gossipStatusAndTimeStamp \<Rightarrow> bool" where
  "may_count clk n since r \<longleftrightarrow> gs_timeStamp r > UnixNano since
     \<and> (\<exists>m\<ge>n. time_Sub (clk m) (gs_timeStamp r) \<le> seconds STALE_INFO_INTERVAL_IN_SECONDS)"

lemma may_count_mono: "may_count clk m since r \<Longrightarrow> n \<le> m \<Longrightarrow> may_count clk n since r"
  by (auto simp: may_count_def intro: order_trans)

lemma fresh_reports_count:
  "count_list (fst (fresh_reports clk since rs n)) s
   \<le> length (filter (\<lambda>r. gs_status r = s \<and> may_count clk n since r) rs)"
proof (induction clk since rs n rule: fresh_reports.induct)
  case (2 clk since r rs n)
  have mono: "length (filter (\<lambda>r. gs_status r = s \<and> may_count clk (Suc n) since r) rs)
      \<le> length (filter (\<lambda>r. gs_status r = s \<and> may_count clk n since r) rs)"
    by (induction rs) (auto intro: may_count_mono)
  have "may_count clk n since r"
    if "\<not> gs_timeStamp r \<le> UnixNano since"
      "\<not> time_Sub (clk n) (time_of_stamp (gs_timeStamp r)) > seconds STALE_INFO_INTERVAL_IN_SECONDS"
    using that by (auto simp: may_count_def not_less)
  with 2 mono show ?case
    by (auto simp: split_beta Let_def intro: order_trans)
qed simp

text \<open>With a clock that stands still the loop is a filter.\<close>

lemma fresh_reports_const:
  "fst (fresh_reports (\<lambda>_. now) since rs n) = map gs_status (filter (may_count (\<lambda>_. now) 0 since) rs)"
proof (induction "\<lambda>_::nat. now" since rs n rule: fresh_reports.induct)
  case (2 since r rs n)
  then show ?case
    by (auto simp: split_beta Let_def may_count_def not_less)
qed simp

lemma status_now_Some:
  assumes "go_order ord" and "0 < quorum" and "status_now ord quorum ss \<noteq> []"
  shows "quorum \<le> int (count_list ss (status_now ord quorum ss))"
proof -
  obtain s c where f: "find (\<lambda>(status, count). count \<ge> quorum) (ord (count_all ss)) = Some (s, c)"
    using assms(3) by (auto simp: status_now_def split: option.splits)
  then have "(s, c) \<in> set (count_all ss)" "quorum \<le> c"
    using find_SomeD [OF f] go_order_set [OF assms(1)] by auto
  with f show ?thesis by (simp add: status_now_def count_all_mem)
qed

lemma status_now_None:
  assumes "go_order ord" and "0 < quorum" and "\<And>s. int (count_list ss s) < quorum"
  shows "status_now ord quorum ss = []"
proof -
  have "find (\<lambda>(status, count). count \<ge> quorum) (ord (count_all ss)) = None"
    using assms(3) go_order_set [OF assms(1)]
    by (auto simp: find_None_iff count_all_mem not_le)
  then show ?thesis by (simp add: status_now_def)
qed

lemma count_two: "s \<noteq> s' \<Longrightarrow> count_list ss s + count_list ss s' \<le> length ss"
  by (induction ss) auto

lemma status_now_eq:
  assumes "go_order ord" and "0 < quorum" and "quorum \<le> int (count_list ss s)"
    and "int (length ss) < 2 * quorum"
  shows "status_now ord quorum ss = s"
proof -
  have uniq: "s' = s" if "quorum \<le> int (count_list ss s')" for s'
  proof (rule ccontr)
    assume "s' \<noteq> s"
    then have "count_list ss s + count_list ss s' \<le> length ss" using count_two [of s s' ss] by simp
    then show False using assms(3,4) that by linarith
  qed
  have "s \<in> set ss" using assms(2,3) by (metis count_list_0_iff not_le of_nat_0)
  then have mem: "(s, int (count_list ss s)) \<in> set (ord (count_all ss))"
    using go_order_set [OF assms(1)] by (simp add: count_all_mem)
  have "find (\<lambda>(status, count). count \<ge> quorum) (ord (count_all ss)) \<noteq> None"
    using mem assms(3) by (auto simp: find_None_iff)
  then obtain s' c where f: "find (\<lambda>(status, count). count \<ge> quorum) (ord (count_all ss)) = Some (s', c)"
    by auto
  then have "(s', c) \<in> set (count_all ss)" "quorum \<le> c"
    using find_SomeD [OF f] go_order_set [OF assms(1)] by auto
  then have "s' = s" using uniq by (simp add: count_all_mem)
  with f show ?thesis by (simp add: status_now_def)
qed

text \<open>A quorum of more than half of the counted reports makes the outcome independent of the order.\<close>

lemma status_now_perm:
  assumes "go_order ord" and "go_order ord'" and "mset ss = mset ss'" and "0 < quorum"
    and "int (length ss) < 2 * quorum"
  shows "status_now ord quorum ss = status_now ord' quorum ss'"
proof -
  have c: "count_list ss s = count_list ss' s" for s
    using assms(3) by (metis count_mset)
  have l: "length ss' = length ss" using assms(3) by (metis size_mset)
  show ?thesis
  proof (cases "\<exists>s. quorum \<le> int (count_list ss s)")
    case True
    then obtain s where "quorum \<le> int (count_list ss s)" ..
    then show ?thesis using assms c l by (simp add: status_now_eq)
  next
    case False
    then show ?thesis using assms c by (simp add: status_now_None not_le)
  qed
qed

text \<open>The nodes behind a count.\<close>

definition supporters :: "clock \<Rightarrow> nat \<Rightarrow> time \<Rightarrow> gossipConsensus \<Rightarrow> gossipStatus \<Rightarrow> string set" where
  "supporters clk n since v s =
     {node. \<exists>r. map_get (gc_consensus v) node = Some r \<and> gs_status r = s \<and> may_count clk n since r}"

lemma supporters_card:
  assumes "map_ok (gc_consensus v)" and "go_order ord"
  shows "length (filter (\<lambda>r. gs_status r = s \<and> may_count clk n since r) (map snd (ord (entries (gc_consensus v)))))
    = card (supporters clk n since v s)"
proof -
  let ?P = "\<lambda>r. gs_status r = s \<and> may_count clk n since r"
  let ?xs = "filter (?P \<circ> snd) (ord (entries (gc_consensus v)))"
  have d: "distinct (map fst ?xs)"
    using assms by (simp add: map_ok_def go_order_distinct_keys distinct_map_filter)
  have "supporters clk n since v s = fst ` set ?xs"
    using go_order_set [OF assms(2)] map_get_iff_entry [OF assms(1)] by (force simp: supporters_def)
  then have "card (supporters clk n since v s) = length ?xs"
    using distinct_card [OF d] by simp
  then show ?thesis by (simp add: filter_map)
qed

lemma fresh_reports_supporters:
  assumes "map_ok (gc_consensus v)" and "go_order ord"
  shows "count_list (fst (fresh_reports clk since (map snd (ord (entries (gc_consensus v)))) n)) s
    \<le> card (supporters clk n since v s)"
  using fresh_reports_count [of clk since _ n s] supporters_card [OF assms] by metis

lemma count_list_statuses: "count_list (map gs_status xs) s = length (filter (\<lambda>r. gs_status r = s) xs)"
  by (induction xs) auto

lemma fresh_reports_supporters_const:
  assumes "map_ok (gc_consensus v)" and "go_order ord"
  shows "count_list (fst (fresh_reports (\<lambda>_. now) since (map snd (ord (entries (gc_consensus v)))) n)) s
    = card (supporters (\<lambda>_. now) 0 since v s)"
  unfolding fresh_reports_const count_list_statuses filter_filter
  using supporters_card [OF assms, of s "\<lambda>_. now" 0 since] by (simp add: conj_commute)

section \<open>Lemmas on the checks\<close>

lemma notifyFollower_sel [simp]:
  "qt_cmds (snd (notifyFollower env e t)) = qt_cmds t"
  "qt_clock (snd (notifyFollower env e t)) = qt_clock t"
  by (simp_all add: notifyFollower_def)

lemma propose_time_sel [simp]: "qt_cmds (propose_time env cmd key t) = qt_cmds t"
  by (simp add: propose_time_def read_clock_def)

lemma send_cmd_sel [simp]:
  "qt_proposed (send_cmd q cm key status t) = qt_proposed t" "qt_perm (send_cmd q cm key status t) = qt_perm t"
  by (simp_all add: send_cmd_def)

lemma read_clock_sel [simp]:
  "qt_proposed (snd (read_clock env t)) = qt_proposed t" "qt_cmds (snd (read_clock env t)) = qt_cmds t"
  "qt_perm (snd (read_clock env t)) = qt_perm t" "qt_clock (snd (read_clock env t)) = Suc (qt_clock t)"
  by (simp_all add: read_clock_def)

text \<open>A node that has lost the write permission proposes nothing.\<close>

definition no_leader :: "quorum_env \<Rightarrow> bool" where
  "no_leader env \<longleftrightarrow> (\<forall>n. \<not> qe_perm env n)"

definition leader_env :: "quorum_env \<Rightarrow> bool" where
  "leader_env env \<longleftrightarrow> (\<forall>n. qe_perm env n)"

lemma notifyFollower_no_leader:
  "no_leader env \<Longrightarrow> qt_proposed (snd (notifyFollower env e t)) = qt_proposed t"
  by (simp add: notifyFollower_def no_leader_def)

lemma notifyFollower_leader:
  "leader_env env \<Longrightarrow> qt_proposed (snd (notifyFollower env e t)) = qt_proposed t @ [e]"
  by (simp add: notifyFollower_def leader_env_def)

lemma propose_time_leader:
  "leader_env env \<Longrightarrow> qt_proposed (propose_time env cmd key t)
     = qt_proposed t @ [entry cmd key (FormatInt (UnixNano (qe_clock env (qt_clock t))))]"
  by (simp add: propose_time_def notifyFollower_leader read_clock_def)

lemma decide_event_cases:
  assumes "decide_event st prev = (ev, pending, s)"
  shows "ev \<Longrightarrow> s = st \<and> \<not> pending \<and> (s = GOSSIP_DOWN \<and> prev = GOSSIP_UP \<or> s = GOSSIP_UP \<and> prev = GOSSIP_DOWN)"
    and "pending \<Longrightarrow> s = st \<and> \<not> ev \<and> s \<in> {GOSSIP_UP, GOSSIP_DOWN} \<and> prev \<noteq> GOSSIP_UP \<and> prev \<noteq> GOSSIP_DOWN"
  using assms by (auto simp: decide_event_def status_defs split: if_splits)

lemma status_nonempty [simp]: "GOSSIP_UP \<noteq> []" "GOSSIP_DOWN \<noteq> []" "GOSSIP_UP \<noteq> GOSSIP_DOWN" "GOSSIP_EMPTY \<noteq> []"
  by (simp_all add: status_defs)

lemmas status_nonempty_sym [simp] = status_nonempty [THEN not_sym]

text \<open>What a decision rests on.\<close>

lemma hasEvent_support:
  assumes "hasEvent q o' clk v n = ((ev, pending, s), n')" and "ev \<or> pending"
    and "go_order (co_reports o')" and "go_order (co_counts o')" and "map_ok (gc_consensus v)" and "0 < qc_quorum q"
  shows "qc_quorum q \<le> int (card (supporters clk n (gc_prevEventTime v) v s))"
proof -
  let ?ss = "fst (fresh_reports clk (gc_prevEventTime v) (map snd (co_reports o' (entries (gc_consensus v)))) n)"
  let ?st = "status_now (co_counts o') (qc_quorum q) ?ss"
  have d: "decide_event ?st (gc_prevConsensus v) = (ev, pending, s)"
    using assms(1) by (simp add: hasEvent_def split_beta Let_def)
  then have s: "s = ?st" "s \<noteq> []"
    using assms(2) decide_event_cases [OF d] by auto
  have "qc_quorum q \<le> int (count_list ?ss s)"
    using status_now_Some [OF assms(4,6)] s by simp
  with fresh_reports_supporters [OF assms(5,3), of clk "gc_prevEventTime v" n s] show ?thesis by linarith
qed

definition count_orders_ok :: "count_orders \<Rightarrow> bool" where
  "count_orders_ok o' \<longleftrightarrow> go_order (co_reports o') \<and> go_order (co_counts o')"

text \<open>The status the reports agree on, seen at the instant \<open>now\<close>.\<close>

definition agreed :: "quorumChecker \<Rightarrow> time \<Rightarrow> time \<Rightarrow> gossipConsensus \<Rightarrow> gossipStatus \<Rightarrow> bool" where
  "agreed q now since v s \<longleftrightarrow> qc_quorum q \<le> int (card (supporters (\<lambda>_. now) 0 since v s))"

text \<open>More than half of the reporting nodes make a quorum.\<close>

definition majority_quorum :: "quorumChecker \<Rightarrow> gossipConsensus \<Rightarrow> bool" where
  "majority_quorum q v \<longleftrightarrow> 0 < qc_quorum q \<and> int (map_len (gc_consensus v)) < 2 * qc_quorum q"

abbreviation counted :: "count_orders \<Rightarrow> time \<Rightarrow> time \<Rightarrow> gossipConsensus \<Rightarrow> nat \<Rightarrow> gossipStatus list" where
  "counted o' now since v n \<equiv>
     fst (fresh_reports (\<lambda>_. now) since (map snd (co_reports o' (entries (gc_consensus v)))) n)"

lemma counted_length:
  assumes "count_orders_ok o'"
  shows "length (counted o' now since v n) \<le> map_len (gc_consensus v)"
proof -
  have "length (co_reports o' (entries (gc_consensus v))) = map_len (gc_consensus v)"
    using assms by (metis count_orders_ok_def go_order_mset map_len_def size_mset)
  then show ?thesis
    unfolding fresh_reports_const by (metis length_filter_le length_map)
qed

lemma status_now_agreed:
  assumes "count_orders_ok o'" and "map_ok (gc_consensus v)" and "majority_quorum q v" and "s \<noteq> []"
  shows "status_now (co_counts o') (qc_quorum q) (counted o' now since v n) = s \<longleftrightarrow> agreed q now since v s"
proof -
  have o: "go_order (co_reports o')" "go_order (co_counts o')" using assms(1) by (simp_all add: count_orders_ok_def)
  have c: "int (count_list (counted o' now since v n) s) = int (card (supporters (\<lambda>_. now) 0 since v s))" for s
    using fresh_reports_supporters_const [OF assms(2) o(1)] by simp
  have q: "0 < qc_quorum q" "int (length (counted o' now since v n)) < 2 * qc_quorum q"
    using counted_length [OF assms(1), of now since v n] assms(3) by (auto simp: majority_quorum_def)
  show ?thesis
    using status_now_Some [OF o(2) q(1), of "counted o' now since v n"] assms(4) c
      status_now_eq [OF o(2) q(1) _ q(2), of s]
    by (auto simp: agreed_def)
qed

lemma hasEvent_agreed:
  assumes "count_orders_ok o'" and "map_ok (gc_consensus v)" and "majority_quorum q v"
    and "fst (hasEvent q o' (\<lambda>_. now) v n) = (ev, pending, s)"
  shows "ev \<longleftrightarrow> (gc_prevConsensus v = GOSSIP_UP \<and> agreed q now (gc_prevEventTime v) v GOSSIP_DOWN
             \<or> gc_prevConsensus v = GOSSIP_DOWN \<and> agreed q now (gc_prevEventTime v) v GOSSIP_UP)"
    and "ev \<Longrightarrow> s = (if gc_prevConsensus v = GOSSIP_UP then GOSSIP_DOWN else GOSSIP_UP)"
    and "ev \<Longrightarrow> \<not> pending"
proof -
  let ?st = "status_now (co_counts o') (qc_quorum q) (counted o' now (gc_prevEventTime v) v n)"
  have d: "decide_event ?st (gc_prevConsensus v) = (ev, pending, s)"
    using assms(4) by (simp add: hasEvent_def split_beta Let_def)
  note a = status_now_agreed [OF assms(1-3), of GOSSIP_UP now "gc_prevEventTime v" n]
    status_now_agreed [OF assms(1-3), of GOSSIP_DOWN now "gc_prevEventTime v" n]
  show "ev \<longleftrightarrow> (gc_prevConsensus v = GOSSIP_UP \<and> agreed q now (gc_prevEventTime v) v GOSSIP_DOWN
             \<or> gc_prevConsensus v = GOSSIP_DOWN \<and> agreed q now (gc_prevEventTime v) v GOSSIP_UP)"
    using d a by (auto simp: decide_event_def split: if_splits)
  show "ev \<Longrightarrow> s = (if gc_prevConsensus v = GOSSIP_UP then GOSSIP_DOWN else GOSSIP_UP)" "ev \<Longrightarrow> \<not> pending"
    using decide_event_cases(1) [OF d] by auto
qed

section \<open>Claims\<close>

text \<open>
  (C12) No decision without a quorum: whatever the iteration orders and the clock readings, when
  \<open>hasEvent\<close> reports an event or a pending status, at least \<open>quorum\<close> different nodes have reported
  exactly that status, each later than the last event and not staler than five minutes at a
  reading of the clock; an event is a change from up to down or from down to up.
\<close>

theorem decision_needs_quorum:
  assumes "hasEvent q o' clk v n = ((ev, pending, s), n')" and "ev \<or> pending"
    and "count_orders_ok o'" and "map_ok (gc_consensus v)" and "0 < qc_quorum q"
  shows "qc_quorum q \<le> int (card {node. \<exists>r. map_get (gc_consensus v) node = Some r \<and> gs_status r = s
        \<and> gs_timeStamp r > UnixNano (gc_prevEventTime v)
        \<and> (\<exists>m\<ge>n. time_Sub (clk m) (gs_timeStamp r) \<le> seconds STALE_INFO_INTERVAL_IN_SECONDS)})
    \<and> (ev \<longrightarrow> (gc_prevConsensus v, s) \<in> {(GOSSIP_UP, GOSSIP_DOWN), (GOSSIP_DOWN, GOSSIP_UP)})
    \<and> (pending \<longrightarrow> s \<in> {GOSSIP_UP, GOSSIP_DOWN} \<and> gc_prevConsensus v \<notin> {GOSSIP_UP, GOSSIP_DOWN})"
proof -
  have "\<exists>st. decide_event st (gc_prevConsensus v) = (ev, pending, s)"
    using assms(1) by (auto simp: hasEvent_def split_beta Let_def)
  then obtain st where "decide_event st (gc_prevConsensus v) = (ev, pending, s)" ..
  note d = decide_event_cases [OF this]
  have "qc_quorum q \<le> int (card (supporters clk n (gc_prevEventTime v) v s))"
    using hasEvent_support [OF assms(1,2)] assms(3-5) by (simp add: count_orders_ok_def)
  with d show ?thesis by (auto simp: supporters_def may_count_def)
qed

text \<open>Three nodes report a key down that was up; the quorum is two.\<close>

definition sample_checker :: quorumChecker where
  "sample_checker = \<lparr>qc_quorum = 2, qc_notificationScript = ''notify.sh'', qc_eventInterval = 60\<rparr>"

definition sample_consensus :: "gossipStatus list \<Rightarrow> gossipConsensus" where
  "sample_consensus ss = zero_consensus\<lparr>gc_prevConsensus := GOSSIP_UP,
     gc_consensus := Some (zip [''n1'', ''n2'', ''n3'', ''n4'']
       (map (\<lambda>s. \<lparr>gs_status = s, gs_timeStamp = 1000\<rparr>) ss))\<rparr>"

definition plain_count :: count_orders where
  "plain_count = \<lparr>co_reports = (\<lambda>xs. xs), co_counts = (\<lambda>xs. xs)\<rparr>"

lemma plain_count_ok: "count_orders_ok plain_count"
  by (simp add: count_orders_ok_def plain_count_def)

lemma three_down: "fst (hasEvent sample_checker plain_count (\<lambda>_. 2000)
    (sample_consensus [GOSSIP_DOWN, GOSSIP_UP, GOSSIP_DOWN]) 0) = (True, False, GOSSIP_DOWN)"
  by code_simp

theorem decision_needs_quorum_witness:
  "2 \<le> int (card {node. \<exists>r. map_get (gc_consensus (sample_consensus [GOSSIP_DOWN, GOSSIP_UP, GOSSIP_DOWN])) node = Some r
        \<and> gs_status r = GOSSIP_DOWN
        \<and> gs_timeStamp r > UnixNano (gc_prevEventTime (sample_consensus [GOSSIP_DOWN, GOSSIP_UP, GOSSIP_DOWN]))
        \<and> time_Sub 2000 (gs_timeStamp r) \<le> seconds STALE_INFO_INTERVAL_IN_SECONDS})"
proof -
  let ?v = "sample_consensus [GOSSIP_DOWN, GOSSIP_UP, GOSSIP_DOWN]"
  obtain n' where h: "hasEvent sample_checker plain_count (\<lambda>_. 2000) ?v 0 = ((True, False, GOSSIP_DOWN), n')"
    using three_down by (metis prod.collapse)
  have "map_ok (gc_consensus ?v)" "0 < qc_quorum sample_checker"
    by (simp_all add: map_ok_def sample_consensus_def sample_checker_def)
  from decision_needs_quorum [OF h _ plain_count_ok this] show ?thesis
    by (simp add: sample_checker_def)
qed

text \<open>
  (C19) With a quorum of more than half of the reporting nodes the decision on a key at an instant
  does not depend on the orders in which Go iterates over the two maps.
\<close>

theorem majority_decides_uniquely:
  assumes "count_orders_ok o1" and "count_orders_ok o2" and "map_ok (gc_consensus v)" and "majority_quorum q v"
  shows "fst (hasEvent q o1 (\<lambda>_. now) v n) = fst (hasEvent q o2 (\<lambda>_. now) v n)
    \<and> fst (emptyRecover q o1 (\<lambda>_. now) v n) = fst (emptyRecover q o2 (\<lambda>_. now) v n)"
proof -
  have o: "go_order (co_reports o1)" "go_order (co_counts o1)" "go_order (co_reports o2)" "go_order (co_counts o2)"
    using assms(1,2) by (simp_all add: count_orders_ok_def)
  have perm: "mset (counted o1 now since v n) = mset (counted o2 now since v n)" for since
    unfolding fresh_reports_const using o by (simp add: go_order_mset)
  have q: "0 < qc_quorum q" "int (length (counted o1 now since v n)) < 2 * qc_quorum q" for since
    using counted_length [OF assms(1), of now since v n] assms(4) by (auto simp: majority_quorum_def)
  have st: "status_now (co_counts o1) (qc_quorum q) (counted o1 now since v n)
      = status_now (co_counts o2) (qc_quorum q) (counted o2 now since v n)" for since
    by (rule status_now_perm [OF o(2,4) perm q])
  have rc: "length (filter counts_as_recovered (counted o1 now since v n))
      = length (filter counts_as_recovered (counted o2 now since v n))" for since
    by (metis perm mset_filter size_mset)
  show ?thesis
    by (simp add: hasEvent_def emptyRecover_def split_beta Let_def st rc)
qed

theorem majority_decides_uniquely_witness:
  "fst (hasEvent sample_checker plain_count (\<lambda>_. 2000) (sample_consensus [GOSSIP_DOWN, GOSSIP_UP, GOSSIP_DOWN]) 0)
   = fst (hasEvent sample_checker \<lparr>co_reports = rev, co_counts = rev\<rparr> (\<lambda>_. 2000)
            (sample_consensus [GOSSIP_DOWN, GOSSIP_UP, GOSSIP_DOWN]) 0)"
proof -
  let ?v = "sample_consensus [GOSSIP_DOWN, GOSSIP_UP, GOSSIP_DOWN]"
  have "count_orders_ok \<lparr>co_reports = rev, co_counts = rev\<rparr>" "map_ok (gc_consensus ?v)" "majority_quorum sample_checker ?v"
    by (simp_all add: count_orders_ok_def map_ok_def sample_consensus_def sample_checker_def majority_quorum_def map_len_def)
  from majority_decides_uniquely [OF plain_count_ok this] show ?thesis by blast
qed

text \<open>
  Without a majority it does: when two nodes report a key up and two report it down and the
  quorum is two, one iteration order sees an event and another sees none.
\<close>

lemma split_vote_depends_on_order:
  "fst (hasEvent sample_checker plain_count (\<lambda>_. 2000)
      (sample_consensus [GOSSIP_UP, GOSSIP_DOWN, GOSSIP_DOWN, GOSSIP_UP]) 0) = (False, False, GOSSIP_UP)
   \<and> fst (hasEvent sample_checker \<lparr>co_reports = (\<lambda>xs. xs), co_counts = rev\<rparr> (\<lambda>_. 2000)
      (sample_consensus [GOSSIP_UP, GOSSIP_DOWN, GOSSIP_DOWN, GOSSIP_UP]) 0) = (True, False, GOSSIP_DOWN)"
  by code_simp

text \<open>
  (C8) When the script is started: on a leader, with the clock standing still and a majority
  quorum, \<open>checkEvent\<close> starts the notification script for a key exactly when the event interval has
  passed since the last event and a quorum of fresh reports contradicts the agreed status. It then
  starts it once, with the new status, after it has proposed the time of the event.
\<close>

theorem checkEvent_starts_script_iff:
  assumes "count_orders_ok o'" and "map_ok (gc_consensus v)" and "majority_quorum q v"
    and "leader_env env" and "qe_clock env = (\<lambda>_. now)"
  shows "let fires = (\<not> time_Sub now (gc_prevEventTime v) < seconds (qc_eventInterval q)
           \<and> (gc_prevConsensus v = GOSSIP_UP \<and> agreed q now (gc_prevEventTime v) v GOSSIP_DOWN
              \<or> gc_prevConsensus v = GOSSIP_DOWN \<and> agreed q now (gc_prevEventTime v) v GOSSIP_UP));
         status = (if gc_prevConsensus v = GOSSIP_UP then GOSSIP_DOWN else GOSSIP_UP);
         t' = checkEvent q env o' cm key v t
     in qt_cmds t' = qt_cmds t @ (if fires then [\<lparr>tc_key = key, tc_status = status, tc_timeout = 60,
            tc_cmd = notificationFormat (qc_notificationScript q) key (cm_Get cm key) status\<rparr>] else [])
       \<and> (fires \<longrightarrow> qt_proposed t' = qt_proposed t @ [entry CMD_NOTIFY_TIME key (FormatInt (UnixNano now))])"
proof -
  obtain ev pending s n' where h: "hasEvent q o' (\<lambda>_. now) v (Suc (qt_clock t)) = ((ev, pending, s), n')"
    by (metis prod.collapse)
  note a = hasEvent_agreed [OF assms(1-3), of now "Suc (qt_clock t)" ev pending s] h
  show ?thesis
    using a assms(4,5)
    by (auto simp: checkEvent_def Let_def too_early_def read_clock_def send_cmd_def propose_time_leader
        notificationScriptTimeout_def)
qed

theorem checkEvent_starts_script_iff_witness:
  "let env = \<lparr>qe_clock = (\<lambda>_. 2000), qe_perm = (\<lambda>_. True), qe_apply = (\<lambda>_. None)\<rparr>;
       v = sample_consensus [GOSSIP_DOWN, GOSSIP_UP, GOSSIP_DOWN];
       t' = checkEvent sample_checker env plain_count NewCacheManager ''k'' v
              \<lparr>qt_clock = 0, qt_perm = 0, qt_apply = 0, qt_proposed = [], qt_cmds = []\<rparr>
   in map tc_status (qt_cmds t') = [GOSSIP_DOWN]"
proof -
  let ?v = "sample_consensus [GOSSIP_DOWN, GOSSIP_UP, GOSSIP_DOWN]"
  let ?env = "\<lparr>qe_clock = (\<lambda>_. 2000), qe_perm = (\<lambda>_. True), qe_apply = (\<lambda>_. None)\<rparr>"
  have h: "map_ok (gc_consensus ?v)" "majority_quorum sample_checker ?v" "leader_env ?env"
    by (simp_all add: map_ok_def sample_consensus_def sample_checker_def majority_quorum_def map_len_def leader_env_def)
  have "agreed sample_checker 2000 (gc_prevEventTime ?v) ?v GOSSIP_DOWN"
    using hasEvent_agreed(1) [OF plain_count_ok h(1,2) three_down] by (simp add: sample_consensus_def)
  moreover have "\<not> time_Sub 2000 (gc_prevEventTime ?v) < seconds (qc_eventInterval sample_checker)"
    by code_simp
  moreover have "gc_prevConsensus ?v = GOSSIP_UP" by (simp add: sample_consensus_def)
  ultimately show ?thesis
    using checkEvent_starts_script_iff [OF plain_count_ok h, of 2000 NewCacheManager "''k''"
        "\<lparr>qt_clock = 0, qt_perm = 0, qt_apply = 0, qt_proposed = [], qt_cmds = []\<rparr>"]
    by (simp add: Let_def)
qed

section \<open>Together with the replicated log\<close>

text \<open>A check that starts a script has proposed one entry, the time it read from the clock.\<close>

lemma checkEvent_fired:
  assumes "leader_env env" and "qt_cmds (checkEvent q env o' cm key v t) \<noteq> qt_cmds t"
  shows "\<exists>m. qt_proposed (checkEvent q env o' cm key v t)
    = qt_proposed t @ [entry CMD_NOTIFY_TIME key (FormatInt (UnixNano (qe_clock env m)))]"
proof -
  obtain ev pending s n' where h: "hasEvent q o' (qe_clock env) v (Suc (qt_clock t)) = ((ev, pending, s), n')"
    by (metis prod.collapse)
  have "\<exists>st. decide_event st (gc_prevConsensus v) = (ev, pending, s)"
    using h by (auto simp: hasEvent_def split_beta Let_def)
  then have "ev \<Longrightarrow> \<not> pending" using decide_event_cases(1) by blast
  then show ?thesis
    using assms h by (auto simp: checkEvent_def Let_def propose_time_leader split: if_splits)
qed

lemma hasEvent_changes: "hasEvent q o' clk v n = ((True, pending, s), n') \<Longrightarrow> gc_prevConsensus v \<noteq> s"
proof -
  assume "hasEvent q o' clk v n = ((True, pending, s), n')"
  then have "\<exists>st. decide_event st (gc_prevConsensus v) = (True, pending, s)"
    by (auto simp: hasEvent_def split_beta Let_def)
  then show ?thesis using decide_event_cases(1) by force
qed

lemma outcome_entry_sel [simp]:
  "le_Cmd (outcome_entry out) \<noteq> CMD_SET" "le_Cmd (outcome_entry out) \<noteq> CMD_DELETE"
  "le_Key (outcome_entry out) = sr_key out"
  by (simp_all add: outcome_entry_def)

lemma run_one_entry:
  assumes "fsm_ok f"
  shows "\<exists>f'. fsm_run [Entry e] f = Ret f' \<and> fsm_ok f' \<and> log_state f' = abs_apply e (log_state f)"
  using apply_entry_refines [OF assms, of e] by auto

lemma time_entry_applied:
  assumes "fsm_ok f"
  shows "\<exists>f'. fsm_run [Entry (entry CMD_NOTIFY_TIME key (FormatInt (UnixNano now)))] f = Ret f'
    \<and> fst (log_view (f_gcm f') key) = UnixNano now"
proof -
  have p: "ParseInt (FormatInt (UnixNano now)) = Some (UnixNano now)"
    by (rule ParseInt_FormatInt) (simp add: UnixNano_def)
  obtain f' where f': "fsm_run [Entry (entry CMD_NOTIFY_TIME key (FormatInt (UnixNano now)))] f = Ret f'"
    "log_state f' = abs_apply (entry CMD_NOTIFY_TIME key (FormatInt (UnixNano now))) (log_state f)"
    using run_one_entry [OF assms] by blast
  then have "log_view (f_gcm f') key =
      apply_fields (entry CMD_NOTIFY_TIME key (FormatInt (UnixNano now))) (log_view (f_gcm f) key)"
    by (simp add: log_state_def abs_apply_def)
  with f'(1) p show ?thesis by (cases "log_view (f_gcm f) key") simp
qed

lemma checkEvent_early:
  assumes "time_Sub (qe_clock env (qt_clock t)) (gc_prevEventTime v) < seconds (qc_eventInterval q)"
  shows "checkEvent q env o' cm key v t = t\<lparr>qt_clock := Suc (qt_clock t)\<rparr>"
  using assms by (simp add: checkEvent_def too_early_def read_clock_def Let_def)


text \<open>A leader at the instant 2000 that sees the three reports.\<close>

definition sample_env2000 :: quorum_env where
  "sample_env2000 = \<lparr>qe_clock = (\<lambda>_. 2000), qe_perm = (\<lambda>_. True), qe_apply = (\<lambda>_. None)\<rparr>"

definition empty_trace :: quorum_trace where
  "empty_trace = \<lparr>qt_clock = 0, qt_perm = 0, qt_apply = 0, qt_proposed = [], qt_cmds = []\<rparr>"

lemma sample_fires: "qt_cmds (checkEvent sample_checker sample_env2000 plain_count NewCacheManager ''k''
    (sample_consensus [GOSSIP_DOWN, GOSSIP_UP, GOSSIP_DOWN]) empty_trace) \<noteq> qt_cmds empty_trace"
  by code_simp


text \<open>
  The outcome is recorded: when the script of a command has run on a node that is still the
  leader and the entry for its outcome is applied, the agreed status of the key is the status that
  was notified (for the two statuses about emptiness, the empty flag is set or cleared), and no
  later check takes the notified status for an event again.
\<close>

lemma notified_status_recorded:
  assumes "fsm_ok f" and "timeout_worker True shell tsc = Some out" and "leader_env env"
  shows "\<exists>f'. fsm_run (map Entry (drop (length (qt_proposed t)) (qt_proposed (quorumCheck2 env out t)))) f = Ret f'
    \<and> (let (et, pc, em, emt) = log_view (f_gcm f') (tc_key tsc) in
        if tc_status tsc = GOSSIP_EMPTY then em
        else if tc_status tsc = GOSSIP_EMPTY_RECOVER then \<not> em
        else pc = tc_status tsc \<and> (\<forall>o2 clk v2 n pending s n'. gc_prevConsensus v2 = pc
               \<and> hasEvent q o2 clk v2 n = ((True, pending, s), n') \<longrightarrow> s \<noteq> tc_status tsc))"
proof -
  have out: "sr_key out = tc_key tsc" "sr_status out = tc_status tsc"
    using assms(2) by (auto simp: timeout_worker_def split_beta Let_def)
  have p: "qt_proposed (quorumCheck2 env out t) = qt_proposed t @ [outcome_entry out]"
    using assms(3) by (simp add: quorumCheck2_def notifyFollower_leader)
  obtain f' where f': "fsm_run [Entry (outcome_entry out)] f = Ret f'"
    "log_state f' = abs_apply (outcome_entry out) (log_state f)"
    using run_one_entry [OF assms(1)] by blast
  have l: "log_view (f_gcm f') (tc_key tsc) = apply_fields (outcome_entry out) (log_view (f_gcm f) (tc_key tsc))"
    using f'(2) by (simp add: log_state_def abs_apply_def out)
  from f'(1) l p show ?thesis
    by (cases "log_view (f_gcm f) (tc_key tsc)") (auto simp: outcome_entry_def out dest: hasEvent_changes)
qed

end
