(* ===== verification/Cluster.thy ===== *)
theory Cluster
  imports Quorum
begin

text \<open>
  \<open>cluster.go\<close> and the start of a node in \<open>stCached.go\<close>: opening the raft stores in order, joining
  an existing cluster over its HTTP interface, and the window in which the HTTP server already
  answers while the raft node does not exist yet. What the operating system and the raft library
  answer is the argument \<open>raft_lib\<close>.
\<close>

section \<open>Paths\<close>

text \<open>\<open>filepath.Join\<close> of two elements, with the lexical processing of \<open>filepath.Clean\<close>.\<close>

fun clean_parts :: "bool \<Rightarrow> string list \<Rightarrow> string list \<Rightarrow> string list" where
  "clean_parts rooted acc [] = rev acc"
| "clean_parts rooted acc (p # ps) =
     (if p = [] \<or> p = ''.'' then clean_parts rooted acc ps
      else if p = ''..'' then
        (case acc of
           [] \<Rightarrow> clean_parts rooted (if rooted then [] else [''..'']) ps
         | q # acc' \<Rightarrow> clean_parts rooted (if q = ''..'' then ''..'' # acc else acc') ps)
      else clean_parts rooted (p # acc) ps)"

definition path_clean :: "string \<Rightarrow> string" where
  "path_clean s =
     (let rooted = (case s of [] \<Rightarrow> False | c # _ \<Rightarrow> c = CHR ''/'');
          body = Join CHR ''/'' (clean_parts rooted [] (Split CHR ''/'' s))
      in if rooted then CHR ''/'' # body else if body = [] then ''.'' else body)"

definition path_join :: "string \<Rightarrow> string \<Rightarrow> string" where
  "path_join dir name =
     (let elems = filter (\<lambda>e. e \<noteq> []) [dir, name]
      in if elems = [] then [] else path_clean (Join CHR ''/'' elems))"

section \<open>The raft node\<close>

record raft_config =
  rc_LocalID :: string
  rc_SnapshotInterval :: duration
  rc_SnapshotThreshold :: int

text \<open>
  The answers of the operating system and of the library: address resolution (an error or the
  address as text), the transport with its local address, and the errors of the other calls.
\<close>

record raft_lib =
  rl_ResolveTCPAddr :: "string \<Rightarrow> string + string"
  rl_NewTCPTransport :: "string \<Rightarrow> string + string"
  rl_MkdirAll :: "string \<Rightarrow> gerror"
  rl_NewFileSnapshotStore :: "string \<Rightarrow> gerror"
  rl_NewBoltStore :: "string \<Rightarrow> gerror"
  rl_NewRaft :: "raft_config \<Rightarrow> gerror"

datatype raft_call =
    Resolve string
  | Transport string
  | Mkdir string
  | SnapshotStore string
  | BoltStore string
  | NewRaft raft_config
  | Bootstrap "(string \<times> string) list"

record raftNodeInfo =
  rn_config :: raft_config
  rn_localAddr :: string

text \<open>
  A call that may fail: its place in the trace, and the rest only when it succeeded. The result is
  the trace of the calls with an error or the node.
\<close>

type_synonym 'a raft_setup = "raft_call list \<times> (string + 'a)"

definition try_call :: "raft_call \<Rightarrow> gerror \<Rightarrow> 'a raft_setup \<Rightarrow> 'a raft_setup" where
  "try_call call err rest =
     (case err of Some e \<Rightarrow> ([call], Inl e) | None \<Rightarrow> (call # fst rest, snd rest))"

definition newRaftTransport :: "raft_lib \<Rightarrow> options \<Rightarrow> string raft_setup" where
  "newRaftTransport lib opts =
     (case rl_ResolveTCPAddr lib (raftTCPAddress opts) of
        Inl e \<Rightarrow> ([Resolve (raftTCPAddress opts)], Inl e)
      | Inr address \<Rightarrow> ([Resolve (raftTCPAddress opts), Transport address], rl_NewTCPTransport lib address))"

definition raft_config_of :: "options \<Rightarrow> raft_config" where
  "raft_config_of opts =
     \<lparr>rc_LocalID = raftTCPAddress opts, rc_SnapshotInterval = seconds 20, rc_SnapshotThreshold = 2\<rparr>"

definition newRaftNode :: "raft_lib \<Rightarrow> options \<Rightarrow> raftNodeInfo raft_setup" where
  "newRaftNode lib opts =
     (let cfg = raft_config_of opts;
          logPath = path_join (dataDir opts) ''raft-log.bolt'';
          stablePath = path_join (dataDir opts) ''raft-stable.bolt'';
          (calls, transport) = newRaftTransport lib opts
      in case transport of
           Inl e \<Rightarrow> (calls, Inl e)
         | Inr localAddr \<Rightarrow>
             (let rest =
                try_call (Mkdir (dataDir opts)) (rl_MkdirAll lib (dataDir opts))
                (try_call (SnapshotStore (dataDir opts)) (rl_NewFileSnapshotStore lib (dataDir opts))
                (try_call (BoltStore logPath) (rl_NewBoltStore lib logPath)
                (try_call (BoltStore stablePath) (rl_NewBoltStore lib stablePath)
                (try_call (NewRaft cfg) (rl_NewRaft lib cfg)
                   (if bootstrap opts then [Bootstrap [(rc_LocalID cfg, localAddr)]] else [],
                    Inr \<lparr>rn_config = cfg, rn_localAddr = localAddr\<rparr>)))))
              in (calls @ fst rest, snd rest)))"

section \<open>Joining\<close>

text \<open>
  \<open>get\<close> is \<open>http.Get\<close> with the reading of the body: an error of either, or the body.
\<close>

definition join_url :: "options \<Rightarrow> string" where
  "join_url opts = ''http://'' @ joinAddress opts @ ''/join?peerAddress='' @ raftTCPAddress opts"

definition joinRaftCluster :: "(string \<Rightarrow> string + string) \<Rightarrow> options \<Rightarrow> gerror" where
  "joinRaftCluster get opts =
     (case get (join_url opts) of
        Inl err \<Rightarrow> Some err
      | Inr body \<Rightarrow>
          if TrimSpace body \<noteq> ''ok'' then Some (''Error joining cluster: '' @ body) else None)"

section \<open>Starting a node\<close>

record stCached =
  st_hs :: httpServer
  st_cm :: cacheManager
  st_gcm :: gossipCacheManager
  st_raft :: "raftNodeInfo option"

datatype start_result = Fatal string | Started stCached

text \<open>\<open>log.Fatal\<close> ends the process. The server answers requests from \<open>serving_state\<close> on.\<close>

definition serving_state :: "gossipCacheManager \<Rightarrow> bool \<Rightarrow> stCached" where
  "serving_state gcm is_common =
     \<lparr>st_hs = fst (NewHttpServer is_common), st_cm = NewCacheManager, st_gcm = gcm, st_raft = None\<rparr>"

definition NewStCachedNode ::
  "(string \<Rightarrow> gerror) \<Rightarrow> raft_lib \<Rightarrow> (string \<Rightarrow> string + string) \<Rightarrow> options \<Rightarrow> gossipCacheManager \<Rightarrow> bool
   \<Rightarrow> raft_call list \<times> start_result" where
  "NewStCachedNode listen lib get opts gcm is_common =
     (case listen (httpAddress opts) of
        Some err \<Rightarrow> ([], Fatal (''listen '' @ httpAddress opts @ '' failed: '' @ err))
      | None \<Rightarrow>
          (let st = serving_state gcm is_common;
               (calls, raft) = newRaftNode lib opts
           in case raft of
                Inl err \<Rightarrow> (calls, Fatal (''new raft node failed:'' @ err))
              | Inr rn \<Rightarrow>
                  (let st' = st\<lparr>st_raft := Some rn\<rparr>
                   in if joinAddress opts \<noteq> []
                      then (case joinRaftCluster get opts of
                              Some err \<Rightarrow> (calls, Fatal (''join raft cluster failed:'' @ err))
                            | None \<Rightarrow> (calls, Started st'))
                      else (calls, Started st'))))"

section \<open>Serving requests\<close>

text \<open>
  Which handlers follow the pointer \<open>st.raft\<close> for a request: the writers to name the leader or
  to call the library, and the ones that ask for the raft configuration.
\<close>

definition uses_raft :: "httpServer \<Rightarrow> route \<Rightarrow> request \<Rightarrow> bool" where
  "uses_raft h rt r =
     (let perm = checkWritePermission h; q = rq_query r in
      case rt of
        R_set \<Rightarrow> \<not> perm \<or> (q ''key'' \<noteq> [] \<and> q ''value'' \<noteq> [])
      | R_del \<Rightarrow> \<not> perm \<or> q ''key'' \<noteq> []
      | R_join \<Rightarrow> \<not> perm \<or> q ''peerAddress'' \<noteq> []
      | R_leave \<Rightarrow> \<not> perm \<or> q ''peerAddress'' \<noteq> []
      | R_leader \<Rightarrow> True
      | R_raftnodes \<Rightarrow> True
      | R_membersconsensus \<Rightarrow> True
      | _ \<Rightarrow> False)"

text \<open>The dispatch to the handlers of the store and of the clusters.\<close>

definition raft_handler :: "stCached \<Rightarrow> env \<Rightarrow> route \<Rightarrow> request \<Rightarrow> response option" where
  "raft_handler st env rt r =
     (case rt of
        R_set \<Rightarrow> Some (doSet (st_hs st) env r)
      | R_get \<Rightarrow> Some (doGet (st_cm st) r)
      | R_del \<Rightarrow> Some (doDel (st_hs st) env r)
      | R_join \<Rightarrow> Some (doJoin (st_hs st) env r)
      | R_leave \<Rightarrow> Some (doLeave (st_hs st) env r)
      | R_gossipjoin \<Rightarrow> Some (doGossipJoin env r)
      | R_gossipleave \<Rightarrow> Some (doGossipLeave env)
      | R_status \<Rightarrow> Some (doStatus (st_cm st))
      | R_statuskey \<Rightarrow> Some (doStatusForKey (st_cm st) r)
      | R_leader \<Rightarrow> Some (doLeader env)
      | R_membersconsensus \<Rightarrow> Some (doMembersConsensus env)
      | R_gossipnodes \<Rightarrow> Some (doGossipNodes env)
      | R_raftnodes \<Rightarrow> Some (doNodes env)
      | _ \<Rightarrow> None)"

definition serve :: "stCached \<Rightarrow> env \<Rightarrow> route \<Rightarrow> request \<Rightarrow> response option go" where
  "serve st env rt r =
     (if st_raft st = None \<and> uses_raft (st_hs st) rt r then Panic NilDereference
      else Ret (raft_handler st env rt r))"

section \<open>Lemmas\<close>

lemma TrimRightSpace_prefix: "prefix (TrimRightSpace s) s"
proof (induction s rule: TrimRightSpace.induct)
  case (1 s)
  show ?case
  proof (cases "find (\<lambda>w. suffix w s) space_runes")
    case None
    then show ?thesis by (simp add: TrimRightSpace.simps)
  next
    case (Some w)
    with 1 have "prefix (TrimRightSpace (take (length s - length w) s)) s"
      using take_is_prefix prefix_order.trans by blast
    with Some show ?thesis by (subst TrimRightSpace.simps) simp
  qed
qed

lemma TrimLeftSpace_letter:
  assumes "c \<notin> hd ` set space_runes"
  shows "TrimLeftSpace (c # s) = c # s"
proof -
  have "\<not> prefix w (c # s)" if "w \<in> set space_runes" for w
    using assms that space_runes_nonempty [OF that] by (cases w) force+
  then have "find (\<lambda>w. prefix w (c # s)) space_runes = None"
    unfolding find_None_iff by blast
  then show ?thesis by (subst TrimLeftSpace.simps) simp
qed

lemma TrimSpace_not_ok:
  assumes "c \<notin> hd ` set space_runes" and "c \<noteq> CHR ''o''"
  shows "TrimSpace (c # s) \<noteq> ''ok''"
proof
  assume "TrimSpace (c # s) = ''ok''"
  then have "prefix ''ok'' (c # s)"
    using TrimRightSpace_prefix [of "c # s"] TrimLeftSpace_letter [OF assms(1)] by (simp add: TrimSpace_def)
  with assms(2) show False by simp
qed

lemma letters_no_space: "CHR ''r'' \<notin> hd ` set space_runes" "CHR ''i'' \<notin> hd ` set space_runes"
  by code_simp+

lemma TrimSpace_ok: "TrimSpace (''ok'' @ nl) = ''ok''"
  by code_simp

text \<open>What the leader's handler makes of a request to join, as the joining node reads it.\<close>

lemma doJoin_ok_iff:
  "TrimSpace (rs_body (doJoin h env r)) = ''ok'' \<longleftrightarrow>
     checkWritePermission h \<and> rq_query r ''peerAddress'' \<noteq> [] \<and> ev_AddVoter env (rq_query r ''peerAddress'') = None"
proof -
  have n: "TrimSpace (''raft join'' @ t) \<noteq> ''ok''" "TrimSpace (''invalid'' @ t) \<noteq> ''ok''"
    "TrimSpace (''internal'' @ t) \<noteq> ''ok''" for t
    unfolding append_Cons
    by (rule TrimSpace_not_ok [OF letters_no_space(1)] TrimSpace_not_ok [OF letters_no_space(2)], simp)+
  have "TrimSpace (rs_body (not_allowed ''raft join'' env)) \<noteq> ''ok''"
    "TrimSpace (''invalid peerAddress'' @ nl) \<noteq> ''ok''" "TrimSpace internal_error \<noteq> ''ok''"
    using n(1) [of "'' method not allowed, leader is '' @ ev_Leader env @ nl"] n(2) [of "'' peerAddress'' @ nl"]
      n(3) [of "'' error'' @ nl"] by (simp_all add: not_allowed_def internal_error_def)
  then show ?thesis
    using TrimSpace_ok unfolding doJoin_def Let_def
    by (cases "ev_AddVoter env (rq_query r ''peerAddress'')") (simp_all del: append_Cons append.simps)
qed

lemma newRaftNode_result:
  "snd (newRaftNode lib opts) =
     (let cfg = raft_config_of opts; dir = dataDir opts in
      case snd (newRaftTransport lib opts) of
        Inl e \<Rightarrow> Inl e
      | Inr localAddr \<Rightarrow>
          (case List.find (\<lambda>e. e \<noteq> None)
             [rl_MkdirAll lib dir, rl_NewFileSnapshotStore lib dir, rl_NewBoltStore lib (path_join dir ''raft-log.bolt''),
              rl_NewBoltStore lib (path_join dir ''raft-stable.bolt''), rl_NewRaft lib cfg] of
             Some e \<Rightarrow> Inl (the e)
           | None \<Rightarrow> Inr \<lparr>rn_config = cfg, rn_localAddr = localAddr\<rparr>))"
  by (cases "snd (newRaftTransport lib opts)")
    (simp_all add: newRaftNode_def try_call_def split_beta Let_def split: option.split)

section \<open>Claims\<close>

text \<open>
  (C34) A node that was told to join starts exactly when its listener and its raft node come up and
  the asked node is the leader, gets a non-empty address and has its raft library accept the
  address as a voter; in every other case, asking a follower included, the process ends. Here the
  body of the joining node's request is what \<open>doJoin\<close> of the asked node answers to the peer
  address of the joining node.
\<close>

theorem started_iff_accepted:
  assumes "joinAddress opts \<noteq> []" and "rq_query r ''peerAddress'' = raftTCPAddress opts"
    and "get (join_url opts) = Inr (rs_body (doJoin leader env r))"
  shows "(\<exists>st. snd (NewStCachedNode listen lib get opts gcm is_common) = Started st \<and> st_raft st \<noteq> None) \<longleftrightarrow>
     listen (httpAddress opts) = None \<and> (\<exists>rn. snd (newRaftNode lib opts) = Inr rn)
     \<and> checkWritePermission leader \<and> raftTCPAddress opts \<noteq> [] \<and> ev_AddVoter env (raftTCPAddress opts) = None"
  using assms doJoin_ok_iff [of leader env r]
  by (auto simp: NewStCachedNode_def joinRaftCluster_def Let_def split_beta split: option.splits sum.splits)

definition sample_lib :: raft_lib where
  "sample_lib = \<lparr>rl_ResolveTCPAddr = (\<lambda>a. Inr a), rl_NewTCPTransport = (\<lambda>a. Inr a), rl_MkdirAll = (\<lambda>_. None),
     rl_NewFileSnapshotStore = (\<lambda>_. None), rl_NewBoltStore = (\<lambda>_. None), rl_NewRaft = (\<lambda>_. None)\<rparr>"

definition joining_opts :: options where
  "joining_opts = (NewOptions (\<lambda>_. None))\<lparr>joinAddress := ''10.0.0.1:6000''\<rparr>"

definition join_request :: request where
  "join_request = \<lparr>rq_query = (\<lambda>_. ''127.0.0.1:7000''), rq_vars = (\<lambda>_. [])\<rparr>"

theorem started_iff_accepted_witness:
  "(\<exists>st. snd (NewStCachedNode (\<lambda>_. None) sample_lib
      (\<lambda>_. Inr (rs_body (doJoin (setWriteFlag \<lparr>hs_enableWrite = 0\<rparr> True) sample_env join_request)))
      joining_opts NewGossipCacheManager True) = Started st \<and> st_raft st \<noteq> None)
   \<and> \<not> (\<exists>st. snd (NewStCachedNode (\<lambda>_. None) sample_lib
      (\<lambda>_. Inr (rs_body (doJoin (setWriteFlag \<lparr>hs_enableWrite = 0\<rparr> False) sample_env join_request)))
      joining_opts NewGossipCacheManager True) = Started st \<and> st_raft st \<noteq> None)"
proof -
  have o: "joinAddress joining_opts \<noteq> []" "rq_query join_request ''peerAddress'' = raftTCPAddress joining_opts"
    by code_simp+
  have n: "\<exists>rn. snd (newRaftNode sample_lib joining_opts) = Inr rn"
    unfolding newRaftNode_result by (simp add: newRaftTransport_def sample_lib_def Let_def)
  have c: "raftTCPAddress joining_opts \<noteq> []" "ev_AddVoter sample_env (raftTCPAddress joining_opts) = None"
    "checkWritePermission (setWriteFlag \<lparr>hs_enableWrite = 0\<rparr> True)"
    "\<not> checkWritePermission (setWriteFlag \<lparr>hs_enableWrite = 0\<rparr> False)"
    by code_simp+
  let ?get = "\<lambda>h (_ :: string). Inr (rs_body (doJoin h sample_env join_request)) :: string + string"
  have j: "?get h (join_url joining_opts) = Inr (rs_body (doJoin h sample_env join_request))" for h by simp
  show ?thesis
    unfolding started_iff_accepted [OF o j] using n c by blast
qed


text \<open>The two bolt files of a node are different ones: opening one twice would wait for its lock.\<close>

lemma stores_differ_default:
  "path_join (dataDir (NewOptions (\<lambda>_. None))) ''raft-log.bolt'' = ''node1/raft-log.bolt''"
  "path_join (dataDir (NewOptions (\<lambda>_. None))) ''raft-stable.bolt'' = ''node1/raft-stable.bolt''"
  by (simp_all add: path_join_def path_clean_def NewOptions_def flag_String_def)

end
