(* ===== verification/Service.thy ===== *)
theory Service
  imports Cluster
begin

text \<open>
  \<open>main.go\<close>: the parts of a node put together. The state of a service is the store, the bridge
  with the gossip table and the gossip node, the verifier with its detector, the HTTP server's
  write flag, and the items its goroutines hold on the way through the unbuffered channels. One
  step is one locked operation of one goroutine, so that the steps of a run are the interleavings
  of all goroutines that \<open>main\<close> starts, of the raft library's calls into the state machine and of
  the gossip library's calls into the delegate.
\<close>

section \<open>State\<close>

text \<open>
  Where the scavenger is in its round: it has copied the store, it has the deletions left to do in
  the table, or those left to do in the detector.
\<close>

datatype sweep =
    Sweep_idle
  | Sweep_data "(string, string) gomap"
  | Sweep_table "(string, string) gomap" "deletion list"
  | Sweep_detector "string list"

record service =
  sv_cm :: cacheManager
  sv_bridge :: bridge
  sv_cv :: commonVerifier
  sv_hs :: httpServer
  sv_qc :: quorumChecker
  sv_inputs :: "verifyInput list"
  sv_pinged :: "verifyInput list"
  sv_outputs :: "verifyOutput list"
  sv_cmds :: "timeoutShellCmd list"
  sv_results :: "shellCmdResult list"
  sv_proposed :: "logEntryData list"
  sv_sweep :: sweep
  sv_checks :: "(string \<times> gossipConsensus) list"
  sv_pings :: nat

abbreviation sv_gcm :: "service \<Rightarrow> gossipCacheManager" where
  "sv_gcm s \<equiv> b_gcm (sv_bridge s)"

abbreviation sv_gnode :: "service \<Rightarrow> gossipNode" where
  "sv_gnode s \<equiv> b_gnode (sv_bridge s)"

abbreviation sv_detector :: "service \<Rightarrow> Detector" where
  "sv_detector s \<equiv> cv_detector (sv_cv s)"

definition put_gcm :: "gossipCacheManager \<Rightarrow> service \<Rightarrow> service" where
  "put_gcm c s = s\<lparr>sv_bridge := (sv_bridge s)\<lparr>b_gcm := c\<rparr>\<rparr>"

definition put_delegate :: "MyDelegate \<Rightarrow> service \<Rightarrow> service" where
  "put_delegate d s = s\<lparr>sv_bridge := (sv_bridge s)\<lparr>b_gnode := (sv_gnode s)\<lparr>gn_delegate := d\<rparr>\<rparr>\<rparr>"

definition put_events :: "MyEventDelegate \<Rightarrow> service \<Rightarrow> service" where
  "put_events e s = s\<lparr>sv_bridge := (sv_bridge s)\<lparr>b_gnode := (sv_gnode s)\<lparr>gn_events := e\<rparr>\<rparr>\<rparr>"

definition put_detector :: "Detector \<Rightarrow> service \<Rightarrow> service" where
  "put_detector d s = s\<lparr>sv_cv := (sv_cv s)\<lparr>cv_detector := d\<rparr>\<rparr>"

definition drop_nth :: "nat \<Rightarrow> 'a list \<Rightarrow> 'a list" where
  "drop_nth i xs = take i xs @ drop (Suc i) xs"

section \<open>Start\<close>

text \<open>
  An error of the gossip node is raised as a panic, one of the store's node ends the process with
  a message (\<open>Inl\<close>). Entries the raft library replays are steps after the start.
\<close>

definition main ::
  "(gossip_config \<Rightarrow> gerror) \<Rightarrow> (string list \<Rightarrow> gerror) \<Rightarrow> (string \<Rightarrow> gerror) \<Rightarrow> raft_lib
   \<Rightarrow> (string \<Rightarrow> string + string) \<Rightarrow> (string \<Rightarrow> flag_value option) \<Rightarrow> (string + service) go" where
  "main create join listen lib get args =
     (let opts = NewOptions args;
          veri = NewCommonVerifier opts
      in go_bind (NewGossipNode create join (gossipTCPAddress opts) (gossipJoinAddress opts)) (\<lambda>r.
         case r of
           Inl err \<Rightarrow> Panic (Explicit err)
         | Inr gnode \<Rightarrow>
             (case snd (NewStCachedNode listen lib get opts NewGossipCacheManager True) of
                Fatal msg \<Rightarrow> Ret (Inl msg)
              | Started st \<Rightarrow>
                  Ret (Inr \<lparr>sv_cm = st_cm st,
                       sv_bridge = \<lparr>b_gcm = st_gcm st, b_gnode = gnode, b_lastTimeStamp = 0\<rparr>,
                       sv_cv = veri, sv_hs = st_hs st,
                       sv_qc = \<lparr>qc_quorum = gossipQuorum opts, qc_notificationScript = notificationScript opts,
                                qc_eventInterval = eventInterval opts\<rparr>,
                       sv_inputs = [], sv_pinged = [], sv_outputs = [], sv_cmds = [], sv_results = [],
                       sv_proposed = [], sv_sweep = Sweep_idle, sv_checks = [], sv_pings = 0\<rparr>))))"

section \<open>Steps\<close>

datatype action =
    A_Leadership | A_Round | A_Ping | A_Phi string | A_Verdict string
  | A_Receive string | A_Transmit | A_Members | A_Consume | A_Sweep
  | A_Apply string | A_Restore | A_Quorum | A_Script | A_Outcome

text \<open>
  The result of a step is a panic or the next state. A verification worker takes two steps, since
  \<open>Ping\<close> and \<open>Phi\<close> lock the detector separately; a round of the scavenger takes one step for each of
  its copies and deletions, one of the quorum check a step for the copy and one for every key. The number of verifications is kept below
  \<open>2 ^ 63\<close>, where the index of a sample window would wrap around. The raft library restores only
  what \<open>Persist\<close> has written, and that is never the document \<open>null\<close>.
\<close>

inductive service_step :: "service \<Rightarrow> action \<Rightarrow> service go \<Rightarrow> bool" where
  leadership: "service_step s A_Leadership (Ret (s\<lparr>sv_hs := monitorLeadrship (sv_hs s) leader\<rparr>))"
| round: "go_order ord1 \<Longrightarrow> go_order ord2 \<Longrightarrow>
    service_step s A_Round (Ret (s\<lparr>sv_inputs := sv_inputs s @ makeGossip1 ord1 ord2 (sv_cm s)\<rparr>))"
| ping: "i < length (sv_inputs s) \<Longrightarrow> Suc (sv_pings s) < 2 ^ 63 \<Longrightarrow>
    service_step s A_Ping
      (go_bind (d_Ping (sv_detector s) (cv_verificationScript (sv_cv s)) (sv_inputs s ! i) shell now) (\<lambda>d.
       Ret ((put_detector d s)\<lparr>sv_inputs := drop_nth i (sv_inputs s),
              sv_pinged := sv_pinged s @ [sv_inputs s ! i], sv_pings := Suc (sv_pings s)\<rparr>)))"
| phi: "i < length (sv_pinged s) \<Longrightarrow> go_order ord \<Longrightarrow> input = sv_pinged s ! i \<Longrightarrow>
    service_step s (A_Phi (vi_key input))
      (go_bind (d_Phi ord (sv_detector s) (vi_key input)) (\<lambda>status.
       Ret (s\<lparr>sv_pinged := drop_nth i (sv_pinged s),
              sv_outputs := sv_outputs s @ [\<lparr>vo_key = vi_key input, vo_value = vi_value input, vo_status = status\<rparr>]\<rparr>)))"
| verdict: "i < length (sv_outputs s) \<Longrightarrow> out = sv_outputs s ! i \<Longrightarrow>
    service_step s (A_Verdict (vo_key out))
      (go_bind (makeGossip2 (sv_bridge s) now out) (\<lambda>(b, _, _).
       Ret (s\<lparr>sv_bridge := b, sv_outputs := drop_nth i (sv_outputs s)\<rparr>)))"
| receive: "service_step s (A_Receive bytes)
      (go_bind (dl_NotifyMsg (gn_delegate (sv_gnode s)) bytes) (\<lambda>d. Ret (put_delegate d s)))"
| transmit: "service_step s A_Transmit
      (go_bind (dl_GetBroadcasts ceil_log10 (ed_Num (gn_events (sv_gnode s))) (gn_delegate (sv_gnode s)) overhead limit)
        (\<lambda>(d, _). Ret (put_delegate d s)))"
| members: "e \<in> {ed_NotifyJoin, ed_NotifyLeave, ed_NotifyUpdate} \<Longrightarrow>
    service_step s A_Members (Ret (put_events (e (gn_events (sv_gnode s))) s))"
| consume: "service_step s A_Consume (go_bind (consumeGossip (sv_bridge s)) (\<lambda>b. Ret (s\<lparr>sv_bridge := b\<rparr>)))"
| sweep_store: "sv_sweep s = Sweep_idle \<Longrightarrow> go_order ord \<Longrightarrow>
    service_step s A_Sweep (Ret (s\<lparr>sv_sweep := Sweep_data (cm_Clone ord (sv_cm s))\<rparr>))"
| sweep_table: "sv_sweep s = Sweep_data data \<Longrightarrow> go_order ordk \<Longrightarrow> go_order ordn \<Longrightarrow>
    service_step s A_Sweep
      (Ret (s\<lparr>sv_sweep := Sweep_table data
         (table_plan ordn data (gn_Members nodes) (ordk (entries (gcm_Clone ordk ordn (sv_gcm s)))))\<rparr>))"
| sweep_delete: "sv_sweep s = Sweep_table data (x # xs) \<Longrightarrow>
    service_step s A_Sweep
      (go_bind (do_deletion x (sv_gcm s)) (\<lambda>c. Ret ((put_gcm c s)\<lparr>sv_sweep := Sweep_table data xs\<rparr>)))"
| sweep_detector: "sv_sweep s = Sweep_table data [] \<Longrightarrow> go_order ordw \<Longrightarrow> go_order ords \<Longrightarrow>
    service_step s A_Sweep
      (Ret (s\<lparr>sv_sweep := Sweep_detector
         (detector_plan data (map fst (ords (entries (d_Clone ordw (sv_detector s))))))\<rparr>))"
| sweep_forget: "sv_sweep s = Sweep_detector (key # keys) \<Longrightarrow>
    service_step s A_Sweep
      (Ret ((put_detector (d_DelKey (sv_detector s) key) s)\<lparr>sv_sweep := Sweep_detector keys\<rparr>))"
| sweep_end: "sv_sweep s = Sweep_detector [] \<Longrightarrow> service_step s A_Sweep (Ret (s\<lparr>sv_sweep := Sweep_idle\<rparr>))"
| apply_entry: "service_step s (A_Apply bytes)
      (go_bind (Apply \<lparr>f_cm = sv_cm s, f_gcm = sv_gcm s\<rparr> bytes) (\<lambda>(_, f).
       Ret ((put_gcm (f_gcm f) s)\<lparr>sv_cm := f_cm f\<rparr>)))"
| restore: "decode_first bytes \<noteq> Some JNull \<Longrightarrow>
    service_step s A_Restore
      (Ret (s\<lparr>sv_cm := f_cm (snd (Restore \<lparr>f_cm = sv_cm s, f_gcm = sv_gcm s\<rparr> bytes))\<rparr>))"
| quorum_copy: "sv_checks s = [] \<Longrightarrow> checkWritePermission (sv_hs s) \<Longrightarrow> go_order ordk \<Longrightarrow> go_order ordn \<Longrightarrow>
    service_step s A_Quorum
      (Ret (s\<lparr>sv_checks := ordk (entries (gcm_Clone ordk ordn (sv_gcm s)))\<rparr>))"
| quorum_key: "sv_checks s = kv # kvs \<Longrightarrow>
    t = check_keys (sv_qc s) env o' (sv_cm s) [kv]
        \<lparr>qt_clock = 0, qt_perm = 0, qt_apply = 0, qt_proposed = [], qt_cmds = []\<rparr> \<Longrightarrow>
    service_step s A_Quorum
      (Ret (s\<lparr>sv_checks := kvs, sv_cmds := sv_cmds s @ qt_cmds t, sv_proposed := sv_proposed s @ qt_proposed t\<rparr>))"
| script: "i < length (sv_cmds s) \<Longrightarrow>
    r = timeout_worker (checkWritePermission (sv_hs s)) shell (sv_cmds s ! i) \<Longrightarrow>
    service_step s A_Script
      (Ret (s\<lparr>sv_cmds := drop_nth i (sv_cmds s),
              sv_results := sv_results s @ (case r of None \<Rightarrow> [] | Some x \<Rightarrow> [x])\<rparr>))"
| outcome: "i < length (sv_results s) \<Longrightarrow>
    t = quorumCheck2 \<lparr>qe_clock = clk, qe_perm = (\<lambda>_. checkWritePermission (sv_hs s)), qe_apply = answers\<rparr> (sv_results s ! i)
        \<lparr>qt_clock = 0, qt_perm = 0, qt_apply = 0, qt_proposed = [], qt_cmds = []\<rparr> \<Longrightarrow>
    service_step s A_Outcome
      (Ret (s\<lparr>sv_results := drop_nth i (sv_results s), sv_proposed := sv_proposed s @ qt_proposed t\<rparr>))"

inductive service_run :: "service \<Rightarrow> service \<Rightarrow> bool" for s0 where
  start: "service_run s0 s0"
| next_step: "service_run s0 s \<Longrightarrow> service_step s a (Ret s') \<Longrightarrow> service_run s0 s'"

section \<open>Invariant\<close>

definition det_ok :: "nat \<Rightarrow> Detector \<Rightarrow> bool" where
  "det_ok n d \<longleftrightarrow> d_minSamples d = 3 \<and> (\<exists>H. d_rep 5 H d \<and> (\<forall>k. length (history H k) \<le> n))"

definition service_ok :: "service \<Rightarrow> bool" where
  "service_ok s \<longleftrightarrow> cm_ok (sv_cm s) \<and> gcm_ok (sv_gcm s) \<and> node_ok (sv_gnode s) \<and> det_ok (sv_pings s) (sv_detector s)"

text \<open>The panics a step may raise, each with its cause in the state or in the input.\<close>

fun explained :: "service \<Rightarrow> action \<Rightarrow> panic \<Rightarrow> bool" where
  "explained s (A_Phi key) p \<longleftrightarrow> p = NilDereference \<and> map_get (d_w (sv_detector s)) key = None"
| "explained s (A_Verdict key) p \<longleftrightarrow> p = NilMapWrite \<and> nil_reports (sv_gcm s) key"
| "explained s A_Consume p \<longleftrightarrow> p = NilMapWrite \<and> (\<exists>m \<in> set (inbox (sv_bridge s)). nil_reports (sv_gcm s) (msg_Key m))"
| "explained s (A_Receive bytes) p \<longleftrightarrow> p = NilDereference \<and> unmarshal bytes = Some JNull"
| "explained s (A_Apply bytes) p \<longleftrightarrow>
     p = Explicit ''Failed unmarshaling Raft log entry. This is a bug.'' \<and> decode_entry bytes = None"
| "explained s _ p \<longleftrightarrow> False"

subsection \<open>The detector\<close>

lemma det_ok_New: "det_ok 0 (NewDetector 5 3)"
  using d_rep_New [of 5 3] by (auto simp: det_ok_def history_def NewDetector_def)

lemma det_ok_Ping:
  assumes "det_ok n d" and "Suc n < 2 ^ 63"
  shows "\<exists>d'. d_Ping d script input shell now = Ret d' \<and> det_ok (Suc n) d'"
proof -
  obtain H where H: "d_rep 5 H d" "\<forall>k. length (history H k) \<le> n" "d_minSamples d = 3"
    using assms(1) by (auto simp: det_ok_def)
  then have "Suc (length (history H (vi_key input))) < 2 ^ 63" using assms(2) by (meson Suc_le_mono le_less_trans)
  from d_Ping_rep [OF H(1) this, of script shell now] obtain d' where
    d': "d_Ping d script input shell now = Ret d'" "d_minSamples d' = d_minSamples d"
      "d_rep 5 (H(vi_key input \<mapsto> history H (vi_key input) @ [ping_sample script input shell now])) d'" by blast
  have "length (history (H(vi_key input \<mapsto> history H (vi_key input) @ [ping_sample script input shell now])) k) \<le> Suc n" for k
    using H(2) by (auto simp: history_def le_SucI split: option.splits)
  with d' H(3) show ?thesis by (auto simp: det_ok_def)
qed

lemma det_ok_Phi:
  assumes "det_ok n d" and "go_order ord"
  shows "(\<exists>w st. map_get (d_w d) key = Some w \<and> d_Phi ord d key = Ret st)
    \<or> map_get (d_w d) key = None \<and> d_Phi ord d key = Panic NilDereference"
proof (cases "map_get (d_w d) key")
  case (Some w)
  from assms(1) Some obtain h where "wd_rep 5 h w" "d_minSamples d = int 3"
    by (auto simp: det_ok_def d_rep_def)
  from d_Phi_spec [OF assms(2) Some this] Some show ?thesis by simp
qed (simp add: d_Phi_def)

lemma det_ok_DelKey: "det_ok n d \<Longrightarrow> det_ok n (d_DelKey d key)"
proof -
  assume "det_ok n d"
  then obtain H where H: "d_rep 5 H d" "\<forall>k. length (history H k) \<le> n" "d_minSamples d = 3"
    by (auto simp: det_ok_def)
  have "length (history (H(key := None)) k) \<le> n" for k using H(2) by (simp add: history_def)
  with d_DelKey_rep [OF H(1), of key] H(3) show ?thesis by (auto simp: det_ok_def d_DelKey_def)
qed

subsection \<open>The table and the queue\<close>

lemma nil_reports_put:
  assumes "gcm_put c key g = Ret c'"
  shows "nil_reports c' k \<longleftrightarrow> (if k = key then gc_consensus g = None else nil_reports c k)"
proof -
  from assms obtain m where "map_set (gcm_data c) key g = Ret m" "c' = c\<lparr>gcm_data := m\<rparr>"
    by (auto simp: gcm_put_def go_bind_eq_Ret)
  with map_set_Ret(1) [of "gcm_data c" key g m] show ?thesis by (simp add: nil_reports_def)
qed

lemma map_set_not_nil: "map_set m k v = Ret m' \<Longrightarrow> m' \<noteq> None"
  by (cases m) auto

lemma nil_reports_Set:
  "gcm_Set c key val node t st = Ret (c', out) \<Longrightarrow> nil_reports c' k \<Longrightarrow> nil_reports c k"
  by (auto simp: gcm_Set_def Let_def go_bind_eq_Ret nil_reports_put
      dest: map_set_not_nil split: option.splits if_splits)

text \<open>Entering a report in a well-formed table.\<close>

lemma set_and_broadcast_ok:
  assumes "gcm_ok c" and "node_ok n"
  shows "nil_reports c key \<and> set_and_broadcast c n key val node t st = Panic NilMapWrite
    \<or> (\<exists>c' n'. set_and_broadcast c n key val node t st = Ret (c', n') \<and> gcm_ok c' \<and> node_ok n'
          \<and> (\<forall>k. nil_reports c' k \<longrightarrow> nil_reports c k))"
proof (cases "nil_reports c key")
  case True
  then show ?thesis by (simp add: set_and_broadcast_def gcm_Set_nil)
next
  case False
  obtain c' where c': "gcm_Set c key val node t st = Ret (c', if is_news c key node t then [report_msg t node key val st] else [])"
    "gcm_ok c'"
    using gcm_Set_ok [OF assms(1) False, where val = val and node = node and t = t and st = st] by blast
  obtain n1 where "gn_SetBroadcasts n [report_msg t node key val st] = Ret n1" "node_ok n1"
    using gn_SetBroadcasts_one [OF assms(2)] by blast
  then have "\<exists>n'. gn_SetBroadcasts n (if is_news c key node t then [report_msg t node key val st] else []) = Ret n' \<and> node_ok n'"
    using assms(2) by (auto simp: gn_SetBroadcasts_def)
  with c' nil_reports_Set [OF c'(1)] show ?thesis by (auto simp: set_and_broadcast_def)
qed

lemma consume_loop_ok:
  "gcm_ok c \<Longrightarrow> node_ok n \<Longrightarrow>
   (\<exists>m \<in> set ms. nil_reports c (msg_Key m)) \<and> consume_loop c n ms = Panic NilMapWrite
   \<or> (\<exists>c' n'. consume_loop c n ms = Ret (c', n') \<and> gcm_ok c' \<and> node_ok n')"
proof (induction ms arbitrary: c n)
  case (Cons m ms)
  consider "nil_reports c (msg_Key m)"
      "set_and_broadcast c n (msg_Key m) (msg_Value m) (msg_Node m) (msg_TimeStamp m) (msg_Status m) = Panic NilMapWrite"
    | c1 n1 where "set_and_broadcast c n (msg_Key m) (msg_Value m) (msg_Node m) (msg_TimeStamp m) (msg_Status m) = Ret (c1, n1)"
      "gcm_ok c1" "node_ok n1" "\<forall>k. nil_reports c1 k \<longrightarrow> nil_reports c k"
    using set_and_broadcast_ok [OF Cons.prems] by metis
  then show ?case
  proof cases
    case (2 c1 n1)
    with Cons.IH [OF 2(2,3)] show ?thesis by auto
  qed simp
qed simp

lemma consumeGossip_ok:
  assumes "gcm_ok (b_gcm b)" and "node_ok (b_gnode b)"
  shows "(\<exists>m \<in> set (inbox b). nil_reports (b_gcm b) (msg_Key m)) \<and> consumeGossip b = Panic NilMapWrite
    \<or> (\<exists>b'. consumeGossip b = Ret b' \<and> gcm_ok (b_gcm b') \<and> node_ok (b_gnode b'))"
proof -
  let ?n = "fst (gn_GetMessages (b_gnode b))"
  have "node_ok ?n" and "snd (gn_GetMessages (b_gnode b)) = inbox b"
    using assms(2) by (simp_all add: node_ok_def node_queue_def gn_GetMessages_def dl_getMessages_def inbox_def)
  with consume_loop_ok [OF assms(1), of ?n "inbox b"] show ?thesis
    by (fastforce simp: consumeGossip_def split_beta Let_def)
qed

lemma makeGossip2_ok:
  assumes "gcm_ok (b_gcm b)" and "node_ok (b_gnode b)"
  shows "nil_reports (b_gcm b) (vo_key out) \<and> makeGossip2 b now out = Panic NilMapWrite
    \<or> (\<exists>b' h1 h2. makeGossip2 b now out = Ret (b', h1, h2) \<and> gcm_ok (b_gcm b') \<and> node_ok (b_gnode b'))"
  using set_and_broadcast_ok [OF assms, of "vo_key out" "vo_value out" "gn_addr (b_gnode b)" "next_stamp b now" "vo_status out"]
  by (auto simp: makeGossip2_def Let_def)

lemma GetBroadcasts_plain:
  assumes "plain_queue q"
  shows "\<exists>r. GetBroadcasts ops ceil_log10 n q overhead limit = Ret r \<and> plain_queue (fst r)"
proof (cases "q_items q = []")
  case True
  with assms show ?thesis by (simp add: GetBroadcasts_def lenLocked_def)
next
  case False
  define tlim where "tlim = retransmitLimit ceil_log10 (q_RetransmitMult q) n"
  define g where "g = get_loop ops overhead limit tlim (snd (getTransmitRange q)) (start_state q)"
  have "tree_sorted (q_items q)" using assms by (simp add: plain_queue_def)
  then have "\<exists>picks. moved ops tlim (q_items q) picks g"
    unfolding g_def by (intro get_loop_moved) (blast intro: moved_start)
  then obtain picks where m: "moved ops tlim (q_items q) picks g" ..
  have "q_tq q \<noteq> None" using False by (auto simp: q_items_def split: option.splits)
  then have tq: "q_tq (g_queue g) \<noteq> None"
    unfolding g_def by (intro get_loop_tq) (simp add: start_state_def)
  have "set (q_items q) = set picks \<union> set (q_items (g_queue g))"
    using m by (metis moved_def set_mset_mset set_mset_union)
  then have names: "\<forall>x \<in> set (g_reinsert g) \<union> set (q_items (g_queue g)). lb_name x = []"
    using m assms by (auto simp: moved_def plain_queue_def)
  have fold: "tree_sorted xs \<Longrightarrow> tree_sorted (fold tree_insert ys xs)
      \<and> set (fold tree_insert ys xs) \<subseteq> set ys \<union> set xs" for ys xs :: "'a limitedBroadcast list"
  proof (induction ys arbitrary: xs)
    case (Cons y ys)
    from Cons.IH [OF tree_sorted_insert [OF Cons.prems]] set_tree_insert [of y xs] show ?case by fastforce
  qed simp
  let ?q = "(g_queue g)\<lparr>q_tq := Some (fold tree_insert (g_reinsert g) (q_items (g_queue g)))\<rparr>"
  have "plain_queue ?q"
    using fold [of "q_items (g_queue g)" "g_reinsert g"] names m by (auto simp: plain_queue_def q_items_def moved_def)
  moreover have "fold (\<lambda>cur r. go_bind r (\<lambda>q. addItem q cur)) (g_reinsert g) (Ret (g_queue g)) = Ret ?q"
    using names tq by (intro fold_addItem_plain) auto
  ultimately show ?thesis
    using False by (simp add: GetBroadcasts_def lenLocked_def Let_def split_beta g_def tlim_def start_state_def)
qed

subsection \<open>The store\<close>

lemma store_string_map_distinct:
  "store_string_map ms m = Some xs \<Longrightarrow> distinct (map fst m) \<Longrightarrow> distinct (map fst xs)"
  by (induction ms m rule: store_string_map.induct) (auto simp: distinct_update split: option.splits)

lemma Restore_ok:
  assumes "cm_ok (f_cm f)" and "decode_first bytes \<noteq> Some JNull"
  shows "cm_ok (f_cm (snd (Restore f bytes)))"
  using assms store_string_map_distinct [of _ "[]"]
  by (auto simp: Restore_def cm_UnMarshal_def cm_ok_def map_alive_def map_ok_def split: option.splits json.splits)

subsection \<open>Every step\<close>

lemmas put_defs = put_gcm_def put_delegate_def put_events_def put_detector_def

definition fine :: "service \<Rightarrow> action \<Rightarrow> service go \<Rightarrow> bool" where
  "fine s a r \<longleftrightarrow> (case r of Inl p \<Rightarrow> explained s a p | Inr s' \<Rightarrow> service_ok s')"

lemma step_ping:
  assumes "service_ok s" and "Suc (sv_pings s) < 2 ^ 63"
  shows "fine s A_Ping (go_bind (d_Ping (sv_detector s) script input shell now) (\<lambda>d.
    Ret ((put_detector d s)\<lparr>sv_inputs := xs, sv_pinged := ys, sv_pings := Suc (sv_pings s)\<rparr>)))"
  using assms det_ok_Ping [of "sv_pings s" "sv_detector s" script input shell now]
  by (auto simp: service_ok_def fine_def put_defs)

lemma step_phi:
  assumes "service_ok s" and "go_order ord"
  shows "fine s (A_Phi key) (go_bind (d_Phi ord (sv_detector s) key) (\<lambda>st. Ret (s\<lparr>sv_pinged := xs, sv_outputs := f st\<rparr>)))"
  using assms det_ok_Phi [of "sv_pings s" "sv_detector s" ord key] by (auto simp: service_ok_def fine_def)

lemma step_verdict:
  assumes "service_ok s"
  shows "fine s (A_Verdict (vo_key out)) (go_bind (makeGossip2 (sv_bridge s) now out) (\<lambda>(b, _, _).
    Ret (s\<lparr>sv_bridge := b, sv_outputs := xs\<rparr>)))"
  using assms makeGossip2_ok [of "sv_bridge s" out now] by (auto simp: service_ok_def fine_def)

lemma step_receive:
  assumes "service_ok s"
  shows "fine s (A_Receive bytes)
    (go_bind (dl_NotifyMsg (gn_delegate (sv_gnode s)) bytes) (\<lambda>d. Ret (put_delegate d s)))"
  using assms
  by (auto simp: service_ok_def fine_def put_defs dl_NotifyMsg_def ParseMyBroadcastMessage_def node_ok_def
      node_queue_def split: option.splits json.splits)

lemma step_transmit:
  assumes "service_ok s"
  shows "fine s A_Transmit (go_bind (dl_GetBroadcasts ceil_log10 num (gn_delegate (sv_gnode s)) overhead limit)
    (\<lambda>(d, _). Ret (put_delegate d s)))"
proof -
  obtain q msgs fin where "GetBroadcasts msg_ops ceil_log10 num (dl_broadcasts (gn_delegate (sv_gnode s))) overhead limit = Ret (q, msgs, fin)"
    "plain_queue q"
    using GetBroadcasts_plain [of "dl_broadcasts (gn_delegate (sv_gnode s))"] assms
    by (fastforce simp: service_ok_def node_ok_def node_queue_def)
  with assms show ?thesis
    by (simp add: dl_GetBroadcasts_def fine_def put_defs service_ok_def node_ok_def node_queue_def)
qed

lemma step_consume:
  assumes "service_ok s"
  shows "fine s A_Consume (go_bind (consumeGossip (sv_bridge s)) (\<lambda>b. Ret (s\<lparr>sv_bridge := b\<rparr>)))"
  using assms consumeGossip_ok [of "sv_bridge s"] by (auto simp: service_ok_def fine_def)

lemma step_sweep_delete:
  assumes "service_ok s"
  shows "fine s A_Sweep (go_bind (do_deletion x (sv_gcm s)) (\<lambda>c. Ret ((put_gcm c s)\<lparr>sv_sweep := w\<rparr>)))"
  using assms do_deletion_ok [of "sv_gcm s" x] by (auto simp: fine_def put_defs service_ok_def)

lemma step_sweep_forget:
  assumes "service_ok s"
  shows "fine s A_Sweep (Ret ((put_detector (d_DelKey (sv_detector s) key) s)\<lparr>sv_sweep := w\<rparr>))"
  using assms by (simp add: fine_def put_defs service_ok_def det_ok_DelKey)

lemma step_apply:
  assumes "service_ok s"
  shows "fine s (A_Apply bytes) (go_bind (Apply \<lparr>f_cm = sv_cm s, f_gcm = sv_gcm s\<rparr> bytes)
    (\<lambda>(_, f). Ret ((put_gcm (f_gcm f) s)\<lparr>sv_cm := f_cm f\<rparr>)))"
proof (cases "decode_entry bytes")
  case (Some e)
  have "fsm_ok \<lparr>f_cm = sv_cm s, f_gcm = sv_gcm s\<rparr>" using assms by (simp add: fsm_ok_def service_ok_def)
  from apply_entry_refines [OF this, of e] Some assms show ?thesis
    by (auto simp: Apply_def fine_def put_defs service_ok_def fsm_ok_def)
qed (simp add: Apply_def fine_def)

lemma service_step_fine: "service_step s a r \<Longrightarrow> service_ok s \<Longrightarrow> fine s a r"
proof (induction rule: service_step.induct)
  case (restore bytes s)
  with Restore_ok [of "\<lparr>f_cm = sv_cm s, f_gcm = sv_gcm s\<rparr>" bytes] show ?case
    by (simp add: fine_def service_ok_def)
next
  case (members e s)
  then show ?case by (simp add: fine_def service_ok_def put_defs node_ok_def node_queue_def)
qed (simp_all only: step_ping step_phi step_verdict step_receive step_transmit step_consume step_sweep_delete
     step_sweep_forget step_apply,
     simp_all add: fine_def service_ok_def)

lemma service_run_ok: "service_run s0 s \<Longrightarrow> service_ok s0 \<Longrightarrow> service_ok s"
  by (induction rule: service_run.induct) (auto dest: service_step_fine simp: fine_def)

lemma new_delegate_plain: "plain_queue (dl_broadcasts (new_delegate addr))"
  by (simp add: new_delegate_def new_queue_def plain_queue_def q_items_def tree_sorted_def)

lemma NewGossipNode_ok:
  assumes "NewGossipNode create join addr cluster = Ret (Inr gnode)"
  shows "node_ok gnode"
proof -
  from assms obtain host p where
    "(case Atoi p of None \<Rightarrow> Ret (Inl ''invalid port'')
      | Some port \<Rightarrow>
          (case create \<lparr>conf_Name = addr, conf_BindAddr = host, conf_BindPort = port\<rparr> of
             Some e \<Rightarrow> Ret (Inl e)
           | None \<Rightarrow>
               (case join [if cluster = [] then addr else cluster] of
                  Some e \<Rightarrow> Ret (Inl e)
                | None \<Rightarrow> Ret (Inr \<lparr>gn_addr = addr, gn_delegate = new_delegate addr, gn_events = \<lparr>ed_Num = 0\<rparr>\<rparr>))))
      = Ret (Inr gnode)"
    unfolding NewGossipNode_def Let_def go_bind_eq_Ret by blast
  then have "gn_delegate gnode = new_delegate addr"
    by (cases "Atoi p"; cases "create \<lparr>conf_Name = addr, conf_BindAddr = host, conf_BindPort = the (Atoi p)\<rparr>";
        cases "join [if cluster = [] then addr else cluster]") auto
  then show ?thesis using new_delegate_plain by (simp add: node_ok_def node_queue_def)
qed

lemma NewStCachedNode_caches:
  "snd (NewStCachedNode listen lib get opts gcm b) = Started st \<Longrightarrow> st_cm st = NewCacheManager \<and> st_gcm st = gcm"
  by (auto simp: NewStCachedNode_def serving_state_def Let_def split_beta split: option.splits sum.splits if_splits)

lemma main_parts:
  assumes "main create join listen lib get args = Ret (Inr s)"
  obtains gnode where "node_ok gnode" and "sv_cm s = NewCacheManager"
    and "sv_bridge s = \<lparr>b_gcm = NewGossipCacheManager, b_gnode = gnode, b_lastTimeStamp = 0\<rparr>"
    and "sv_cv s = NewCommonVerifier (NewOptions args)" and "sv_pings s = 0"
proof -
  obtain gnode st where g: "NewGossipNode create join (gossipTCPAddress (NewOptions args)) (gossipJoinAddress (NewOptions args)) = Ret (Inr gnode)"
    and st: "snd (NewStCachedNode listen lib get (NewOptions args) NewGossipCacheManager True) = Started st"
    and s: "sv_cm s = st_cm st" "sv_bridge s = \<lparr>b_gcm = st_gcm st, b_gnode = gnode, b_lastTimeStamp = 0\<rparr>"
      "sv_cv s = NewCommonVerifier (NewOptions args)" "sv_pings s = 0"
    using assms
    by (cases "NewGossipNode create join (gossipTCPAddress (NewOptions args)) (gossipJoinAddress (NewOptions args))")
      (auto simp: main_def Let_def split: sum.split_asm start_result.split_asm)
  then show ?thesis
    using that [of gnode] NewGossipNode_ok [OF g] NewStCachedNode_caches [OF st] by simp
qed

lemma main_ok:
  assumes "main create join listen lib get args = Ret (Inr s)"
  shows "service_ok s"
  using assms
proof (rule main_parts)
  fix gnode
  assume "node_ok gnode" "sv_cm s = NewCacheManager" "sv_cv s = NewCommonVerifier (NewOptions args)" "sv_pings s = 0"
    "sv_bridge s = \<lparr>b_gcm = NewGossipCacheManager, b_gnode = gnode, b_lastTimeStamp = 0\<rparr>"
  then show ?thesis
    using det_ok_New cm_ok_New gcm_live_ok [OF gcm_live_New] by (simp add: service_ok_def NewCommonVerifier_def)
qed

section \<open>Claims\<close>

text \<open>
  (C10) Every reachable state of a started node is well-formed, whatever the interleaving of its
  goroutines, the messages and log entries it receives and the answers of its scripts: the store
  and the gossip table are live maps with distinct keys, the broadcast queue is an ordered tree,
  and every sample window of the detector represents the history of its key.
\<close>

theorem reachable_states_well_formed:
  assumes "main create join listen lib get args = Ret (Inr s0)" and "service_run s0 s"
  shows "service_ok s"
  using service_run_ok [OF assms(2) main_ok [OF assms(1)]] .

definition sample_main :: "(string + service) go" where
  "sample_main = main (\<lambda>_. None) (\<lambda>_. None) (\<lambda>_. None) sample_lib (\<lambda>_. Inl []) (\<lambda>_. None)"

lemma sample_main_starts: "\<exists>s0. sample_main = Ret (Inr s0)"
proof -
  have "NewGossipNode (\<lambda>_. None) (\<lambda>_. None) (gossipTCPAddress (NewOptions (\<lambda>_. None))) (gossipJoinAddress (NewOptions (\<lambda>_. None)))
      = Ret (Inr \<lparr>gn_addr = ''127.0.0.1:8000'', gn_delegate = new_delegate ''127.0.0.1:8000'', gn_events = \<lparr>ed_Num = 0\<rparr>\<rparr>)"
    by code_simp
  moreover have "snd (newRaftNode sample_lib (NewOptions (\<lambda>_. None)))
      = Inr \<lparr>rn_config = raft_config_of (NewOptions (\<lambda>_. None)), rn_localAddr = raftTCPAddress (NewOptions (\<lambda>_. None))\<rparr>"
    unfolding newRaftNode_result by (simp add: newRaftTransport_def sample_lib_def Let_def)
  ultimately show ?thesis
    by (simp add: sample_main_def main_def Let_def NewStCachedNode_def split_beta NewOptions_defaults)
qed

theorem reachable_states_well_formed_witness:
  "\<exists>s0 s. sample_main = Ret (Inr s0) \<and> service_run s0 s \<and> hs_enableWrite (sv_hs s) = 1 \<and> service_ok s"
proof -
  obtain s0 where s0: "sample_main = Ret (Inr s0)" using sample_main_starts by blast
  let ?s = "s0\<lparr>sv_hs := monitorLeadrship (sv_hs s0) True\<rparr>"
  have run: "service_run s0 ?s" by (rule service_run.next_step [OF service_run.start service_step.leadership])
  have "service_ok ?s" using reachable_states_well_formed [OF s0 [unfolded sample_main_def] run] .
  then show ?thesis
    using s0 run by (intro exI [of _ s0] exI [of _ ?s]) (simp add: monitorLeadrship_def setWriteFlag_def ENABLE_WRITE_TRUE_def)
qed



end
