(* ===== verification/Replication.thy ===== *)
theory Replication
  imports Service
begin

text \<open>
  Several nodes with one replicated log. The raft library promises that every node is given the
  committed entries in the order of the log, or a snapshot and the entries after its index. A node
  takes its own steps in between. The steps are the calls that \<open>runFSM\<close> of the raft library (its
  \<open>fsm.go\<close>) makes: \<open>Apply\<close> for a committed command, \<open>Restore\<close> for a snapshot, whose index becomes the
  node's index when there is no error, and \<open>Snapshot\<close>, for which it notes the index; \<open>Persist\<close> writes
  the store later, concurrently, when more entries may have been applied.
\<close>

section \<open>The store a log determines\<close>

definition store_apply :: "logEntryData \<Rightarrow> (string \<rightharpoonup> string) \<Rightarrow> (string \<rightharpoonup> string)" where
  "store_apply e m =
     (if le_Cmd e = CMD_SET then m(le_Key e \<mapsto> le_Value e)
      else if le_Cmd e = CMD_DELETE then m(le_Key e := None) else m)"

definition store_at :: "logEntryData list \<Rightarrow> nat \<Rightarrow> string \<rightharpoonup> string" where
  "store_at es n = fold store_apply (take n es) Map.empty"

lemma store_at_0 [simp]: "store_at es 0 = Map.empty"
  by (simp add: store_at_def)

lemma store_at_Suc: "n < length es \<Longrightarrow> store_at es (Suc n) = store_apply (es ! n) (store_at es n)"
  by (simp add: store_at_def take_Suc_conv_app_nth)

lemma store_at_append: "n \<le> length es \<Longrightarrow> store_at (es @ fs) n = store_at es n"
  by (simp add: store_at_def)

lemma fst_abs_apply: "fst (abs_apply e s) = store_apply e (fst s)"
  by (simp add: abs_apply_def store_apply_def)

text \<open>
  A view is between two indices when the value of every key is one it had at some index between
  them; different keys may be at different indices.
\<close>

definition between :: "logEntryData list \<Rightarrow> nat \<Rightarrow> nat \<Rightarrow> (string \<rightharpoonup> string) \<Rightarrow> bool" where
  "between es i j v \<longleftrightarrow> i \<le> j \<and> j \<le> length es \<and> (\<forall>k. \<exists>n. i \<le> n \<and> n \<le> j \<and> v k = store_at es n k)"

lemma between_same: "between es i i v \<longleftrightarrow> i \<le> length es \<and> v = store_at es i"
  by (auto simp: between_def fun_eq_iff dest: le_antisym)

lemma between_mono: "between es i j v \<Longrightarrow> i' \<le> i \<Longrightarrow> j \<le> j' \<Longrightarrow> j' \<le> length es \<Longrightarrow> between es i' j' v"
  unfolding between_def by (meson le_trans)

lemma between_append: "between es i j v \<Longrightarrow> between (es @ fs) i j v"
  unfolding between_def by (auto simp: store_at_append) (metis le_trans store_at_append)

text \<open>Applying the entry at the lower index moves that index on.\<close>

lemma between_apply:
  assumes b: "between es i j v" and i: "i < length es"
  shows "between es (Suc i) (max (Suc i) j) (store_apply (es ! i) v)"
proof -
  have "\<exists>n. Suc i \<le> n \<and> n \<le> max (Suc i) j \<and> store_apply (es ! i) v k = store_at es n k" for k
  proof -
    obtain n where n: "i \<le> n" "n \<le> j" "v k = store_at es n k" using b by (auto simp: between_def)
    show ?thesis
    proof (cases "n = i \<or> store_apply (es ! i) v k \<noteq> v k")
      case True
      then have "store_apply (es ! i) v k = store_at es (Suc i) k"
        using n i by (auto simp: store_at_Suc store_apply_def split: if_splits)
      then show ?thesis by (intro exI [of _ "Suc i"]) simp
    next
      case False
      with n show ?thesis by (intro exI [of _ n]) auto
    qed
  qed
  with b i show ?thesis by (auto simp: between_def)
qed

section \<open>Clusters\<close>

text \<open>
  \<open>rp_applied\<close> is the number of entries given to the node, or the index of the snapshot it restored
  last and the entries after it. \<open>rp_until\<close> and the second part of a snapshot note how far ahead of the
  index the written store may have been; no step depends on them.
\<close>

record replica =
  rp_service :: service
  rp_applied :: nat
  rp_until :: nat

record cluster =
  cl_log :: "logEntryData list"
  cl_nodes :: "replica list"
  cl_snaps :: "(nat \<times> nat \<times> string) list"

definition started :: "service \<Rightarrow> bool" where
  "started s \<longleftrightarrow> (\<exists>create join listen lib get args. main create join listen lib get args = Ret (Inr s))"

definition fresh_replica :: "service \<Rightarrow> replica" where
  "fresh_replica s = \<lparr>rp_service = s, rp_applied = 0, rp_until = 0\<rparr>"

fun local_action :: "action \<Rightarrow> bool" where
  "local_action (A_Apply bytes) = False"
| "local_action A_Restore = False"
| "local_action _ = True"

inductive cluster_step :: "cluster \<Rightarrow> cluster \<Rightarrow> bool" where
  commit: "ascii_entry e \<Longrightarrow> cluster_step cl (cl\<lparr>cl_log := cl_log cl @ [e]\<rparr>)"
| local: "i < length (cl_nodes cl) \<Longrightarrow> r = cl_nodes cl ! i \<Longrightarrow> local_action a \<Longrightarrow>
    service_step (rp_service r) a (Ret s) \<Longrightarrow>
    cluster_step cl (cl\<lparr>cl_nodes := (cl_nodes cl)[i := r\<lparr>rp_service := s\<rparr>]\<rparr>)"
| deliver: "i < length (cl_nodes cl) \<Longrightarrow> r = cl_nodes cl ! i \<Longrightarrow> rp_applied r < length (cl_log cl) \<Longrightarrow>
    service_step (rp_service r) (A_Apply (encode_entry (cl_log cl ! rp_applied r))) (Ret s) \<Longrightarrow>
    cluster_step cl (cl\<lparr>cl_nodes := (cl_nodes cl)[i := r\<lparr>rp_service := s, rp_applied := Suc (rp_applied r)\<rparr>]\<rparr>)"
| persist: "i < length (cl_nodes cl) \<Longrightarrow> r = cl_nodes cl ! i \<Longrightarrow> idx \<le> rp_applied r \<Longrightarrow>
    Persist (sv_cm (rp_service r)) sink = (None, Some bytes, False) \<Longrightarrow>
    cluster_step cl (cl\<lparr>cl_snaps := (idx, max (rp_applied r) (rp_until r), bytes) # cl_snaps cl\<rparr>)"
| install: "i < length (cl_nodes cl) \<Longrightarrow> r = cl_nodes cl ! i \<Longrightarrow> (idx, ahead, bytes) \<in> set (cl_snaps cl) \<Longrightarrow>
    s = rp_service r \<Longrightarrow> Restore \<lparr>f_cm = sv_cm s, f_gcm = sv_gcm s\<rparr> bytes = (None, f) \<Longrightarrow>
    cluster_step cl (cl\<lparr>cl_nodes := (cl_nodes cl)[i := \<lparr>rp_service = s\<lparr>sv_cm := f_cm f\<rparr>, rp_applied = idx, rp_until = ahead\<rparr>]\<rparr>)"
| install_fails: "i < length (cl_nodes cl) \<Longrightarrow> r = cl_nodes cl ! i \<Longrightarrow> (idx, ahead, bytes) \<in> set (cl_snaps cl) \<Longrightarrow>
    s = rp_service r \<Longrightarrow> Restore \<lparr>f_cm = sv_cm s, f_gcm = sv_gcm s\<rparr> bytes = (Some err, f) \<Longrightarrow>
    cluster_step cl (cl\<lparr>cl_nodes := (cl_nodes cl)[i := r\<lparr>rp_service := s\<lparr>sv_cm := f_cm f\<rparr>\<rparr>]\<rparr>)"
| restart: "i < length (cl_nodes cl) \<Longrightarrow> started s \<Longrightarrow>
    cluster_step cl (cl\<lparr>cl_nodes := (cl_nodes cl)[i := fresh_replica s]\<rparr>)"

inductive cluster_run :: "service list \<Rightarrow> cluster \<Rightarrow> bool" for ss where
  boot: "cluster_run ss \<lparr>cl_log = [], cl_nodes = map fresh_replica ss, cl_snaps = []\<rparr>"
| move: "cluster_run ss cl \<Longrightarrow> cluster_step cl cl' \<Longrightarrow> cluster_run ss cl'"

section \<open>Invariant\<close>

definition ascii_view :: "(string \<rightharpoonup> string) \<Rightarrow> bool" where
  "ascii_view v \<longleftrightarrow> (\<forall>k x. v k = Some x \<longrightarrow> ascii k \<and> ascii x)"

definition replica_ok :: "logEntryData list \<Rightarrow> replica \<Rightarrow> bool" where
  "replica_ok es r \<longleftrightarrow> service_ok (rp_service r)
     \<and> between es (rp_applied r) (max (rp_applied r) (rp_until r)) (cm_view (sv_cm (rp_service r)))"

definition snap_ok :: "logEntryData list \<Rightarrow> nat \<times> nat \<times> string \<Rightarrow> bool" where
  "snap_ok es = (\<lambda>(idx, ahead, bytes). \<exists>c. bytes = cm_Marshal c \<and> cm_ok c \<and> cm_ascii c \<and> between es idx ahead (cm_view c))"

definition cluster_ok :: "cluster \<Rightarrow> bool" where
  "cluster_ok cl \<longleftrightarrow> list_all ascii_entry (cl_log cl) \<and> list_all (replica_ok (cl_log cl)) (cl_nodes cl)
     \<and> list_all (snap_ok (cl_log cl)) (cl_snaps cl)"

lemma store_apply_ascii: "ascii_view v \<Longrightarrow> ascii_entry e \<Longrightarrow> ascii_view (store_apply e v)"
  by (simp add: ascii_view_def ascii_entry_def store_apply_def)

lemma store_at_ascii: "list_all ascii_entry es \<Longrightarrow> ascii_view (store_at es n)"
proof (induction n)
  case (Suc n)
  then show ?case
    by (cases "n < length es") (simp_all add: store_at_Suc store_apply_ascii list_all_length, simp add: store_at_def)
qed (simp add: ascii_view_def)

lemma between_ascii: "between es i j v \<Longrightarrow> list_all ascii_entry es \<Longrightarrow> ascii_view v"
  unfolding ascii_view_def between_def by (metis ascii_view_def store_at_ascii)

lemma cm_ascii_view: "cm_ok c \<Longrightarrow> cm_ascii c \<longleftrightarrow> ascii_view (cm_view c)"
  by (auto simp: cm_ascii_def ascii_view_def list_all_iff cm_view_def cm_ok_def map_get_iff_entry)

lemma replica_ok_append: "replica_ok es r \<Longrightarrow> replica_ok (es @ fs) r"
  by (simp add: replica_ok_def between_append)

lemma snap_ok_append: "snap_ok es x \<Longrightarrow> snap_ok (es @ fs) x"
  by (auto simp: snap_ok_def between_append)

lemma list_all_update: "list_all P xs \<Longrightarrow> P x \<Longrightarrow> list_all P (xs[i := x])"
  by (auto simp: list_all_iff dest!: subsetD [OF set_update_subset_insert])

lemma local_keeps_store: "service_step s a r \<Longrightarrow> local_action a \<Longrightarrow> r = Ret s' \<Longrightarrow> sv_cm s' = sv_cm s"
  by (induction rule: service_step.induct)
    (auto simp: put_defs go_bind_eq_Ret)

lemma step_keeps_ok: "service_step s a (Ret s') \<Longrightarrow> service_ok s \<Longrightarrow> service_ok s'"
  using service_step_fine by (force simp: fine_def)

inductive_cases apply_stepE: "service_step s (A_Apply bytes) r"

lemma deliver_store:
  assumes "service_step s (A_Apply (encode_entry e)) (Ret s')" and "service_ok s" and "ascii_entry e"
  shows "cm_view (sv_cm s') = store_apply e (cm_view (sv_cm s))"
proof -
  let ?f = "\<lparr>f_cm = sv_cm s, f_gcm = sv_gcm s\<rparr>"
  have ok: "fsm_ok ?f" using assms(2) by (simp add: fsm_ok_def service_ok_def)
  obtain f where f: "apply_entry e ?f = Ret (None, f)" "log_state f = abs_apply e (log_state ?f)"
    using apply_entry_refines [OF ok, of e] by blast
  have "Ret s' = go_bind (Apply ?f (encode_entry e)) (\<lambda>(_, f). Ret ((put_gcm (f_gcm f) s)\<lparr>sv_cm := f_cm f\<rparr>))"
    using assms(1) by (auto elim: apply_stepE)
  then have "sv_cm s' = f_cm f"
    using f(1) decode_encode_entry [OF assms(3)] by (simp add: Apply_def)
  moreover have "fst (log_state f) = store_apply e (fst (log_state ?f))"
    using f(2) fst_abs_apply by simp
  ultimately show ?thesis by (simp add: log_state_def)
qed

lemma started_ok: "started s \<Longrightarrow> service_ok s \<and> cm_view (sv_cm s) = Map.empty"
  unfolding started_def
proof (elim exE)
  fix create join listen lib get args
  assume m: "main create join listen lib get args = Ret (Inr s)"
  then have "sv_cm s = NewCacheManager" by (rule main_parts)
  then show ?thesis using main_ok [OF m] by (simp add: cm_view_def NewCacheManager_def fun_eq_iff)
qed

lemma fresh_replica_ok: "started s \<Longrightarrow> replica_ok es (fresh_replica s)"
  using started_ok [of s] by (simp add: replica_ok_def fresh_replica_def between_same)

lemma persist_snap_ok:
  assumes r: "replica_ok es r" and es: "list_all ascii_entry es" and "idx \<le> rp_applied r"
    and "Persist (sv_cm (rp_service r)) sink = (None, Some bytes, False)"
  shows "snap_ok es (idx, max (rp_applied r) (rp_until r), bytes)"
proof -
  let ?c = "sv_cm (rp_service r)"
  have b: "between es (rp_applied r) (max (rp_applied r) (rp_until r)) (cm_view ?c)" and ok: "cm_ok ?c"
    using r by (simp_all add: replica_ok_def service_ok_def)
  have "bytes = cm_Marshal ?c"
    using assms(4) by (simp add: Persist_def Let_def split: option.splits)
  moreover have "cm_ascii ?c" using cm_ascii_view [OF ok] between_ascii [OF b es] by simp
  moreover have "between es idx (max (rp_applied r) (rp_until r)) (cm_view ?c)"
    using b assms(3) by (rule between_mono) (use b in \<open>auto simp: between_def\<close>)
  ultimately show ?thesis using ok by (auto simp: snap_ok_def)
qed

text \<open>A written snapshot is restored without an error.\<close>

lemma restore_snap:
  assumes "snap_ok es (idx, ahead, bytes)"
  obtains c where "Restore f bytes = (None, f\<lparr>f_cm := c\<rparr>)" and "cm_ok c" and "between es idx ahead (cm_view c)"
proof -
  obtain c where c: "bytes = cm_Marshal c" "cm_ok c" "cm_ascii c" "between es idx ahead (cm_view c)"
    using assms by (auto simp: snap_ok_def)
  obtain c' where "cm_UnMarshal (f_cm f) bytes = (None, c')" "cm_ok c'" "cm_view c' = cm_view c"
    unfolding c(1) by (rule cm_UnMarshal_Marshal [OF c(2,3)])
  with that [of c'] c(4) show thesis by (simp add: Restore_def)
qed

lemma install_replica_ok:
  assumes "service_ok s" and "snap_ok es (idx, ahead, bytes)"
    and "Restore \<lparr>f_cm = sv_cm s, f_gcm = sv_gcm s\<rparr> bytes = (None, f)"
  shows "replica_ok es \<lparr>rp_service = s\<lparr>sv_cm := f_cm f\<rparr>, rp_applied = idx, rp_until = ahead\<rparr>"
proof -
  obtain c where r: "Restore \<lparr>f_cm = sv_cm s, f_gcm = sv_gcm s\<rparr> bytes = (None, \<lparr>f_cm = sv_cm s, f_gcm = sv_gcm s\<rparr>\<lparr>f_cm := c\<rparr>)"
    and c: "cm_ok c" "between es idx ahead (cm_view c)"
    by (rule restore_snap [OF assms(2)])
  then have "f_cm f = c" using assms(3) by auto
  moreover have "max idx ahead = ahead" using c(2) by (simp add: between_def)
  ultimately show ?thesis using assms(1) c by (simp add: replica_ok_def service_ok_def)
qed

lemma cluster_step_ok: "cluster_step cl cl' \<Longrightarrow> cluster_ok cl \<Longrightarrow> cluster_ok cl'"
proof (induction rule: cluster_step.induct)
  case (commit e cl)
  then show ?case
    by (auto simp: cluster_ok_def replica_ok_append snap_ok_append elim!: list.pred_mono_strong)
next
  case (local i cl r a s)
  then have "replica_ok (cl_log cl) r" by (simp add: cluster_ok_def list_all_length)
  then have "replica_ok (cl_log cl) (r\<lparr>rp_service := s\<rparr>)"
    using local_keeps_store [OF local(4,3) refl] step_keeps_ok [OF local(4)] by (simp add: replica_ok_def)
  with local(5) show ?case by (simp add: cluster_ok_def list_all_update)
next
  case (deliver i cl r s)
  then have r: "replica_ok (cl_log cl) r" and e: "ascii_entry (cl_log cl ! rp_applied r)"
    by (simp_all add: cluster_ok_def list_all_length)
  then have ok: "service_ok (rp_service r)" by (simp add: replica_ok_def)
  have "between (cl_log cl) (Suc (rp_applied r)) (max (Suc (rp_applied r)) (max (rp_applied r) (rp_until r))) (cm_view (sv_cm s))"
    unfolding deliver_store [OF deliver(4) ok e]
    using r by (intro between_apply [OF _ deliver(3)]) (simp add: replica_ok_def)
  moreover have "max (Suc n) (max n m) = max (Suc n) m" for n m :: nat by simp
  ultimately have "between (cl_log cl) (Suc (rp_applied r)) (max (Suc (rp_applied r)) (rp_until r)) (cm_view (sv_cm s))"
    by simp
  then have "replica_ok (cl_log cl) (r\<lparr>rp_service := s, rp_applied := Suc (rp_applied r)\<rparr>)"
    using step_keeps_ok [OF deliver(4) ok] by (simp add: replica_ok_def)
  with deliver(5) show ?case by (simp add: cluster_ok_def list_all_update)
next
  case (persist i cl r idx sink bytes)
  then have "replica_ok (cl_log cl) r" by (simp add: cluster_ok_def list_all_length)
  from persist_snap_ok [OF this _ persist(3,4)] persist(5) show ?case by (simp add: cluster_ok_def)
next
  case (install i cl r idx ahead bytes s f)
  then have "service_ok s" and "snap_ok (cl_log cl) (idx, ahead, bytes)"
    by (auto simp: cluster_ok_def replica_ok_def list_all_iff)
  from install_replica_ok [OF this install(5)] install(6) show ?case
    by (simp add: cluster_ok_def list_all_update)
next
  case (install_fails i cl r idx ahead bytes s err f)
  then have "snap_ok (cl_log cl) (idx, ahead, bytes)" by (auto simp: cluster_ok_def list_all_iff)
  then obtain c where "Restore \<lparr>f_cm = sv_cm s, f_gcm = sv_gcm s\<rparr> bytes = (None, \<lparr>f_cm = sv_cm s, f_gcm = sv_gcm s\<rparr>\<lparr>f_cm := c\<rparr>)"
    by (rule restore_snap)
  then show ?case using install_fails(5) by simp
next
  case (restart i cl s)
  then show ?case by (simp add: cluster_ok_def list_all_update fresh_replica_ok)
qed

lemma cluster_run_ok: "cluster_run ss cl \<Longrightarrow> \<forall>s\<in>set ss. started s \<Longrightarrow> cluster_ok cl"
proof (induction rule: cluster_run.induct)
  case boot
  then show ?case by (simp add: cluster_ok_def list_all_iff fresh_replica_ok)
next
  case (move cl cl')
  then show ?case using cluster_step_ok by blast
qed

lemma cluster_replica_ok:
  "cluster_run ss cl \<Longrightarrow> \<forall>s\<in>set ss. started s \<Longrightarrow> i < length (cl_nodes cl) \<Longrightarrow> replica_ok (cl_log cl) (cl_nodes cl ! i)"
  using cluster_run_ok by (fastforce simp: cluster_ok_def list_all_length)

section \<open>Catching up\<close>

lemma deliver_enabled:
  assumes "service_ok s" and "ascii_entry e"
  shows "\<exists>s'. service_step s (A_Apply (encode_entry e)) (Ret s')"
proof -
  let ?f = "\<lparr>f_cm = sv_cm s, f_gcm = sv_gcm s\<rparr>"
  have "fsm_ok ?f" using assms(1) by (simp add: fsm_ok_def service_ok_def)
  then obtain f where f: "apply_entry e ?f = Ret (None, f)" using apply_entry_refines by blast
  have "service_step s (A_Apply (encode_entry e)) (Ret ((put_gcm (f_gcm f) s)\<lparr>sv_cm := f_cm f\<rparr>))"
    using service_step.apply_entry [of s "encode_entry e"] f decode_encode_entry [OF assms(2)] by (simp add: Apply_def)
  then show ?thesis by blast
qed

lemma deliver_one:
  assumes "cluster_ok cl" and "i < length (cl_nodes cl)" and "rp_applied (cl_nodes cl ! i) < length (cl_log cl)"
  obtains r where "cluster_step cl (cl\<lparr>cl_nodes := (cl_nodes cl)[i := r]\<rparr>)"
    and "rp_applied r = Suc (rp_applied (cl_nodes cl ! i))"
proof -
  have "service_ok (rp_service (cl_nodes cl ! i))" "ascii_entry (cl_log cl ! rp_applied (cl_nodes cl ! i))"
    using assms by (simp_all add: cluster_ok_def list_all_length replica_ok_def)
  then obtain s where "service_step (rp_service (cl_nodes cl ! i)) (A_Apply (encode_entry (cl_log cl ! rp_applied (cl_nodes cl ! i)))) (Ret s)"
    using deliver_enabled by blast
  from cluster_step.deliver [OF assms(2) refl assms(3) this] that show thesis by fastforce
qed

text \<open>From any state a node can be given the rest of the log, and nothing else changes.\<close>

lemma deliver_rest:
  assumes "cluster_ok cl" and "i < length (cl_nodes cl)"
  shows "\<exists>r. cluster_step\<^sup>*\<^sup>* cl (cl\<lparr>cl_nodes := (cl_nodes cl)[i := r]\<rparr>) \<and> length (cl_log cl) \<le> rp_applied r"
  using assms
proof (induction "length (cl_log cl) - rp_applied (cl_nodes cl ! i)" arbitrary: cl)
  case 0
  then show ?case by (intro exI [of _ "cl_nodes cl ! i"]) simp
next
  case (Suc n)
  have "rp_applied (cl_nodes cl ! i) < length (cl_log cl)" using Suc.hyps(2) by simp
  then obtain r where r: "cluster_step cl (cl\<lparr>cl_nodes := (cl_nodes cl)[i := r]\<rparr>)" "rp_applied r = Suc (rp_applied (cl_nodes cl ! i))"
    by (rule deliver_one [OF Suc.prems])
  let ?cl = "cl\<lparr>cl_nodes := (cl_nodes cl)[i := r]\<rparr>"
  have "n = length (cl_log ?cl) - rp_applied (cl_nodes ?cl ! i)" "i < length (cl_nodes ?cl)"
    using Suc r(2) by simp_all
  from Suc.hyps(1) [OF this(1) cluster_step_ok [OF r(1) Suc.prems(1)] this(2)] show ?case
    using r(1) by (auto intro: converse_rtranclp_into_rtranclp)
qed

lemma cluster_steps_run: "cluster_step\<^sup>*\<^sup>* cl cl' \<Longrightarrow> cluster_run ss cl \<Longrightarrow> cluster_run ss cl'"
  by (induction rule: rtranclp_induct) (auto intro: cluster_run.move)

section \<open>Claims\<close>

text \<open>
  (C3) In every reachable state of a cluster, whatever the interleaving of the nodes' own steps,
  deliveries, late snapshots, their installation and restarts, a read of a key at a node returns the
  value the key has after some prefix of the log that is not behind what the node has applied; and
  once the node has applied as much as its snapshot contained, its store is exactly the one the
  entries it has applied determine, so that two such nodes with the same index agree on every key.
\<close>

theorem stores_follow_log:
  assumes "cluster_run ss cl" and "\<forall>s\<in>set ss. started s" and "r \<in> set (cl_nodes cl)"
  shows "(\<exists>n. rp_applied r \<le> n \<and> n \<le> length (cl_log cl)
            \<and> cm_Get (sv_cm (rp_service r)) key = (case store_at (cl_log cl) n key of None \<Rightarrow> [] | Some v \<Rightarrow> v))
    \<and> (rp_until r \<le> rp_applied r \<longrightarrow> cm_view (sv_cm (rp_service r)) = store_at (cl_log cl) (rp_applied r))"
proof
  have b: "between (cl_log cl) (rp_applied r) (max (rp_applied r) (rp_until r)) (cm_view (sv_cm (rp_service r)))"
    using cluster_run_ok [OF assms(1,2)] assms(3) by (simp add: cluster_ok_def list_all_iff replica_ok_def)
  then obtain n where "rp_applied r \<le> n" "n \<le> length (cl_log cl)" "cm_view (sv_cm (rp_service r)) key = store_at (cl_log cl) n key"
    unfolding between_def by (meson le_trans)
  then show "\<exists>n. rp_applied r \<le> n \<and> n \<le> length (cl_log cl)
      \<and> cm_Get (sv_cm (rp_service r)) key = (case store_at (cl_log cl) n key of None \<Rightarrow> [] | Some v \<Rightarrow> v)"
    by (auto simp: cm_Get_def cm_view_def)
  show "rp_until r \<le> rp_applied r \<longrightarrow> cm_view (sv_cm (rp_service r)) = store_at (cl_log cl) (rp_applied r)"
    using b by (metis max_absorb1 between_same)
qed

text \<open>
  Two nodes and one entry: the first node has applied it and then written a snapshot whose index is
  from before, and the second has restored that snapshot.
\<close>

lemma sample_cluster:
  assumes "started s0" and e: "ascii_entry e"
  obtains cl where "cluster_run [s0, s0] cl" and "cl_log cl = [e]" and "length (cl_nodes cl) = 2"
    and "rp_applied (cl_nodes cl ! 0) = 1" and "rp_until (cl_nodes cl ! 0) = 0"
    and "rp_applied (cl_nodes cl ! 1) = 0" and "rp_until (cl_nodes cl ! 1) = 1"
proof -
  let ?fresh = "fresh_replica s0"
  have "service_ok s0" using started_ok [OF assms(1)] by simp
  then obtain s where s: "service_step s0 (A_Apply (encode_entry e)) (Ret s)" using deliver_enabled e by blast
  let ?r = "?fresh\<lparr>rp_service := s, rp_applied := 1\<rparr>"
  let ?first = "\<lparr>cl_log = [e], cl_nodes = [?fresh, ?fresh], cl_snaps = []\<rparr>"
  have c1: "cluster_run [s0, s0] ?first"
    using cluster_run.move [OF cluster_run.boot [of "[s0, s0]"] cluster_step.commit [OF e]] by simp
  have "cluster_run [s0, s0] (?first\<lparr>cl_nodes := [?r, ?fresh]\<rparr>)"
    using cluster_run.move [OF c1 cluster_step.deliver [of 0 ?first ?fresh s]] s by (simp add: fresh_replica_def)
  then have "cluster_run [s0, s0] \<lparr>cl_log = [e], cl_nodes = [?r, ?fresh], cl_snaps = [(0, 1, cm_Marshal (sv_cm s))]\<rparr>"
    (is "cluster_run _ ?third")
    using cluster_run.move [OF _ cluster_step.persist [of 0 "?first\<lparr>cl_nodes := [?r, ?fresh]\<rparr>" ?r 0 good_sink]]
    by (simp add: Persist_def good_sink_def fresh_replica_def)
  moreover from this have "snap_ok [e] (0, 1, cm_Marshal (sv_cm s))"
    using cluster_run_ok [of "[s0, s0]" ?third] assms(1) by (simp add: cluster_ok_def)
  then obtain f where "Restore \<lparr>f_cm = sv_cm s0, f_gcm = sv_gcm s0\<rparr> (cm_Marshal (sv_cm s)) = (None, f)"
    by (rule restore_snap)
  ultimately have "cluster_run [s0, s0] (?third\<lparr>cl_nodes := [?r, \<lparr>rp_service = s0\<lparr>sv_cm := f_cm f\<rparr>, rp_applied = 0, rp_until = 1\<rparr>]\<rparr>)"
    using cluster_run.move [OF _ cluster_step.install [of 1 ?third ?fresh 0 1 "cm_Marshal (sv_cm s)" s0]]
    by (simp add: fresh_replica_def)
  then show thesis by (rule that) (simp_all add: fresh_replica_def)
qed

lemma sample_started: "\<exists>s0. started s0"
  using sample_main_starts unfolding started_def sample_main_def by metis

lemma sample_entry_ascii: "ascii_entry (entry CMD_SET ''k'' ''v'')"
  by code_simp

theorem stores_follow_log_witness:
  "\<exists>s0 cl. started s0 \<and> cluster_run [s0, s0] cl \<and> length (cl_nodes cl) = 2
    \<and> cm_view (sv_cm (rp_service (cl_nodes cl ! 0))) = [''k'' \<mapsto> ''v'']
    \<and> rp_applied (cl_nodes cl ! 1) = 0 \<and> cm_Get (sv_cm (rp_service (cl_nodes cl ! 1))) ''k'' \<in> {[], ''v''}"
proof -
  obtain s0 where s0: "started s0" using sample_started by blast
  let ?e = "entry CMD_SET ''k'' ''v''"
  obtain cl where cl: "cluster_run [s0, s0] cl" "cl_log cl = [?e]" "length (cl_nodes cl) = 2"
    "rp_applied (cl_nodes cl ! 0) = 1" "rp_until (cl_nodes cl ! 0) = 0" "rp_applied (cl_nodes cl ! 1) = 0"
    by (rule sample_cluster [OF s0 sample_entry_ascii])
  have st: "store_at [?e] n = (if n = 0 then Map.empty else [''k'' \<mapsto> ''v''])" for n
    by (cases n) (simp_all add: store_at_def store_apply_def)
  note log = stores_follow_log [OF cl(1), unfolded cl(2)]
  have "cm_view (sv_cm (rp_service (cl_nodes cl ! 0))) = [''k'' \<mapsto> ''v'']"
    using log [of "cl_nodes cl ! 0"] s0 cl st by simp
  moreover have "cm_Get (sv_cm (rp_service (cl_nodes cl ! 1))) ''k'' \<in> {[], ''v''}"
    using log [of "cl_nodes cl ! 1" "''k''"] s0 cl st by (auto split: if_splits)
  ultimately show ?thesis using s0 cl by blast
qed

text \<open>
  (C16) Every node can catch up: from any reachable state the entries a node lacks can be delivered to
  it without a panic and with no step of any other node, and then its store is the one the whole log
  determines, whatever snapshot it had started from.
\<close>

theorem every_node_catches_up:
  assumes "cluster_run ss cl" and "\<forall>s\<in>set ss. started s" and "i < length (cl_nodes cl)"
  shows "\<exists>r. cluster_step\<^sup>*\<^sup>* cl (cl\<lparr>cl_nodes := (cl_nodes cl)[i := r]\<rparr>)
    \<and> cm_view (sv_cm (rp_service r)) = store_at (cl_log cl) (length (cl_log cl))"
proof -
  obtain r where r: "cluster_step\<^sup>*\<^sup>* cl (cl\<lparr>cl_nodes := (cl_nodes cl)[i := r]\<rparr>)" "length (cl_log cl) \<le> rp_applied r"
    using deliver_rest [OF cluster_run_ok [OF assms(1,2)] assms(3)] by blast
  have "replica_ok (cl_log cl) r"
    using cluster_replica_ok [OF cluster_steps_run [OF r(1) assms(1)] assms(2), of i] assms(3) by simp
  then have "between (cl_log cl) (length (cl_log cl)) (length (cl_log cl)) (cm_view (sv_cm (rp_service r)))"
    using r(2) by (fastforce simp: replica_ok_def between_def)
  with r(1) show ?thesis by (auto simp: between_same)
qed

theorem every_node_catches_up_witness:
  "\<exists>s0 cl r. started s0 \<and> cluster_run [s0, s0] cl \<and> rp_applied (cl_nodes cl ! 1) = 0
    \<and> cluster_step\<^sup>*\<^sup>* cl (cl\<lparr>cl_nodes := (cl_nodes cl)[1 := r]\<rparr>)
    \<and> cm_view (sv_cm (rp_service r)) = store_at [entry CMD_SET ''k'' ''v''] 1"
proof -
  obtain s0 where s0: "started s0" using sample_started by blast
  obtain cl where cl: "cluster_run [s0, s0] cl" "cl_log cl = [entry CMD_SET ''k'' ''v'']" "length (cl_nodes cl) = 2"
    "rp_applied (cl_nodes cl ! 1) = 0"
    by (rule sample_cluster [OF s0 sample_entry_ascii])
  then show ?thesis using every_node_catches_up [OF cl(1), of 1] s0 by auto
qed

end
