(* ===== verification/Pipeline.thy ===== *)
theory Pipeline
  imports Gpool Verifier Quorum "HOL-Library.Multiset"
begin

text \<open>
  The two pipelines of goroutines that \<open>main.go\<close> starts. In the first \<open>makeGossip1\<close> sends the keys of
  a round to \<open>verify\<close>, which gives each to a goroutine of a pool of 100, and the goroutines send
  their verdicts to \<open>makeGossip2\<close>. In the second \<open>quorumCheck1\<close> sends scripts to
  \<open>doTimeoutShellCmd\<close>, whose goroutines send what the scripts printed to \<open>quorumCheck2\<close>. Both have
  the same shape and differ in what a goroutine computes and in what the dispatching loop does
  when its context is cancelled, so one step relation with these two parameters models both. The
  channels have no buffer: a send and its receive are one step.
\<close>

section \<open>State\<close>

text \<open>
  The dispatching loop is in its \<open>select\<close>, before one of the two halves of \<open>pool.Add(1)\<close>, in
  \<open>pool.Wait()\<close>, or has returned. The consuming loop is in its \<open>select\<close>, in the body of its case, or
  has returned.
\<close>

datatype 'i dispatcher = Disp_select | Disp_add 'i | Disp_wg 'i | Disp_waiting | Disp_returned

datatype consumer = Cons_select | Cons_busy | Cons_returned

text \<open>
  \<open>pl_source\<close> holds what the producer's current round has still to send. A goroutine is in
  \<open>pl_working\<close> until it has computed its answer, in \<open>pl_sending\<close> while it is blocked in the send of
  it, then before the first or between the halves of \<open>pool.Done()\<close>. The last three fields record
  what the producer has made, what the consumer has received, with the input it answers, and the
  inputs whose goroutine returned without an answer.
\<close>

record ('i, 'o) pipe =
  pl_source :: "'i list"
  pl_disp :: "'i dispatcher"
  pl_pool :: pool
  pl_working :: "'i list"
  pl_sending :: "('i \<times> 'o) list"
  pl_ending :: nat
  pl_leaving :: nat
  pl_cons :: consumer
  pl_cancelled :: bool
  pl_made :: "'i list"
  pl_out :: "('i \<times> 'o) list"
  pl_dropped :: "'i list"

definition pipe_init :: "('i, 'o) pipe" where
  "pipe_init = \<lparr>pl_source = [], pl_disp = Disp_select, pl_pool = New 100, pl_working = [], pl_sending = [],
     pl_ending = 0, pl_leaving = 0, pl_cons = Cons_select, pl_cancelled = False,
     pl_made = [], pl_out = [], pl_dropped = []\<rparr>"

section \<open>Steps\<close>

inductive pipe_step ::
  "bool \<Rightarrow> ('i \<Rightarrow> 'o option \<Rightarrow> bool) \<Rightarrow> ('i, 'o) pipe \<Rightarrow> ('i, 'o) pipe \<Rightarrow> bool" for waits answer where
  send_input: "pl_source s = x # xs \<Longrightarrow> pl_disp s = Disp_select \<Longrightarrow>
    pipe_step waits answer s (s\<lparr>pl_source := xs, pl_disp := Disp_add x\<rparr>)"
| add_send: "pl_disp s = Disp_add x \<Longrightarrow> chan_send (pl_pool s) = Some p \<Longrightarrow>
    pipe_step waits answer s (s\<lparr>pl_disp := Disp_wg x, pl_pool := p\<rparr>)"
| add_wg: "pl_disp s = Disp_wg x \<Longrightarrow> wg_Add (pl_pool s) 1 = Ret p \<Longrightarrow>
    pipe_step waits answer s (s\<lparr>pl_disp := Disp_select, pl_pool := p, pl_working := x # pl_working s\<rparr>)"
| work: "pl_working s = xs @ x # ys \<Longrightarrow> answer x (Some y) \<Longrightarrow>
    pipe_step waits answer s (s\<lparr>pl_working := xs @ ys, pl_sending := (x, y) # pl_sending s\<rparr>)"
| drop: "pl_working s = xs @ x # ys \<Longrightarrow> answer x None \<Longrightarrow>
    pipe_step waits answer s
      (s\<lparr>pl_working := xs @ ys, pl_ending := Suc (pl_ending s), pl_dropped := x # pl_dropped s\<rparr>)"
| send_output: "pl_sending s = xs @ z # ys \<Longrightarrow> pl_cons s = Cons_select \<Longrightarrow>
    pipe_step waits answer s
      (s\<lparr>pl_sending := xs @ ys, pl_ending := Suc (pl_ending s), pl_cons := Cons_busy, pl_out := pl_out s @ [z]\<rparr>)"
| handled: "pl_cons s = Cons_busy \<Longrightarrow> pipe_step waits answer s (s\<lparr>pl_cons := Cons_select\<rparr>)"
| done_recv: "pl_ending s = Suc n \<Longrightarrow> chan_recv (pl_pool s) = Some p \<Longrightarrow>
    pipe_step waits answer s (s\<lparr>pl_ending := n, pl_pool := p, pl_leaving := Suc (pl_leaving s)\<rparr>)"
| done_wg: "pl_leaving s = Suc n \<Longrightarrow> wg_Add (pl_pool s) (- 1) = Ret p \<Longrightarrow>
    pipe_step waits answer s (s\<lparr>pl_leaving := n, pl_pool := p\<rparr>)"
| disp_cancel: "pl_cancelled s \<Longrightarrow> pl_disp s = Disp_select \<Longrightarrow>
    pipe_step waits answer s (s\<lparr>pl_disp := if waits then Disp_waiting else Disp_returned\<rparr>)"
| disp_wait: "pl_disp s = Disp_waiting \<Longrightarrow> pool_Wait (pl_pool s) \<Longrightarrow>
    pipe_step waits answer s (s\<lparr>pl_disp := Disp_returned\<rparr>)"
| cons_cancel: "pl_cancelled s \<Longrightarrow> pl_cons s = Cons_select \<Longrightarrow>
    pipe_step waits answer s (s\<lparr>pl_cons := Cons_returned\<rparr>)"

text \<open>A new round starts when the producer has sent all of the last one; the context may be cancelled.\<close>

inductive pipe_reach ::
  "bool \<Rightarrow> ('i \<Rightarrow> 'o option \<Rightarrow> bool) \<Rightarrow> ('i, 'o) pipe \<Rightarrow> bool" for waits answer where
  init: "pipe_reach waits answer pipe_init"
| step: "pipe_reach waits answer s \<Longrightarrow> pipe_step waits answer s s' \<Longrightarrow> pipe_reach waits answer s'"
| produce: "pipe_reach waits answer s \<Longrightarrow> pl_source s = [] \<Longrightarrow>
    pipe_reach waits answer (s\<lparr>pl_source := xs, pl_made := pl_made s @ xs\<rparr>)"
| cancel: "pipe_reach waits answer s \<Longrightarrow> pipe_reach waits answer (s\<lparr>pl_cancelled := True\<rparr>)"

text \<open>What a goroutine of \<open>verify\<close> and one of \<open>doTimeoutShellCmd\<close> may send for its input.\<close>

inductive verify_answer :: "verifyInput \<Rightarrow> verifyOutput option \<Rightarrow> bool" where
  "verify_worker ord between shell now cv input = Ret (cv', out) \<Longrightarrow> verify_answer input (Some out)"

inductive notify_answer :: "timeoutShellCmd \<Rightarrow> shellCmdResult option \<Rightarrow> bool" where
  "notify_answer tsc (timeout_worker perm shell tsc)"

section \<open>The pool of a pipeline\<close>

text \<open>
  Forgetting what is sent, a pipeline is a dispatching loop with a pool as in \<open>Gpool\<close>: every step of
  the pipeline is a step of the pool or leaves it as it is.
\<close>

definition pipe_workers :: "('i, 'o) pipe \<Rightarrow> workers" where
  "pipe_workers s = \<lparr>wk_pool = pl_pool s, wk_adding = (case pl_disp s of Disp_wg _ \<Rightarrow> True | _ \<Rightarrow> False),
     wk_running = length (pl_working s) + length (pl_sending s) + pl_ending s, wk_leaving = pl_leaving s\<rparr>"

lemma pipe_step_simulates:
  "pipe_step waits answer s s' \<Longrightarrow>
     pipe_workers s' = pipe_workers s \<or> worker_step (pipe_workers s) (Ret (pipe_workers s'))"
proof (induction rule: pipe_step.induct)
  case (add_send s x p)
  then show ?case using worker_step.add_send [of "pipe_workers s" p] by (simp add: pipe_workers_def)
next
  case (add_wg s x p)
  then show ?case using worker_step.add_wg [of "pipe_workers s"] by (simp add: pipe_workers_def)
next
  case (done_recv s n p)
  then show ?case using worker_step.done_recv [of "pipe_workers s" p] by (simp add: pipe_workers_def)
next
  case (done_wg s n p)
  then show ?case using worker_step.done_wg [of "pipe_workers s"] by (simp add: pipe_workers_def)
qed (simp_all add: pipe_workers_def)

lemma pipe_reach_simulates: "pipe_reach waits answer s \<Longrightarrow> worker_reach 100 (Ret (pipe_workers s))"
proof (induction rule: pipe_reach.induct)
  case init
  show ?case using worker_reach.start [of 100] by (simp add: pipe_workers_def pipe_init_def workers_init_def)
next
  case (step s s')
  then show ?case using pipe_step_simulates [OF step.hyps(2)] worker_reach.step by metis
qed (simp_all add: pipe_workers_def)

lemma pipe_pool_inv: "pipe_reach waits answer s \<Longrightarrow> workers_inv 100 (pipe_workers s)"
  using worker_reach_inv [OF pipe_reach_simulates] by fastforce

section \<open>Nothing is lost\<close>

primrec held :: "'i dispatcher \<Rightarrow> 'i list" where
  "held Disp_select = []"
| "held (Disp_add x) = [x]"
| "held (Disp_wg x) = [x]"
| "held Disp_waiting = []"
| "held Disp_returned = []"

definition pipe_inv :: "('i \<Rightarrow> 'o option \<Rightarrow> bool) \<Rightarrow> ('i, 'o) pipe \<Rightarrow> bool" where
  "pipe_inv answer s \<longleftrightarrow>
     mset (pl_made s) = mset (pl_source s @ held (pl_disp s) @ pl_working s @ map fst (pl_sending s)
       @ map fst (pl_out s) @ pl_dropped s)
     \<and> (\<forall>(x, y) \<in> set (pl_sending s) \<union> set (pl_out s). answer x (Some y))
     \<and> (\<forall>x \<in> set (pl_dropped s). answer x None)
     \<and> (\<not> pl_cancelled s \<longrightarrow> pl_disp s \<notin> {Disp_waiting, Disp_returned} \<and> pl_cons s \<noteq> Cons_returned)"

lemma pipe_step_inv: "pipe_step waits answer s s' \<Longrightarrow> pipe_inv answer s \<Longrightarrow> pipe_inv answer s'"
  by (induction rule: pipe_step.induct) (auto simp: pipe_inv_def split_beta)

lemma pipe_reach_inv: "pipe_reach waits answer s \<Longrightarrow> pipe_inv answer s"
proof (induction rule: pipe_reach.induct)
  case init
  show ?case by (simp add: pipe_inv_def pipe_init_def)
next
  case (step s s')
  then show ?case by (blast intro: pipe_step_inv)
qed (simp_all add: pipe_inv_def)

section \<open>Every round comes to an end\<close>

primrec disp_weight :: "'i dispatcher \<Rightarrow> nat" where
  "disp_weight Disp_select = 2"
| "disp_weight (Disp_add x) = 9"
| "disp_weight (Disp_wg x) = 8"
| "disp_weight Disp_waiting = 1"
| "disp_weight Disp_returned = 0"

primrec cons_weight :: "consumer \<Rightarrow> nat" where
  "cons_weight Cons_select = 1"
| "cons_weight Cons_busy = 2"
| "cons_weight Cons_returned = 0"

definition pipe_weight :: "('i, 'o) pipe \<Rightarrow> nat" where
  "pipe_weight s = 8 * length (pl_source s) + disp_weight (pl_disp s) + 5 * length (pl_working s)
     + 4 * length (pl_sending s) + 2 * pl_ending s + pl_leaving s + cons_weight (pl_cons s)"

lemma pipe_step_decreases: "pipe_step waits answer s s' \<Longrightarrow> pipe_weight s' < pipe_weight s"
  by (induction rule: pipe_step.induct) (simp_all add: pipe_weight_def)

lemma pipe_steps_finite: "\<nexists>f. \<forall>n. pipe_step waits answer (f n) (f (Suc n))"
proof
  assume "\<exists>f. \<forall>n. pipe_step waits answer (f n) (f (Suc n))"
  then obtain f where "\<forall>n. pipe_step waits answer (f n) (f (Suc n))" by blast
  then have "\<forall>n. (f (Suc n), f n) \<in> measure pipe_weight"
    by (metis in_measure pipe_step_decreases)
  then show False using wf_measure [of pipe_weight] unfolding wf_iff_no_infinite_down_chain by blast
qed

definition idle :: "('i, 'o) pipe \<Rightarrow> bool" where
  "idle s \<longleftrightarrow> pl_source s = [] \<and> pl_disp s = Disp_select \<and> pl_working s = [] \<and> pl_sending s = []
     \<and> pl_ending s = 0 \<and> pl_leaving s = 0 \<and> pl_cons s = Cons_select \<and> pool_Wait (pl_pool s)"

lemma pool_never_stuck:
  assumes "pipe_reach waits answer s"
  shows "\<exists>p. wg_Add (pl_pool s) 1 = Ret p"
    and "0 < pl_ending s \<Longrightarrow> \<exists>p. chan_recv (pl_pool s) = Some p"
    and "0 < pl_leaving s \<Longrightarrow> \<exists>p. wg_Add (pl_pool s) (- 1) = Ret p"
    and "pl_working s = [] \<Longrightarrow> pl_sending s = [] \<Longrightarrow> pl_ending s = 0 \<Longrightarrow> pl_disp s = Disp_add x \<Longrightarrow>
         \<exists>p. chan_send (pl_pool s) = Some p"
    and "pool_Wait (pl_pool s) \<longleftrightarrow> pl_working s = [] \<and> pl_sending s = [] \<and> pl_ending s = 0 \<and> pl_leaving s = 0"
proof -
  let ?n = "length (pl_working s) + length (pl_sending s) + pl_ending s"
  have inv: "p_cap (pl_pool s) = 100" "p_queue (pl_pool s) = ?n + (case pl_disp s of Disp_wg _ \<Rightarrow> 1 | _ \<Rightarrow> 0)"
    "p_wg (pl_pool s) = int (?n + pl_leaving s)"
    using pipe_pool_inv [OF assms] by (simp_all add: workers_inv_def pipe_workers_def New_def split: dispatcher.splits)
  show "\<exists>p. wg_Add (pl_pool s) 1 = Ret p" using inv(3) by (simp add: wg_Add_def)
  show "0 < pl_ending s \<Longrightarrow> \<exists>p. chan_recv (pl_pool s) = Some p" using inv(2) by (simp add: chan_recv_def)
  show "0 < pl_leaving s \<Longrightarrow> \<exists>p. wg_Add (pl_pool s) (- 1) = Ret p" using inv(3) by (simp add: wg_Add_def)
  show "pl_working s = [] \<Longrightarrow> pl_sending s = [] \<Longrightarrow> pl_ending s = 0 \<Longrightarrow> pl_disp s = Disp_add x \<Longrightarrow>
      \<exists>p. chan_send (pl_pool s) = Some p"
    using inv(1,2) by (simp add: chan_send_def)
  show "pool_Wait (pl_pool s) \<longleftrightarrow> pl_working s = [] \<and> pl_sending s = [] \<and> pl_ending s = 0 \<and> pl_leaving s = 0"
    using inv(3) unfolding pool_Wait_def by (metis add_is_0 length_0_conv of_nat_eq_0_iff)
qed

lemma pipe_steps_reach: "(pipe_step waits answer)\<^sup>*\<^sup>* s s' \<Longrightarrow> pipe_reach waits answer s \<Longrightarrow>
    pipe_reach waits answer s' \<and> pl_cancelled s' = pl_cancelled s \<and> pl_made s' = pl_made s"
proof (induction rule: rtranclp_induct)
  case (step t u)
  from step.hyps(2) have "pl_cancelled u = pl_cancelled t \<and> pl_made u = pl_made t"
    by (induction rule: pipe_step.induct) simp_all
  with step show ?case by (auto intro: pipe_reach.step)
qed simp

text \<open>The contract of the goroutine of a pipeline: it returns, with an answer or without.\<close>

locale goroutine =
  fixes answer :: "'i \<Rightarrow> 'o option \<Rightarrow> bool"
  assumes returns: "\<exists>r. answer x r"
begin

lemma progress:
  assumes reach: "pipe_reach waits answer s" and "\<not> pl_cancelled s" and stop: "\<nexists>s'. pipe_step waits answer s s'"
  shows "idle s"
proof -
  note pool = pool_never_stuck [OF reach]
  have c: "pl_cons s = Cons_select" and d: "pl_disp s \<notin> {Disp_waiting, Disp_returned}"
    using pipe_reach_inv [OF reach] assms(2) stop pipe_step.handled [of s waits answer]
    by (auto simp: pipe_inv_def intro: consumer.exhaust [of "pl_cons s"])
  have w: "pl_working s = []"
  proof (cases "pl_working s")
    case (Cons x xs)
    obtain r where "answer x r" using returns by blast
    with Cons stop show ?thesis
      using pipe_step.work [of s "[]" x xs answer] pipe_step.drop [of s "[]" x xs answer] by (cases r) auto
  qed
  have o: "pl_sending s = []"
    using stop c pipe_step.send_output [of s "[]" _ _ waits answer] by (cases "pl_sending s") auto
  have e: "pl_ending s = 0"
    using stop pool(2) pipe_step.done_recv [of s _ _ waits answer] by (cases "pl_ending s") auto
  have l: "pl_leaving s = 0"
    using stop pool(3) pipe_step.done_wg [of s _ _ waits answer] by (cases "pl_leaving s") auto
  have "pl_disp s = Disp_select"
    using stop d pool(1) pool(4) [OF w o e] pipe_step.add_send [of s _ _ waits answer] pipe_step.add_wg [of s _ _ waits answer]
    by (cases "pl_disp s") auto
  moreover from this have "pl_source s = []"
    using stop pipe_step.send_input [of s _ _ waits answer] by (cases "pl_source s") auto
  ultimately show ?thesis using c w o e l pool(5) by (simp add: idle_def)
qed

lemma completes:
  assumes "pipe_reach waits answer s" and "\<not> pl_cancelled s"
    and "(pipe_step waits answer)\<^sup>*\<^sup>* s s'" and "\<nexists>s''. pipe_step waits answer s' s''"
  shows "idle s' \<and> mset (pl_made s) = mset (map fst (pl_out s')) + mset (pl_dropped s')
    \<and> (\<forall>(x, y) \<in> set (pl_out s'). answer x (Some y))"
proof -
  have s': "pipe_reach waits answer s'" "\<not> pl_cancelled s'" "pl_made s' = pl_made s"
    using pipe_steps_reach [OF assms(3,1)] assms(2) by simp_all
  then have "idle s'" using progress assms(4) by blast
  then show ?thesis using pipe_reach_inv [OF s'(1)] s'(3) by (auto simp: pipe_inv_def idle_def)
qed

end

text \<open>A goroutine that always answers.\<close>

locale answering = goroutine +
  assumes answers: "\<not> answer x None"
begin

lemma nothing_dropped: "pipe_reach waits answer s \<Longrightarrow> pl_dropped s = []"
  using answers pipe_reach_inv [of waits answer s] by (cases "pl_dropped s") (auto simp: pipe_inv_def)

end

interpretation ver: answering verify_answer
proof
  fix x :: verifyInput
  obtain cv out where "verify_worker rev (\<lambda>d. d) up_script 0 (NewCommonVerifier (NewOptions (\<lambda>_. None))) x = Ret (cv, out)"
    using verify_worker_returns by blast
  then show "\<exists>r. verify_answer x r" by (blast intro: verify_answer.intros)
  show "\<not> verify_answer x None" by (auto elim: verify_answer.cases)
qed

interpretation noti: goroutine notify_answer
  by unfold_locales (blast intro: notify_answer.intros)

lemma verify_answer_keeps: "verify_answer x (Some y) \<Longrightarrow> vo_key y = vi_key x \<and> vo_value y = vi_value x"
  by (auto elim!: verify_answer.cases simp: verify_worker_def Let_def go_bind_eq_Ret)

lemma notify_answer_keeps: "notify_answer x (Some y) \<Longrightarrow> sr_key y = tc_key x \<and> sr_status y = tc_status x"
  by (auto elim!: notify_answer.cases simp: timeout_worker_def split: if_splits prod.splits)

text \<open>A goroutine with a verdict and nobody to receive it.\<close>

definition stuck :: "('i, 'o) pipe \<Rightarrow> bool" where
  "stuck s \<longleftrightarrow> pl_disp s = Disp_waiting \<and> pl_cons s = Cons_returned \<and> pl_sending s \<noteq> []"

lemma stuck_step:
  "pipe_step waits answer s s' \<Longrightarrow> pipe_reach waits answer s \<Longrightarrow> stuck s \<Longrightarrow> stuck s' \<and> pl_source s' = pl_source s"
  by (induction rule: pipe_step.induct) (auto simp: stuck_def pool_never_stuck(5))

lemma stuck_steps:
  "(pipe_step waits answer)\<^sup>*\<^sup>* s s' \<Longrightarrow> pipe_reach waits answer s \<Longrightarrow> stuck s \<Longrightarrow> stuck s' \<and> pl_source s' = pl_source s"
proof (induction rule: rtranclp_induct)
  case (step t u)
  then show ?case using stuck_step [of waits answer t u] pipe_steps_reach [of waits answer s t] by simp
qed simp

section \<open>Claims\<close>

text \<open>
  (C4) The verification pipeline never deadlocks and loses nothing: while the context is not
  cancelled, from every reachable state, however its goroutines are scheduled, only finitely many
  steps can be taken before the producer starts another round, there are at most a hundred
  goroutines at any time, and when no more steps can be taken the pool is empty and \<open>makeGossip2\<close> has received exactly one verdict for every key of every round,
  for that key and the value it had.
\<close>

theorem verification_completes:
  assumes "pipe_reach True verify_answer s" and "\<not> pl_cancelled s"
  shows "length (pl_working s) + length (pl_sending s) + pl_ending s \<le> 100
    \<and> (\<nexists>f. f 0 = s \<and> (\<forall>n. pipe_step True verify_answer (f n) (f (Suc n))))
    \<and> (\<forall>s'. (pipe_step True verify_answer)\<^sup>*\<^sup>* s s' \<and> (\<nexists>s''. pipe_step True verify_answer s' s'') \<longrightarrow>
         idle s' \<and> mset (map (\<lambda>(_, out). (vo_key out, vo_value out)) (pl_out s'))
                     = mset (map (\<lambda>input. (vi_key input, vi_value input)) (pl_made s)))"
proof (intro conjI allI impI)
  show "length (pl_working s) + length (pl_sending s) + pl_ending s \<le> 100"
    using pipe_pool_inv [OF assms(1)] by (simp add: workers_inv_def pipe_workers_def New_def)
  show "\<nexists>f. f 0 = s \<and> (\<forall>n. pipe_step True verify_answer (f n) (f (Suc n)))"
    using pipe_steps_finite by blast
next
  fix s'
  assume "(pipe_step True verify_answer)\<^sup>*\<^sup>* s s' \<and> (\<nexists>s''. pipe_step True verify_answer s' s'')"
  then have steps: "(pipe_step True verify_answer)\<^sup>*\<^sup>* s s'" and "\<nexists>s''. pipe_step True verify_answer s' s''" by simp_all
  note fin = ver.completes [OF assms this]
  then show "idle s'" by simp
  have "mset (pl_made s) = mset (map fst (pl_out s'))"
    using fin ver.nothing_dropped [of True s'] pipe_steps_reach [OF steps assms(1)] by simp
  moreover have "map (\<lambda>(_, out). (vo_key out, vo_value out)) (pl_out s')
      = map (\<lambda>input. (vi_key input, vi_value input)) (map fst (pl_out s'))"
    using fin verify_answer_keeps by auto
  ultimately show "mset (map (\<lambda>(_, out). (vo_key out, vo_value out)) (pl_out s'))
      = mset (map (\<lambda>input. (vi_key input, vi_value input)) (pl_made s))"
    by (metis mset_map)
qed

text \<open>Two keys of a round, and the verdict of one of them on its way to \<open>makeGossip2\<close>.\<close>

abbreviation sample_input :: "string \<Rightarrow> verifyInput" where
  "sample_input key \<equiv> \<lparr>vi_key = key, vi_value = ''v''\<rparr>"

lemma sample_pipe:
  obtains out where "pipe_reach True verify_answer
    \<lparr>pl_source = [sample_input ''b''], pl_disp = Disp_select, pl_pool = (New 100)\<lparr>p_queue := 1, p_wg := 1\<rparr>, pl_working = [],
     pl_sending = [(sample_input ''a'', out)], pl_ending = 0, pl_leaving = 0, pl_cons = Cons_select, pl_cancelled = False,
     pl_made = [sample_input ''a'', sample_input ''b''], pl_out = [], pl_dropped = []\<rparr>"
proof -
  obtain out where out: "verify_answer (sample_input ''a'') (Some out)"
    using verify_worker_returns verify_answer.intros by metis
  let ?reach = "pipe_reach True verify_answer"
  have "?reach (pipe_init\<lparr>pl_source := [sample_input ''a'', sample_input ''b''], pl_made := [sample_input ''a'', sample_input ''b'']\<rparr>)"
    (is "pipe_reach _ _ ?first")
    using pipe_reach.produce [OF pipe_reach.init, where xs = "[sample_input ''a'', sample_input ''b'']"]
    by (simp add: pipe_init_def)
  from pipe_reach.step [OF this pipe_step.send_input]
  have "?reach (?first\<lparr>pl_source := [sample_input ''b''], pl_disp := Disp_add (sample_input ''a'')\<rparr>)"
    by (simp add: pipe_init_def)
  from pipe_reach.step [OF this pipe_step.add_send]
  have "?reach (?first\<lparr>pl_source := [sample_input ''b''], pl_disp := Disp_wg (sample_input ''a''), pl_pool := (New 100)\<lparr>p_queue := 1\<rparr>\<rparr>)"
    by (simp add: pipe_init_def chan_send_def New_def)
  from pipe_reach.step [OF this pipe_step.add_wg]
  have "?reach (?first\<lparr>pl_source := [sample_input ''b''], pl_pool := (New 100)\<lparr>p_queue := 1, p_wg := 1\<rparr>, pl_working := [sample_input ''a'']\<rparr>)"
    by (simp add: pipe_init_def wg_Add_def New_def)
  from pipe_reach.step [OF this pipe_step.work [of _ "[]" "sample_input ''a''" "[]" verify_answer out]] out
  show thesis by (intro that [of out]) (simp add: pipe_init_def)
qed

theorem verification_completes_witness:
  "\<exists>s. pipe_reach True verify_answer s \<and> pl_source s \<noteq> []
    \<and> (\<forall>s'. (pipe_step True verify_answer)\<^sup>*\<^sup>* s s' \<and> (\<nexists>s''. pipe_step True verify_answer s' s'') \<longrightarrow>
         mset (map (\<lambda>(_, out). (vo_key out, vo_value out)) (pl_out s')) = {#(''a'', ''v''), (''b'', ''v'')#})"
proof (rule sample_pipe)
  fix out
  assume r: "pipe_reach True verify_answer
    \<lparr>pl_source = [sample_input ''b''], pl_disp = Disp_select, pl_pool = (New 100)\<lparr>p_queue := 1, p_wg := 1\<rparr>, pl_working = [],
     pl_sending = [(sample_input ''a'', out)], pl_ending = 0, pl_leaving = 0, pl_cons = Cons_select, pl_cancelled = False,
     pl_made = [sample_input ''a'', sample_input ''b''], pl_out = [], pl_dropped = []\<rparr>" (is "pipe_reach _ _ ?s")
  show ?thesis using verification_completes [OF r] r by (intro exI [of _ ?s]) simp
qed

text \<open>
  (C23) The notification pipeline never deadlocks either: while the context is not cancelled only
  finitely many steps can be taken before the next check, and when no more can be taken every
  script that was asked for has been answered with one result to \<open>quorumCheck2\<close>, with its key and
  status, or dropped by a goroutine that found its node no longer the leader.
\<close>

theorem notification_completes:
  assumes "pipe_reach False notify_answer s" and "\<not> pl_cancelled s"
  shows "(\<nexists>f. f 0 = s \<and> (\<forall>n. pipe_step False notify_answer (f n) (f (Suc n))))
    \<and> (\<forall>s'. (pipe_step False notify_answer)\<^sup>*\<^sup>* s s' \<and> (\<nexists>s''. pipe_step False notify_answer s' s'') \<longrightarrow>
         idle s' \<and> mset (pl_made s) = mset (map fst (pl_out s')) + mset (pl_dropped s')
         \<and> (\<forall>(tsc, r) \<in> set (pl_out s'). sr_key r = tc_key tsc \<and> sr_status r = tc_status tsc))"
proof (intro conjI allI impI)
  show "\<nexists>f. f 0 = s \<and> (\<forall>n. pipe_step False notify_answer (f n) (f (Suc n)))"
    using pipe_steps_finite by blast
next
  fix s'
  assume "(pipe_step False notify_answer)\<^sup>*\<^sup>* s s' \<and> (\<nexists>s''. pipe_step False notify_answer s' s'')"
  then have "(pipe_step False notify_answer)\<^sup>*\<^sup>* s s'" and "\<nexists>s''. pipe_step False notify_answer s' s''" by simp_all
  note fin = noti.completes [OF assms this]
  then show "idle s'" and "mset (pl_made s) = mset (map fst (pl_out s')) + mset (pl_dropped s')" by simp_all
  show "\<forall>(tsc, r) \<in> set (pl_out s'). sr_key r = tc_key tsc \<and> sr_status r = tc_status tsc"
    using fin notify_answer_keeps by fastforce
qed

definition sample_cmd :: timeoutShellCmd where
  "sample_cmd = \<lparr>tc_key = ''k'', tc_status = GOSSIP_DOWN, tc_timeout = notificationScriptTimeout, tc_cmd = ''notify.sh k v DOWN''\<rparr>"

theorem notification_completes_witness:
  "\<exists>s. pipe_reach False notify_answer s \<and> pl_source s = [sample_cmd]
    \<and> (\<forall>s'. (pipe_step False notify_answer)\<^sup>*\<^sup>* s s' \<and> (\<nexists>s''. pipe_step False notify_answer s' s'') \<longrightarrow>
         idle s' \<and> {#sample_cmd#} = mset (map fst (pl_out s')) + mset (pl_dropped s'))"
proof -
  let ?s = "pipe_init\<lparr>pl_source := [sample_cmd], pl_made := [sample_cmd]\<rparr>"
  have r: "pipe_reach False notify_answer ?s"
    using pipe_reach.produce [OF pipe_reach.init, where xs = "[sample_cmd]"] by (simp add: pipe_init_def)
  then show ?thesis using notification_completes [OF r] by (intro exI [of _ ?s]) (simp add: pipe_init_def)
qed

text \<open>
  (C39) Cancelling the context may hang the service: once \<open>makeGossip2\<close> has returned, a goroutine
  with a verdict blocks for ever in its send, so \<open>verify\<close> never returns from \<open>pool.Wait()\<close>, and a
  producer in the middle of a round never returns from its send either, since \<open>makeGossip1\<close> does not
  look at the context.
\<close>

theorem shutdown_can_hang:
  "\<exists>s. pipe_reach True verify_answer s \<and> pl_cancelled s \<and> pl_source s \<noteq> []
    \<and> {s'. (pipe_step True verify_answer)\<^sup>*\<^sup>* s s'}
        \<subseteq> {s'. pl_disp s' = Disp_waiting \<and> pl_sending s' \<noteq> [] \<and> pl_source s' = pl_source s}"
proof (rule sample_pipe)
  fix out
  assume r: "pipe_reach True verify_answer
    \<lparr>pl_source = [sample_input ''b''], pl_disp = Disp_select, pl_pool = (New 100)\<lparr>p_queue := 1, p_wg := 1\<rparr>, pl_working = [],
     pl_sending = [(sample_input ''a'', out)], pl_ending = 0, pl_leaving = 0, pl_cons = Cons_select, pl_cancelled = False,
     pl_made = [sample_input ''a'', sample_input ''b''], pl_out = [], pl_dropped = []\<rparr>" (is "pipe_reach _ _ ?s")
  have "pipe_reach True verify_answer (?s\<lparr>pl_cancelled := True, pl_disp := Disp_waiting\<rparr>)"
    using pipe_reach.step [OF pipe_reach.cancel [OF r] pipe_step.disp_cancel] by simp
  from pipe_reach.step [OF this pipe_step.cons_cancel]
  have t: "pipe_reach True verify_answer (?s\<lparr>pl_cancelled := True, pl_disp := Disp_waiting, pl_cons := Cons_returned\<rparr>)"
    (is "pipe_reach _ _ ?t") by simp
  have "stuck ?t" by (simp add: stuck_def)
  then have "\<forall>s'. (pipe_step True verify_answer)\<^sup>*\<^sup>* ?t s' \<longrightarrow> stuck s' \<and> pl_source s' = pl_source ?t"
    using stuck_steps [OF _ t] by blast
  then show ?thesis using t by (intro exI [of _ ?t]) (auto simp: stuck_def)
qed

end
