(* ===== verification/Detection.thy ===== *)
theory Detection
  imports Service
begin

text \<open>
  From messages to the replicated record: what a leader does with the reports of other nodes, composed
  over \<open>NotifyMsg\<close>, \<open>consumeGossip\<close>, \<open>quorumCheck1\<close>, \<open>doTimeoutShellCmd\<close>, \<open>quorumCheck2\<close> and \<open>Apply\<close>.
\<close>

section \<open>Receiving a batch of messages\<close>

fun receive_all :: "bridge \<Rightarrow> string list \<Rightarrow> bridge go" where
  "receive_all b [] = Ret b"
| "receive_all b (bytes # rest) =
     go_bind (dl_NotifyMsg (gn_delegate (b_gnode b)) bytes) (\<lambda>d.
       receive_all (b\<lparr>b_gnode := (b_gnode b)\<lparr>gn_delegate := d\<rparr>\<rparr>) rest)"

lemma receive_all_messages:
  "\<forall>m \<in> set ms. sendable m \<Longrightarrow> receive_all b (map Message ms) = Ret (with_inbox b (inbox b @ ms))"
  by (induction ms arbitrary: b) (simp_all add: notify_sent with_inbox_def inbox_def)

lemma bridge_ok_with_inbox [simp]: "bridge_ok (with_inbox b ms) = bridge_ok b"
  by (simp add: bridge_ok_def with_inbox_def node_ok_def node_queue_def)

lemma with_inbox_sel [simp]: "b_gcm (with_inbox b ms) = b_gcm b" "inbox (with_inbox b ms) = ms"
  by (simp_all add: with_inbox_def inbox_def)

text \<open>What consuming a batch leaves of a key: the newest of the old report and the batch's.\<close>

lemma absorbed_reports:
  assumes "gcm_live c" and "reports c' = reports (fold absorb (map msg_report ms) c)"
  shows "case reports c' kn of None \<Rightarrow> reports c kn = None \<and> seen kn (map msg_report ms) = {}
    | Some x \<Rightarrow> newest (set_option (reports c kn) \<union> seen kn (map msg_report ms)) x"
  using gcmtab.deliver_newest [OF assms(1), of kn "map msg_report ms"] assms(2) by (simp add: absorb_fold)

lemma news_absorbed:
  assumes "gcm_live c" and "reports c' = reports (fold absorb (map msg_report ms) c)"
    and "distinct (map msg_Node ms)" and m: "m \<in> set ms" and "\<forall>m \<in> set ms. msg_Key m = key"
    and news: "is_news c key (msg_Node m) (msg_TimeStamp m)"
  shows "reports c' (key, msg_Node m) = Some (msg_TimeStamp m, msg_Status m)"
proof -
  let ?kn = "(key, msg_Node m)" and ?x = "(msg_TimeStamp m, msg_Status m)"
  have "m' = m" if "m' \<in> set ms" "msg_Node m' = msg_Node m" for m'
    using that m assms(3) by (auto simp: distinct_map dest: inj_onD)
  then have "seen ?kn (map msg_report ms) = {?x}"
    using m assms(5) by (auto simp: set_eq_iff seen_iff msg_report_def image_iff)
  with absorbed_reports [OF assms(1,2), of ?kn]
  obtain x where x: "reports c' ?kn = Some x" "newest (set_option (reports c ?kn) \<union> {?x}) x"
    by (cases "reports c' ?kn") simp_all
  from x(2) news have "x = ?x"
    by (cases "reports c ?kn") (auto simp: newest_def is_news_def)
  with x(1) show ?thesis by simp
qed

lemma absorbed_nodes:
  assumes "gcm_live c" and "reports c' = reports (fold absorb (map msg_report ms) c)" and "reports c' (key, n) \<noteq> None"
  shows "reports c (key, n) \<noteq> None \<or> n \<in> msg_Node ` set ms"
  using absorbed_reports [OF assms(1,2), of "(key, n)"] assms(3)
  by (cases "reports c' (key, n)"; cases "reports c (key, n)") (auto simp: newest_def seen_iff msg_report_def)

section \<open>A round of the quorum check\<close>

lemma checkEvent_cmds_mono: "set (qt_cmds t) \<subseteq> set (qt_cmds (checkEvent q env o' cm key v t))"
  by (simp add: checkEvent_def Let_def split_beta subset_insertI send_cmd_def)

lemma checkEmpty_cmds_mono: "set (qt_cmds t) \<subseteq> set (qt_cmds (checkEmpty q env o' cm key v t))"
  by (simp add: checkEmpty_def Let_def split_beta subset_insertI send_cmd_def)

lemma check_keys_cmds_mono: "set (qt_cmds t) \<subseteq> set (qt_cmds (check_keys q env o' cm kvs t))"
proof (induction kvs arbitrary: t)
  case (Cons kv kvs)
  obtain key v where "kv = (key, v)" by fastforce
  then show ?case
    using subset_trans [OF checkEvent_cmds_mono subset_trans [OF checkEmpty_cmds_mono Cons.IH]] by simp
qed simp

lemma check_keys_fires:
  assumes "(key, v) \<in> set kvs" and "\<And>t. tsc \<in> set (qt_cmds (checkEvent q env o' cm key v t))"
  shows "tsc \<in> set (qt_cmds (check_keys q env o' cm kvs t))"
proof -
  obtain xs ys where "kvs = xs @ (key, v) # ys" using assms(1) by (meson split_list)
  moreover have "check_keys q env o' cm (xs @ ys) t = check_keys q env o' cm ys (check_keys q env o' cm xs t)" for xs ys t
    by (induction q env o' cm xs t rule: check_keys.induct) simp_all
  ultimately show ?thesis
    using assms(2) subsetD [OF subset_trans [OF checkEmpty_cmds_mono check_keys_cmds_mono]] by simp
qed

text \<open>The command \<open>checkEvent\<close> sends when a quorum of fresh reports contradicts the agreed status.\<close>

definition event_cmd :: "quorumChecker \<Rightarrow> cacheManager \<Rightarrow> string \<Rightarrow> gossipStatus \<Rightarrow> timeoutShellCmd" where
  "event_cmd q cm key status = \<lparr>tc_key = key, tc_status = status, tc_timeout = notificationScriptTimeout,
     tc_cmd = notificationFormat (qc_notificationScript q) key (cm_Get cm key) status\<rparr>"

definition status_change :: "gossipStatus \<Rightarrow> gossipStatus \<Rightarrow> bool" where
  "status_change before after \<longleftrightarrow> (before, after) \<in> {(GOSSIP_UP, GOSSIP_DOWN), (GOSSIP_DOWN, GOSSIP_UP)}"

lemma checkEvent_change:
  assumes "count_orders_ok o'" and "map_ok (gc_consensus v)" and "majority_quorum q v" and "qe_clock env = (\<lambda>_. now)"
    and "\<not> time_Sub now (gc_prevEventTime v) < seconds (qc_eventInterval q)" and "status_change (gc_prevConsensus v) s"
    and "agreed q now (gc_prevEventTime v) v s"
  shows "event_cmd q cm key s \<in> set (qt_cmds (checkEvent q env o' cm key v t))"
proof -
  obtain ev pending s' n' where h: "hasEvent q o' (\<lambda>_. now) v (Suc (qt_clock t)) = ((ev, pending, s'), n')"
    by (metis prod.collapse)
  have "ev" "s' = s"
    using hasEvent_agreed [OF assms(1-3), of now "Suc (qt_clock t)" ev pending s'] h assms(6,7)
    by (auto simp: status_change_def)
  with h assms(4,5) show ?thesis
    by (simp add: checkEvent_def Let_def too_early_def send_cmd_def event_cmd_def)
qed

lemma quorumCheck1_change:
  assumes "gcm_ok c" and "map_get (gcm_data c) key = Some g" and "go_order ordk" and "count_orders_ok o'"
    and "majority_quorum q g" and "leader_env env" and "qe_clock env = (\<lambda>_. now)"
    and "\<not> time_Sub now (gc_prevEventTime g) < seconds (qc_eventInterval q)" and "status_change (gc_prevConsensus g) s"
    and "agreed q now (gc_prevEventTime g) g s"
  shows "event_cmd q cm key s \<in> set (qt_cmds (quorumCheck1 q env o' ordk None cm c t))"
proof -
  let ?v = "gc_copy (co_reports o') g"
  have o: "go_order (co_reports o')" using assms(4) by (simp add: count_orders_ok_def)
  have ok: "map_ok (gc_consensus g)" using assms(1,2) by (auto simp: gcm_ok_get)
  have get: "map_get (gc_consensus ?v) = map_get (gc_consensus g)" by (rule gc_copy_get [OF o ok])
  have v: "gc_prevEventTime ?v = gc_prevEventTime g" "gc_prevConsensus ?v = gc_prevConsensus g" "map_ok (gc_consensus ?v)"
    using fill_map_alive [of "co_reports o' (entries (gc_consensus g))"] by (simp_all add: gc_copy_def map_alive_def)
  have "majority_quorum q ?v"
    using assms(5) get map_len_dom [OF ok] map_len_dom [OF v(3)] by (simp add: majority_quorum_def)
  moreover have "agreed q now (gc_prevEventTime ?v) ?v s"
    using assms(10) get v(1) by (simp add: agreed_def supporters_def)
  ultimately have "event_cmd q cm key s \<in> set (qt_cmds (checkEvent q env o' cm key ?v t))" for t
    using assms(4,7-9) v by (intro checkEvent_change) simp_all
  moreover have "map_get (gcm_Clone ordk (co_reports o') c) key = Some ?v"
    using gcm_Clone_get [OF assms(3,1)] assms(2) by simp
  then have "(key, ?v) \<in> set (ordk (entries (gcm_Clone ordk (co_reports o') c)))"
    using go_order_set [OF assms(3)] by (simp add: map_get_def map_of_SomeD split: option.splits)
  ultimately show ?thesis
    using assms(6) by (simp add: quorumCheck1_def leader_env_def check_keys_fires)
qed

section \<open>A batch of reports that makes a quorum\<close>

text \<open>
  Reports of different nodes that a key has a status: in the form they are sent in, newer than what
  the table has of those nodes and than the last event of the key, and not stale at the instant \<open>now\<close>.
\<close>

definition fresh_batch :: "gossipCacheManager \<Rightarrow> time \<Rightarrow> string \<Rightarrow> gossipStatus \<Rightarrow> MyBroadcastMessage list \<Rightarrow> bool" where
  "fresh_batch c now key s ms \<longleftrightarrow> distinct (map msg_Node ms) \<and>
     (\<forall>m \<in> set ms. sendable m \<and> msg_Key m = key \<and> msg_Status m = s
        \<and> is_news c key (msg_Node m) (msg_TimeStamp m)
        \<and> msg_TimeStamp m > UnixNano (fst (log_view c key))
        \<and> time_Sub now (msg_TimeStamp m) \<le> seconds STALE_INFO_INTERVAL_IN_SECONDS)"

text \<open>The nodes the table has reports of on a key.\<close>

definition reporters :: "gossipCacheManager \<Rightarrow> string \<Rightarrow> string set" where
  "reporters c key = {node. reports c (key, node) \<noteq> None}"

lemma reporters_get: "map_get (gcm_data c) key = Some g \<Longrightarrow> reporters c key = dom (map_get (gc_consensus g))"
  by (auto simp: reporters_def reports_def)

lemma batch_agreed:
  assumes "gcm_live c" and batch: "fresh_batch c now key s ms"
    and c': "reports c' = reports (fold absorb (map msg_report ms) c)" "log_view c' = log_view c" "gcm_live c'"
    and "0 < qc_quorum q" and "qc_quorum q \<le> int (length ms)"
    and "int (card (reporters c key \<union> msg_Node ` set ms)) < 2 * qc_quorum q"
  obtains g where "map_get (gcm_data c') key = Some g" and "majority_quorum q g"
    and "log_view c key = (gc_prevEventTime g, gc_prevConsensus g, gc_empty g, gc_emptyTime g)"
    and "agreed q now (gc_prevEventTime g) g s"
proof -
  have r: "reports c' (key, msg_Node m) = Some (msg_TimeStamp m, s)" if "m \<in> set ms" for m
    using news_absorbed [OF assms(1) c'(1)] batch that by (auto simp: fresh_batch_def)
  obtain m where "m \<in> set ms" using assms(6,7) by (cases ms) auto
  then obtain g where g: "map_get (gcm_data c') key = Some g" using r [of m] by (auto simp: reports_def split: option.splits)
  have ok: "map_ok (gc_consensus g)" using gcm_live_ok [OF c'(3)] g by (auto simp: gcm_ok_get)
  have l: "log_view c key = (gc_prevEventTime g, gc_prevConsensus g, gc_empty g, gc_emptyTime g)"
    unfolding c'(2) [symmetric] using g by (simp add: log_view_def)
  have fin: "finite (reporters c' key)" using reporters_get [OF g] by (simp add: map_get_dom)
  have "reporters c' key \<subseteq> reporters c key \<union> msg_Node ` set ms"
    using absorbed_nodes [OF assms(1) c'(1)] unfolding reporters_def by blast
  moreover have "finite (reporters c key)"
    by (cases "map_get (gcm_data c) key") (simp_all add: reporters_get map_get_dom, simp add: reporters_def reports_def)
  ultimately have "card (reporters c' key) \<le> card (reporters c key \<union> msg_Node ` set ms)"
    by (intro card_mono) simp_all
  then have maj: "majority_quorum q g"
    using assms(6,8) reporters_get [OF g] by (simp add: majority_quorum_def map_len_dom [OF ok])
  let ?S = "supporters (\<lambda>_. now) 0 (gc_prevEventTime g) g s"
  have "msg_Node ` set ms \<subseteq> ?S"
    using r batch g l by (force simp: fresh_batch_def supporters_def may_count_def reports_def)
  moreover have "finite ?S"
    using fin reporters_get [OF g] by (auto simp: supporters_def intro: rev_finite_subset)
  ultimately have "length ms \<le> card ?S"
    using batch card_mono [of ?S "msg_Node ` set ms"] distinct_card [of "map msg_Node ms"] by (simp add: fresh_batch_def)
  then have "agreed q now (gc_prevEventTime g) g s" using assms(7) by (simp add: agreed_def)
  with that g maj l show thesis by blast
qed

lemma outcome_recorded:
  assumes "fsm_ok f" and "leader_env env" and "status_change before s"
  obtains out f' where "timeout_worker True shell (event_cmd q cm key s) = Some out"
    and "qt_proposed (quorumCheck2 env out t) = qt_proposed t @ [entry CMD_NOTIFY_STATUS key s]"
    and "fsm_run [Entry (entry CMD_NOTIFY_STATUS key s)] f = Ret f'"
    and "fst (snd (log_view (f_gcm f') key)) = s"
proof -
  obtain out where out: "timeout_worker True shell (event_cmd q cm key s) = Some out" "sr_key out = key" "sr_status out = s"
    by (auto simp: timeout_worker_def event_cmd_def split_beta Let_def)
  have "outcome_entry out = entry CMD_NOTIFY_STATUS key s"
    using assms(3) out by (auto simp: outcome_entry_def status_change_def status_defs)
  moreover obtain f' where f': "fsm_run [Entry (entry CMD_NOTIFY_STATUS key s)] f = Ret f'"
    "log_state f' = abs_apply (entry CMD_NOTIFY_STATUS key s) (log_state f)"
    using run_one_entry [OF assms(1)] by blast
  moreover have "fst (snd (log_view (f_gcm f') key)) = s"
    using f'(2) by (cases "log_view (f_gcm f) key") (simp add: log_state_def abs_apply_def)
  ultimately show thesis
    using that [of out f'] out(1) assms(2) by (simp add: quorumCheck2_def notifyFollower_leader)
qed

section \<open>Claims\<close>

text \<open>
  (C2) A change of status is detected and recorded from end to end. When a leader with a
  well-formed state receives, as bytes and in any order, fresh reports of a quorum of nodes that
  contradict the agreed status of a key, and the interval since the last event of the key has passed,
  then consuming the inbox and one round of the quorum check start the notification script of that
  key with the new status, whatever other keys the table has and in whatever order the maps are
  walked; and when the script has run, whatever it does, the entry proposed for its outcome makes the
  new status the agreed one on every node that applies it.
\<close>

theorem status_change_detected:
  assumes "bridge_ok b" and "inbox b = []" and "fresh_batch (b_gcm b) now key s ms"
    and "status_change (fst (snd (log_view (b_gcm b) key))) s"
    and "0 < qc_quorum q" and "qc_quorum q \<le> int (length ms)"
    and "int (card (reporters (b_gcm b) key \<union> msg_Node ` set ms)) < 2 * qc_quorum q"
    and "\<not> time_Sub now (fst (log_view (b_gcm b) key)) < seconds (qc_eventInterval q)"
    and "go_order ordk" and "count_orders_ok o'" and "leader_env env" and "qe_clock env = (\<lambda>_. now)"
    and "fsm_ok f"
  shows "\<exists>b1 b2 out f'. receive_all b (map Message ms) = Ret b1 \<and> consumeGossip b1 = Ret b2
    \<and> event_cmd q cm key s \<in> set (qt_cmds (quorumCheck1 q env o' ordk None cm (b_gcm b2) t))
    \<and> timeout_worker True shell (event_cmd q cm key s) = Some out
    \<and> qt_proposed (quorumCheck2 env out t') = qt_proposed t' @ [entry CMD_NOTIFY_STATUS key s]
    \<and> fsm_run [Entry (entry CMD_NOTIFY_STATUS key s)] f = Ret f'
    \<and> fst (snd (log_view (f_gcm f') key)) = s"
proof -
  let ?b = "with_inbox b ms"
  have live: "gcm_live (b_gcm b)" using assms(1) by (simp add: bridge_ok_def)
  have b1: "receive_all b (map Message ms) = Ret ?b"
    using receive_all_messages [of ms b] assms(2,3) by (simp add: fresh_batch_def)
  obtain b2 where b2: "consumeGossip ?b = Ret b2" "bridge_ok b2" "log_view (b_gcm b2) = log_view (b_gcm b)"
    "reports (b_gcm b2) = reports (fold absorb (map msg_report ms) (b_gcm b))"
    using consumeGossip_live [of ?b] assms(1) live by (metis bridge_ok_with_inbox with_inbox_sel)
  then have live2: "gcm_live (b_gcm b2)" by (simp add: bridge_ok_def)
  obtain g where g: "map_get (gcm_data (b_gcm b2)) key = Some g" "majority_quorum q g"
    "log_view (b_gcm b) key = (gc_prevEventTime g, gc_prevConsensus g, gc_empty g, gc_emptyTime g)"
    "agreed q now (gc_prevEventTime g) g s"
    by (rule batch_agreed [OF live assms(3) b2(4,3) live2 assms(5-7)])
  have "event_cmd q cm key s \<in> set (qt_cmds (quorumCheck1 q env o' ordk None cm (b_gcm b2) t))"
    using assms(4,8) g(3) by (intro quorumCheck1_change [OF gcm_live_ok [OF live2] g(1) assms(9,10) g(2) assms(11,12) _ _ g(4)]) simp_all
  moreover obtain out f' where "timeout_worker True shell (event_cmd q cm key s) = Some out"
    "qt_proposed (quorumCheck2 env out t') = qt_proposed t' @ [entry CMD_NOTIFY_STATUS key s]"
    "fsm_run [Entry (entry CMD_NOTIFY_STATUS key s)] f = Ret f'" "fst (snd (log_view (f_gcm f') key)) = s"
    by (rule outcome_recorded [OF assms(13,11,4)])
  ultimately show ?thesis using b1 b2(1) by blast
qed

text \<open>Two nodes report down a key that was up; the quorum is two.\<close>

definition up_bridge :: bridge where
  "up_bridge = (sample_bridge [])\<lparr>b_gcm := \<lparr>gcm_data =
     Some [(''k'', zero_consensus\<lparr>gc_prevConsensus := GOSSIP_UP, gc_consensus := Some []\<rparr>)]\<rparr>\<rparr>"

definition down_reports :: "MyBroadcastMessage list" where
  "down_reports = [report_msg 1000 ''n1'' ''k'' ''v'' GOSSIP_DOWN, report_msg 1001 ''n2'' ''k'' ''v'' GOSSIP_DOWN]"

lemma up_bridge_ok: "bridge_ok up_bridge"
  using sample_bridge_ok [of "[]"]
  by (simp add: up_bridge_def bridge_ok_def gcm_live_def map_alive_def map_ok_def entries_def)

lemma down_reports_fresh: "fresh_batch (b_gcm up_bridge) 2000 ''k'' GOSSIP_DOWN down_reports"
  by code_simp

theorem status_change_detected_witness:
  "\<exists>b1 b2. receive_all up_bridge (map Message down_reports) = Ret b1 \<and> consumeGossip b1 = Ret b2
    \<and> GOSSIP_DOWN \<in> tc_status ` set (qt_cmds (quorumCheck1 sample_checker sample_env2000 plain_count (\<lambda>xs. xs) None
        NewCacheManager (b_gcm b2) empty_trace))"
proof -
  have "reporters (b_gcm up_bridge) ''k'' = {}"
    by (simp add: reporters_def reports_def up_bridge_def map_get_def)
  then have "int (card (reporters (b_gcm up_bridge) ''k'' \<union> msg_Node ` set down_reports)) < 2 * qc_quorum sample_checker"
    by (simp add: down_reports_def sample_checker_def)
  moreover have "\<not> time_Sub 2000 (fst (log_view (b_gcm up_bridge) ''k'')) < seconds (qc_eventInterval sample_checker)"
    by code_simp
  moreover have "status_change (fst (snd (log_view (b_gcm up_bridge) ''k''))) GOSSIP_DOWN"
    by code_simp
  moreover have "inbox up_bridge = []" "qe_clock sample_env2000 = (\<lambda>_. 2000)" "leader_env sample_env2000"
    "0 < qc_quorum sample_checker" "qc_quorum sample_checker \<le> int (length down_reports)"
    by (simp_all add: up_bridge_def sample_bridge_def inbox_def sample_env2000_def leader_env_def sample_checker_def down_reports_def)
  ultimately have "\<exists>b1 b2. receive_all up_bridge (map Message down_reports) = Ret b1 \<and> consumeGossip b1 = Ret b2
    \<and> event_cmd sample_checker NewCacheManager ''k'' GOSSIP_DOWN \<in> set (qt_cmds (quorumCheck1 sample_checker sample_env2000
        plain_count (\<lambda>xs. xs) None NewCacheManager (b_gcm b2) empty_trace))"
    using status_change_detected [OF up_bridge_ok _ down_reports_fresh, of sample_checker "\<lambda>xs. xs" plain_count sample_env2000
        new_fsm NewCacheManager empty_trace up_script empty_trace] plain_count_ok new_fsm_ok by auto
  then show ?thesis by (force simp: event_cmd_def)
qed

end
