(* ===== verification/Go_Word.thy ===== *)
theory Go_Word
  imports "HOL-Library.Word"
begin

text \<open>Unsigned machine words: an increment is an increase except at the largest word.\<close>

lemma word_less_Suc: "(v :: 'a::len word) \<noteq> - 1 \<Longrightarrow> v < v + 1"
proof -
  assume "v \<noteq> - 1"
  then have "1 + v \<noteq> 0" using max_word_wrap [of v] by (auto simp: add.commute)
  then have "unat (1 + v) = Suc (unat v)" by (rule unatSuc)
  then show "v < v + 1" by (simp add: word_less_nat_alt add.commute)
qed

end
