(* ===== verification/Membership.thy ===== *)
theory Membership
  imports Delegate Go_Word "HOL-Library.Multiset"
begin

text \<open>
  The member list of the gossip library (\<open>memberlist/state.go\<close>, \<open>suspicion.go\<close>, \<open>awareness.go\<close>): the
  handlers of the messages about live, suspected and dead nodes, the refutation of an accusation by a
  higher incarnation number, the suspicion timers and the reaping of dead nodes. The service relies
  on it twice: its event delegate counts the members for the broadcast queue, and the scavenger
  deletes the reports of nodes that are not members. A node's state is found by its name in the map;
  the slice of pointers is the list of the names. The handlers hold one lock from begin to end. How
  long a suspicion timer waits is not modelled: one that was started may expire in any later state.
\<close>

section \<open>State\<close>

datatype nodeStateType = stateAlive | stateSuspect | stateDead

type_synonym uint32 = "32 word"

text \<open>The versions are in the order of the messages: PMin, PMax, PCur, DMin, DMax, DCur.\<close>

record nodeState =
  ns_Name :: string
  ns_Addr :: string
  ns_Port :: int
  ns_Meta :: string
  ns_Vsn :: "int list"
  ns_Incarnation :: uint32
  ns_State :: nodeStateType
  ns_StateChange :: time

record alive =
  al_Incarnation :: uint32
  al_Node :: string
  al_Addr :: string
  al_Port :: int
  al_Meta :: string
  al_Vsn :: "int list"

record suspect =
  su_Incarnation :: uint32
  su_Node :: string
  su_From :: string

record dead =
  de_Incarnation :: uint32
  de_Node :: string
  de_From :: string

datatype ml_message = AliveMsg alive | SuspectMsg suspect | DeadMsg dead

record awareness =
  aw_max :: int
  aw_score :: int

record suspicion =
  sp_n :: int
  sp_k :: int
  sp_confirmations :: "string list"

text \<open>
  What the handlers read of the configuration. The service leaves \<open>Alive\<close> nil and the reclaim time
  zero; a conflict delegate has no effect on the state.
\<close>

record ml_config =
  mc_Name :: string
  mc_Alive :: "(alive \<Rightarrow> gerror) option"
  mc_DeadNodeReclaimTime :: duration
  mc_GossipToTheDeadTime :: duration
  mc_SuspicionMult :: int

text \<open>
  \<open>ml_out\<close> holds the broadcasts that were queued, each with the name it is queued under;
  \<open>ml_started\<close> the suspicion timers that were started, since a timer that is dropped from
  \<open>nodeTimers\<close> is not stopped.
\<close>

record memberlist =
  ml_nodeMap :: "string \<rightharpoonup> nodeState"
  ml_nodes :: "string list"
  ml_numNodes :: uint32
  ml_nodeTimers :: "string \<rightharpoonup> suspicion"
  ml_started :: "(string \<times> time) list"
  ml_incarnation :: uint32
  ml_awareness :: awareness
  ml_leave :: bool
  ml_events :: MyEventDelegate
  ml_out :: "(string \<times> ml_message) list"

section \<open>Awareness and suspicion\<close>

definition newAwareness :: "int \<Rightarrow> awareness" where
  "newAwareness mx = \<lparr>aw_max = mx, aw_score = 0\<rparr>"

definition ApplyDelta :: "int \<Rightarrow> awareness \<Rightarrow> awareness" where
  "ApplyDelta delta a =
     (let s = i64 (aw_score a + delta)
      in a\<lparr>aw_score := if s < 0 then 0 else if s > aw_max a - 1 then aw_max a - 1 else s\<rparr>)"

definition GetHealthScore :: "awareness \<Rightarrow> int" where
  "GetHealthScore a = aw_score a"

definition ScaleTimeout :: "awareness \<Rightarrow> duration \<Rightarrow> duration" where
  "ScaleTimeout a timeout = i64 (timeout * (aw_score a + 1))"

definition newSuspicion :: "string \<Rightarrow> int \<Rightarrow> suspicion" where
  "newSuspicion from k = \<lparr>sp_n = 0, sp_k = k, sp_confirmations = [from]\<rparr>"

definition Confirm :: "string \<Rightarrow> suspicion \<Rightarrow> bool \<times> suspicion" where
  "Confirm from s =
     (if sp_n s \<ge> sp_k s then (False, s)
      else if from \<in> set (sp_confirmations s) then (False, s)
      else (True, s\<lparr>sp_n := sp_n s + 1, sp_confirmations := from # sp_confirmations s\<rparr>))"

section \<open>Handlers\<close>

definition put_node :: "nodeState \<Rightarrow> memberlist \<Rightarrow> memberlist" where
  "put_node st m = m\<lparr>ml_nodeMap := (ml_nodeMap m)(ns_Name st \<mapsto> st)\<rparr>"

definition broadcast :: "string \<Rightarrow> ml_message \<Rightarrow> memberlist \<Rightarrow> memberlist" where
  "broadcast name msg m = m\<lparr>ml_out := ml_out m @ [(name, msg)]\<rparr>"

definition nextIncarnation :: "memberlist \<Rightarrow> uint32 \<times> memberlist" where
  "nextIncarnation m = (ml_incarnation m + 1, m\<lparr>ml_incarnation := ml_incarnation m + 1\<rparr>)"

definition skipIncarnation :: "uint32 \<Rightarrow> memberlist \<Rightarrow> uint32 \<times> memberlist" where
  "skipIncarnation offset m = (ml_incarnation m + offset, m\<lparr>ml_incarnation := ml_incarnation m + offset\<rparr>)"

definition refute :: "nodeState \<Rightarrow> uint32 \<Rightarrow> memberlist \<Rightarrow> memberlist" where
  "refute me accusedInc m0 =
     (let (inc, m1) = nextIncarnation m0;
          (inc, m2) = (if accusedInc \<ge> inc then skipIncarnation (accusedInc - inc + 1) m1 else (inc, m1));
          me' = me\<lparr>ns_Incarnation := inc\<rparr>;
          m3 = put_node me' m2;
          m4 = m3\<lparr>ml_awareness := ApplyDelta 1 (ml_awareness m3)\<rparr>
      in broadcast (ns_Addr me) (AliveMsg \<lparr>al_Incarnation = inc, al_Node = ns_Name me, al_Addr = ns_Addr me,
           al_Port = ns_Port me, al_Meta = ns_Meta me, al_Vsn = ns_Vsn me\<rparr>) m4)"

text \<open>An alive message that is not looked at: about this node after it has left, with wrong versions, or filtered.\<close>

definition vsn_wrong :: "int list \<Rightarrow> bool" where
  "vsn_wrong vsn \<longleftrightarrow> length vsn \<ge> 3 \<and> (vsn ! 0 = 0 \<or> vsn ! 1 = 0 \<or> vsn ! 0 > vsn ! 1)"

definition alive_filtered :: "ml_config \<Rightarrow> alive \<Rightarrow> bool" where
  "alive_filtered cfg a =
     (case mc_Alive cfg of None \<Rightarrow> False | Some notify \<Rightarrow> length (al_Vsn a) < 6 \<or> notify a \<noteq> None)"

text \<open>A node seen for the first time: dead until the message is accepted, at a random place of the list.\<close>

definition fresh_node :: "alive \<Rightarrow> nodeState" where
  "fresh_node a = \<lparr>ns_Name = al_Node a, ns_Addr = al_Addr a, ns_Port = al_Port a, ns_Meta = al_Meta a,
     ns_Vsn = (if length (al_Vsn a) > 5 then take 6 (al_Vsn a) else replicate 6 0),
     ns_Incarnation = 0, ns_State = stateDead, ns_StateChange = zero_time\<rparr>"

definition add_node :: "nat \<Rightarrow> alive \<Rightarrow> memberlist \<Rightarrow> memberlist" where
  "add_node offset a m =
     (let n = length (ml_nodes m);
          xs = ml_nodes m @ [al_Node a]
      in (put_node (fresh_node a) m)\<lparr>ml_nodes := xs[offset := xs ! n, n := xs ! offset],
           ml_numNodes := ml_numNodes m + 1\<rparr>)"

definition notify_events :: "nodeState \<Rightarrow> nodeState \<Rightarrow> memberlist \<Rightarrow> memberlist" where
  "notify_events old new m =
     (if ns_State old = stateDead then m\<lparr>ml_events := ed_NotifyJoin (ml_events m)\<rparr>
      else if ns_Meta old \<noteq> ns_Meta new then m\<lparr>ml_events := ed_NotifyUpdate (ml_events m)\<rparr>
      else m)"

definition accepted :: "time \<Rightarrow> alive \<Rightarrow> nodeState \<Rightarrow> nodeState" where
  "accepted now a st =
     (let st1 = st\<lparr>ns_Vsn := if 0 < length (al_Vsn a) then take 6 (al_Vsn a) else ns_Vsn st,
                   ns_Incarnation := al_Incarnation a, ns_Meta := al_Meta a, ns_Addr := al_Addr a, ns_Port := al_Port a\<rparr>
      in if ns_State st1 \<noteq> stateAlive then st1\<lparr>ns_State := stateAlive, ns_StateChange := now\<rparr> else st1)"

text \<open>The rest of \<open>aliveNode\<close>, from the comparison of the incarnation numbers on.\<close>

definition alive_update ::
  "ml_config \<Rightarrow> time \<Rightarrow> bool \<Rightarrow> bool \<Rightarrow> alive \<Rightarrow> nodeState \<Rightarrow> memberlist \<Rightarrow> memberlist go" where
  "alive_update cfg now bootstrap updatesNode a st m =
     (let isLocalNode = (ns_Name st = mc_Name cfg)
      in if al_Incarnation a \<le> ns_Incarnation st \<and> \<not> isLocalNode \<and> \<not> updatesNode then Ret m
         else if al_Incarnation a < ns_Incarnation st \<and> isLocalNode then Ret m
         else (let m1 = m\<lparr>ml_nodeTimers := (ml_nodeTimers m)(al_Node a := None)\<rparr>
               in if \<not> bootstrap \<and> isLocalNode
                  then if al_Incarnation a = ns_Incarnation st \<and> al_Meta a = ns_Meta st \<and> al_Vsn a = ns_Vsn st
                       then Ret m1
                       else Ret (notify_events st st (refute st (al_Incarnation a) m1))
                  else if 0 < length (al_Vsn a) \<and> length (al_Vsn a) < 6 then Panic IndexOutOfRange
                  else Ret (notify_events st (accepted now a st)
                         (put_node (accepted now a st) (broadcast (al_Node a) (AliveMsg a) m1)))))"

definition aliveNode ::
  "ml_config \<Rightarrow> time \<Rightarrow> nat \<Rightarrow> bool \<Rightarrow> alive \<Rightarrow> memberlist \<Rightarrow> memberlist go" where
  "aliveNode cfg now offset bootstrap a m =
     (if ml_leave m \<and> al_Node a = mc_Name cfg then Ret m
      else if vsn_wrong (al_Vsn a) then Ret m
      else if alive_filtered cfg a then Ret m
      else case ml_nodeMap m (al_Node a) of
             None \<Rightarrow> alive_update cfg now bootstrap False a (fresh_node a) (add_node offset a m)
           | Some st \<Rightarrow>
               if ns_Addr st \<noteq> al_Addr a \<or> ns_Port st \<noteq> al_Port a
               then if ns_State st = stateDead \<and> mc_DeadNodeReclaimTime cfg > 0
                       \<and> time_Sub now (ns_StateChange st) > mc_DeadNodeReclaimTime cfg
                    then alive_update cfg now bootstrap True a st m
                    else Ret m
               else alive_update cfg now bootstrap False a st m)"

definition suspicion_k :: "ml_config \<Rightarrow> memberlist \<Rightarrow> int" where
  "suspicion_k cfg m =
     (let k = mc_SuspicionMult cfg - 2 in if int (unat (ml_numNodes m)) - 2 < k then 0 else k)"

definition suspectNode :: "ml_config \<Rightarrow> time \<Rightarrow> suspect \<Rightarrow> memberlist \<Rightarrow> memberlist" where
  "suspectNode cfg now s m =
     (case ml_nodeMap m (su_Node s) of
        None \<Rightarrow> m
      | Some st \<Rightarrow>
          if su_Incarnation s < ns_Incarnation st then m
          else (case ml_nodeTimers m (su_Node s) of
                  Some timer \<Rightarrow>
                    (let (fresh, timer') = Confirm (su_From s) timer;
                         m1 = m\<lparr>ml_nodeTimers := (ml_nodeTimers m)(su_Node s \<mapsto> timer')\<rparr>
                     in if fresh then broadcast (su_Node s) (SuspectMsg s) m1 else m1)
                | None \<Rightarrow>
                    if ns_State st \<noteq> stateAlive then m
                    else if ns_Name st = mc_Name cfg then refute st (su_Incarnation s) m
                    else (let m1 = broadcast (su_Node s) (SuspectMsg s) m;
                              m2 = put_node (st\<lparr>ns_Incarnation := su_Incarnation s, ns_State := stateSuspect,
                                                ns_StateChange := now\<rparr>) m1
                          in m2\<lparr>ml_nodeTimers := (ml_nodeTimers m2)(su_Node s \<mapsto> newSuspicion (su_From s) (suspicion_k cfg m2)),
                                ml_started := (su_Node s, now) # ml_started m2\<rparr>)))"

definition deadNode :: "ml_config \<Rightarrow> time \<Rightarrow> dead \<Rightarrow> memberlist \<Rightarrow> memberlist" where
  "deadNode cfg now d m =
     (case ml_nodeMap m (de_Node d) of
        None \<Rightarrow> m
      | Some st \<Rightarrow>
          if de_Incarnation d < ns_Incarnation st then m
          else (let m1 = m\<lparr>ml_nodeTimers := (ml_nodeTimers m)(de_Node d := None)\<rparr>
                in if ns_State st = stateDead then m1
                   else if ns_Name st = mc_Name cfg \<and> \<not> ml_leave m then refute st (de_Incarnation d) m1
                   else (let m2 = put_node (st\<lparr>ns_Incarnation := de_Incarnation d, ns_State := stateDead,
                                              ns_StateChange := now\<rparr>) (broadcast (de_Node d) (DeadMsg d) m1)
                         in m2\<lparr>ml_events := ed_NotifyLeave (ml_events m2)\<rparr>)))"

text \<open>
  The check a suspicion timer makes when it expires, and the message it then handles. \<open>change\<close> is the
  time at which the timer was started.
\<close>

definition suspicion_expired :: "ml_config \<Rightarrow> string \<Rightarrow> time \<Rightarrow> memberlist \<Rightarrow> dead option" where
  "suspicion_expired cfg name change m =
     (case ml_nodeMap m name of
        Some st \<Rightarrow> if ns_State st = stateSuspect \<and> ns_StateChange st = change
                   then Some \<lparr>de_Incarnation = ns_Incarnation st, de_Node = ns_Name st, de_From = mc_Name cfg\<rparr> else None
      | None \<Rightarrow> None)"

text \<open>One entry of a state transfer: a node the other side holds for dead is only suspected.\<close>

definition merge_one :: "ml_config \<Rightarrow> time \<Rightarrow> nat \<Rightarrow> nodeState \<Rightarrow> memberlist \<Rightarrow> memberlist go" where
  "merge_one cfg now offset r m =
     (case ns_State r of
        stateAlive \<Rightarrow> aliveNode cfg now offset False \<lparr>al_Incarnation = ns_Incarnation r, al_Node = ns_Name r,
          al_Addr = ns_Addr r, al_Port = ns_Port r, al_Meta = ns_Meta r, al_Vsn = ns_Vsn r\<rparr> m
      | _ \<Rightarrow> Ret (suspectNode cfg now \<lparr>su_Incarnation = ns_Incarnation r, su_Node = ns_Name r, su_From = mc_Name cfg\<rparr> m))"

text \<open>\<open>Leave\<close> sets the flag, reads its own entry, and then handles a message about it, under one lock each.\<close>

definition leave_mark :: "memberlist \<Rightarrow> memberlist" where
  "leave_mark m = m\<lparr>ml_leave := True\<rparr>"

definition leave_message :: "ml_config \<Rightarrow> memberlist \<Rightarrow> dead option" where
  "leave_message cfg m =
     (case ml_nodeMap m (mc_Name cfg) of
        None \<Rightarrow> None
      | Some st \<Rightarrow> Some \<lparr>de_Incarnation = ns_Incarnation st, de_Node = ns_Name st, de_From = []\<rparr>)"

definition ml_Leave :: "ml_config \<Rightarrow> time \<Rightarrow> memberlist \<Rightarrow> memberlist" where
  "ml_Leave cfg now m =
     (if ml_leave m then m
      else (let m1 = leave_mark m
            in case leave_message cfg m1 of None \<Rightarrow> m1 | Some d \<Rightarrow> deadNode cfg now d m1))"

section \<open>Reaping\<close>

definition swap :: "nat \<Rightarrow> nat \<Rightarrow> 'a list \<Rightarrow> 'a list" where
  "swap i j xs = xs[i := xs ! j, j := xs ! i]"

lemma swap_length [simp]: "length (swap i j xs) = length xs"
  by (simp add: swap_def)

function moveDeadNodes :: "('a \<Rightarrow> bool) \<Rightarrow> 'a list \<Rightarrow> nat \<Rightarrow> nat \<Rightarrow> 'a list \<times> nat" where
  "moveDeadNodes reap xs i numDead =
     (if i < length xs - numDead
      then if \<not> reap (xs ! i) then moveDeadNodes reap xs (Suc i) numDead
           else moveDeadNodes reap (swap i (length xs - numDead - 1) xs) i (Suc numDead)
      else (xs, length xs - numDead))"
  by pat_completeness auto
termination
  by (relation "measure (\<lambda>(_, xs, i, numDead). length xs - numDead - i)") auto

declare moveDeadNodes.simps [simp del]

text \<open>Dead for longer than the gossip to the dead; \<open>clock\<close> is the time read for each node.\<close>

definition reapable :: "ml_config \<Rightarrow> (string \<Rightarrow> time) \<Rightarrow> memberlist \<Rightarrow> string \<Rightarrow> bool" where
  "reapable cfg clock m name =
     (case ml_nodeMap m name of
        None \<Rightarrow> False
      | Some st \<Rightarrow> ns_State st = stateDead \<and> time_Sub (clock name) (ns_StateChange st) > mc_GossipToTheDeadTime cfg)"

definition resetNodes :: "ml_config \<Rightarrow> (string \<Rightarrow> time) \<Rightarrow> (string list \<Rightarrow> string list) \<Rightarrow> memberlist \<Rightarrow> memberlist" where
  "resetNodes cfg clock shuffle m =
     (let (xs, deadIdx) = moveDeadNodes (reapable cfg clock m) (ml_nodes m) 0 0
      in m\<lparr>ml_nodeMap := (\<lambda>name. if name \<in> set (drop deadIdx xs) then None else ml_nodeMap m name),
           ml_nodes := shuffle (take deadIdx xs), ml_numNodes := of_nat deadIdx\<rparr>)"

section \<open>Members\<close>

definition is_live :: "memberlist \<Rightarrow> string \<Rightarrow> bool" where
  "is_live m name = (case ml_nodeMap m name of None \<Rightarrow> False | Some st \<Rightarrow> ns_State st \<noteq> stateDead)"

text \<open>The list as \<open>Members\<close> of the gossip node sees it.\<close>

definition member_table :: "memberlist \<Rightarrow> ml_node list" where
  "member_table m = map (\<lambda>name. \<lparr>mn_Name = name, mn_dead = \<not> is_live m name\<rparr>) (ml_nodes m)"

definition newMemberlist :: "ml_config \<Rightarrow> memberlist" where
  "newMemberlist cfg = \<lparr>ml_nodeMap = Map.empty, ml_nodes = [], ml_numNodes = 0, ml_nodeTimers = Map.empty,
     ml_started = [], ml_incarnation = 0, ml_awareness = newAwareness 8, ml_leave = False,
     ml_events = \<lparr>ed_Num = 0\<rparr>, ml_out = []\<rparr>"

definition setAlive :: "ml_config \<Rightarrow> time \<Rightarrow> string \<Rightarrow> int \<Rightarrow> string \<Rightarrow> int list \<Rightarrow> memberlist \<Rightarrow> memberlist go" where
  "setAlive cfg now addr port meta vsn m =
     (let (inc, m1) = nextIncarnation m
      in aliveNode cfg now 0 True \<lparr>al_Incarnation = inc, al_Node = mc_Name cfg, al_Addr = addr, al_Port = port,
           al_Meta = meta, al_Vsn = vsn\<rparr> m1)"

section \<open>Runs\<close>

text \<open>
  A timer that expires reads the incarnation number after it has released the lock, so that the
  message it handles may be about a later one; \<open>recv_dead\<close> with any message covers that. It also is
  the last part of \<open>Leave\<close>, whose first part is the step \<open>leave\<close>.
\<close>

inductive ml_step :: "ml_config \<Rightarrow> memberlist \<Rightarrow> memberlist go \<Rightarrow> bool" for cfg where
  recv_alive: "offset < max 1 (length (ml_nodes m)) \<Longrightarrow> ml_step cfg m (aliveNode cfg now offset False a m)"
| recv_suspect: "ml_step cfg m (Ret (suspectNode cfg now s m))"
| recv_dead: "ml_step cfg m (Ret (deadNode cfg now d m))"
| expire: "(name, change) \<in> set (ml_started m) \<Longrightarrow> suspicion_expired cfg name change m = Some d \<Longrightarrow>
    ml_step cfg m (Ret (deadNode cfg now d m))"
| merge: "offset < max 1 (length (ml_nodes m)) \<Longrightarrow> ml_step cfg m (merge_one cfg now offset r m)"
| leave: "\<not> ml_leave m \<Longrightarrow> ml_step cfg m (Ret (leave_mark m))"
| reset: "go_order shuffle \<Longrightarrow> ml_step cfg m (Ret (resetNodes cfg clock shuffle m))"

inductive ml_run :: "ml_config \<Rightarrow> memberlist \<Rightarrow> bool" for cfg where
  create: "setAlive cfg now addr port meta vsn (newMemberlist cfg) = Ret m \<Longrightarrow>
    length vsn = 6 \<Longrightarrow> \<not> vsn_wrong vsn \<Longrightarrow> mc_Alive cfg = None \<Longrightarrow> ml_run cfg m"
| step: "ml_run cfg m \<Longrightarrow> ml_step cfg m (Ret m') \<Longrightarrow> ml_run cfg m'"

section \<open>Invariant\<close>

definition live_set :: "memberlist \<Rightarrow> string set" where
  "live_set m = {name. is_live m name}"

text \<open>
  The list and the map have the same nodes; a node is suspected exactly when it has a timer; this
  node is alive with its current incarnation number and proper versions, unless it leaves and is dead
  or reaped; and the event delegate has counted the members.
\<close>

definition proper_vsn :: "int list \<Rightarrow> bool" where
  "proper_vsn vsn \<longleftrightarrow> length vsn = 6 \<and> \<not> vsn_wrong vsn"

fun self_ok :: "bool \<Rightarrow> uint32 \<Rightarrow> nodeState option \<Rightarrow> bool" where
  "self_ok leaving inc None \<longleftrightarrow> leaving"
| "self_ok leaving inc (Some st) \<longleftrightarrow>
     ns_State st = stateAlive \<and> ns_Incarnation st = inc \<and> proper_vsn (ns_Vsn st) \<or> leaving \<and> ns_State st = stateDead"

definition ml_ok :: "ml_config \<Rightarrow> memberlist \<Rightarrow> bool" where
  "ml_ok cfg m \<longleftrightarrow>
     distinct (ml_nodes m) \<and> set (ml_nodes m) = dom (ml_nodeMap m)
     \<and> (\<forall>name st. ml_nodeMap m name = Some st \<longrightarrow> ns_Name st = name)
     \<and> ml_numNodes m = of_nat (length (ml_nodes m))
     \<and> (\<forall>name. ml_nodeTimers m name \<noteq> None \<longleftrightarrow> (\<exists>st. ml_nodeMap m name = Some st \<and> ns_State st = stateSuspect))
     \<and> self_ok (ml_leave m) (ml_incarnation m) (ml_nodeMap m (mc_Name cfg))
     \<and> ed_Num (ml_events m) = i64 (int (card (live_set m)))"

lemma i64_add: "i64 (i64 x + y) = i64 (x + y)"
  by (simp add: i64_def mod_simps algebra_simps)

lemma put_node_sel [simp]:
  "ml_nodeMap (put_node st m) = (ml_nodeMap m)(ns_Name st \<mapsto> st)" "ml_nodes (put_node st m) = ml_nodes m"
  "ml_numNodes (put_node st m) = ml_numNodes m" "ml_nodeTimers (put_node st m) = ml_nodeTimers m"
  "ml_incarnation (put_node st m) = ml_incarnation m" "ml_leave (put_node st m) = ml_leave m"
  "ml_events (put_node st m) = ml_events m" "ml_out (put_node st m) = ml_out m"
  "ml_started (put_node st m) = ml_started m" "ml_awareness (put_node st m) = ml_awareness m"
  by (simp_all add: put_node_def)

lemma broadcast_sel [simp]:
  "ml_nodeMap (broadcast n x m) = ml_nodeMap m" "ml_nodes (broadcast n x m) = ml_nodes m"
  "ml_numNodes (broadcast n x m) = ml_numNodes m" "ml_nodeTimers (broadcast n x m) = ml_nodeTimers m"
  "ml_incarnation (broadcast n x m) = ml_incarnation m" "ml_leave (broadcast n x m) = ml_leave m"
  "ml_events (broadcast n x m) = ml_events m" "ml_out (broadcast n x m) = ml_out m @ [(n, x)]"
  "ml_started (broadcast n x m) = ml_started m" "ml_awareness (broadcast n x m) = ml_awareness m"
  by (simp_all add: broadcast_def)

text \<open>The incarnation number a refutation takes.\<close>

definition refuted_inc :: "uint32 \<Rightarrow> memberlist \<Rightarrow> uint32" where
  "refuted_inc accused m = (if accused \<ge> ml_incarnation m + 1 then accused + 1 else ml_incarnation m + 1)"

lemma refute_sel [simp]:
  "ml_nodeMap (refute me acc m) = (ml_nodeMap m)(ns_Name me \<mapsto> me\<lparr>ns_Incarnation := refuted_inc acc m\<rparr>)"
  "ml_nodes (refute me acc m) = ml_nodes m" "ml_numNodes (refute me acc m) = ml_numNodes m"
  "ml_nodeTimers (refute me acc m) = ml_nodeTimers m" "ml_incarnation (refute me acc m) = refuted_inc acc m"
  "ml_leave (refute me acc m) = ml_leave m" "ml_events (refute me acc m) = ml_events m"
  "ml_out (refute me acc m) = ml_out m @ [(ns_Addr me, AliveMsg \<lparr>al_Incarnation = refuted_inc acc m, al_Node = ns_Name me,
     al_Addr = ns_Addr me, al_Port = ns_Port me, al_Meta = ns_Meta me, al_Vsn = ns_Vsn me\<rparr>)]"
  by (simp_all add: refute_def Let_def split_beta nextIncarnation_def skipIncarnation_def refuted_inc_def
      add.commute [of acc])

lemma live_set_finite: "ml_ok cfg m \<Longrightarrow> finite (live_set m)"
  by (rule finite_subset [OF _ finite_set [of "ml_nodes m"]]) (auto simp: ml_ok_def live_set_def is_live_def split: option.splits)

text \<open>One entry of the map changes, with its timer and the count.\<close>

lemma update_ok:
  assumes ok: "ml_ok cfg m" and st: "ml_nodeMap m name = Some st"
    and map: "ml_nodeMap m' = (ml_nodeMap m)(name \<mapsto> st')" and name: "ns_Name st' = name"
    and same: "ml_nodes m' = ml_nodes m" "ml_numNodes m' = ml_numNodes m" "ml_leave m' = ml_leave m"
    and timers: "ml_nodeTimers m' = (ml_nodeTimers m)(name := t)" "t = None \<longleftrightarrow> ns_State st' \<noteq> stateSuspect"
    and here: "name = mc_Name cfg \<Longrightarrow> self_ok (ml_leave m) (ml_incarnation m') (Some st')"
    and there: "name \<noteq> mc_Name cfg \<Longrightarrow> ml_incarnation m' = ml_incarnation m"
    and num: "ed_Num (ml_events m') = i64 (ed_Num (ml_events m)
      + ((if ns_State st' \<noteq> stateDead then 1 else 0) - (if ns_State st \<noteq> stateDead then 1 else 0)))"
  shows "ml_ok cfg m'"
proof -
  have fin: "finite (live_set m)" by (rule live_set_finite [OF ok])
  have l: "live_set m' = (if ns_State st' \<noteq> stateDead then insert name (live_set m) else live_set m - {name})"
    by (auto simp: live_set_def is_live_def map split: if_splits)
  have mem: "name \<in> live_set m \<longleftrightarrow> ns_State st \<noteq> stateDead"
    using st by (simp add: live_set_def is_live_def)
  have "card (live_set m - {name}) = card (live_set m) - 1" "0 < card (live_set m)" if "name \<in> live_set m"
    using that fin by (auto simp: card_gt_0_iff)
  then have "int (card (live_set m')) = int (card (live_set m))
      + ((if ns_State st' \<noteq> stateDead then 1 else 0) - (if ns_State st \<noteq> stateDead then 1 else 0))"
    using fin mem by (auto simp: l card_insert_if insert_absorb)
  then have "ed_Num (ml_events m') = i64 (int (card (live_set m')))"
    using num ok by (simp add: ml_ok_def i64_add)
  moreover have "self_ok (ml_leave m') (ml_incarnation m') (ml_nodeMap m' (mc_Name cfg))"
    using ok here there by (cases "name = mc_Name cfg") (simp_all add: ml_ok_def map same)
  ultimately show ?thesis
    using ok st name timers by (auto simp: ml_ok_def map same)
qed

section \<open>The handlers keep the invariant\<close>

lemma ml_ok_name: "ml_ok cfg m \<Longrightarrow> ml_nodeMap m name = Some st \<Longrightarrow> ns_Name st = name"
  by (simp add: ml_ok_def)

lemma ml_ok_timer: "ml_ok cfg m \<Longrightarrow> ml_nodeMap m name = Some st \<Longrightarrow> ml_nodeTimers m name = None \<longleftrightarrow> ns_State st \<noteq> stateSuspect"
  unfolding ml_ok_def by (metis option.inject)

lemma ml_ok_here:
  "ml_ok cfg m \<Longrightarrow> ml_nodeMap m (mc_Name cfg) = Some st \<Longrightarrow> self_ok (ml_leave m) (ml_incarnation m) (Some st)"
  by (simp add: ml_ok_def)

lemma events_sel [simp]:
  "ed_Num (ed_NotifyJoin e) = i64 (ed_Num e + 1)" "ed_Num (ed_NotifyLeave e) = i64 (ed_Num e - 1)"
  "ed_NotifyUpdate e = e"
  by (simp_all add: ed_NotifyJoin_def ed_NotifyLeave_def ed_NotifyUpdate_def)

lemma ml_ok_num: "ml_ok cfg m \<Longrightarrow> i64 (ed_Num (ml_events m)) = ed_Num (ml_events m)"
  by (simp add: ml_ok_def i64_add [where y = 0, simplified])

lemma refute_ok:
  assumes ok: "ml_ok cfg m" and st: "ml_nodeMap m (mc_Name cfg) = Some st" and s: "ns_State st = stateAlive"
  shows "ml_ok cfg (refute st acc m)"
proof (rule update_ok [OF ok st, where st' = "st\<lparr>ns_Incarnation := refuted_inc acc m\<rparr>" and t = None])
  show "ml_nodeTimers (refute st acc m) = (ml_nodeTimers m)(mc_Name cfg := None)"
    using ml_ok_timer [OF ok st] s by (simp add: fun_upd_idem)
qed (use ml_ok_here [OF ok st] ml_ok_name [OF ok st] ml_ok_num [OF ok] s in simp_all)

text \<open>A node that is not suspected has no timer to clear.\<close>

lemma clear_timer:
  "ml_ok cfg m \<Longrightarrow> ml_nodeMap m name = Some st \<Longrightarrow> ns_State st \<noteq> stateSuspect \<Longrightarrow>
     m\<lparr>ml_nodeTimers := (ml_nodeTimers m)(name := None)\<rparr> = m"
  using ml_ok_timer [of cfg m name st] by (simp add: fun_upd_idem)

lemma suspicion_k_sel [simp]:
  "suspicion_k cfg (put_node st m) = suspicion_k cfg m" "suspicion_k cfg (broadcast n x m) = suspicion_k cfg m"
  by (simp_all add: suspicion_k_def)

lemma suspectNode_ok: "ml_ok cfg m \<Longrightarrow> ml_ok cfg (suspectNode cfg now s m)"
proof (cases "ml_nodeMap m (su_Node s)")
  case (Some st)
  assume ok: "ml_ok cfg m"
  have n: "ns_Name st = su_Node s" by (rule ml_ok_name [OF ok Some])
  note here = ml_ok_here [OF ok] and num = ml_ok_num [OF ok]
  show ?thesis
  proof (cases "ml_nodeTimers m (su_Node s)")
    case None
    consider "su_Incarnation s < ns_Incarnation st \<or> ns_State st \<noteq> stateAlive"
      | "\<not> su_Incarnation s < ns_Incarnation st" "ns_State st = stateAlive" "su_Node s = mc_Name cfg"
      | "\<not> su_Incarnation s < ns_Incarnation st" "ns_State st = stateAlive" "su_Node s \<noteq> mc_Name cfg" by blast
    then show ?thesis
    proof cases
      case 1
      then show ?thesis using ok Some None by (auto simp: suspectNode_def)
    next
      case 2
      then have "ml_ok cfg (refute st (su_Incarnation s) m)" using refute_ok [OF ok] Some by simp
      then show ?thesis using 2 None n Some by (simp add: suspectNode_def)
    next
      case 3
      then show ?thesis
        by (intro update_ok [OF ok Some, where st' = "st\<lparr>ns_Incarnation := su_Incarnation s, ns_State := stateSuspect,
            ns_StateChange := now\<rparr>" and t = "Some (newSuspicion (su_From s) (suspicion_k cfg m))"]) (use 3 None n num Some in \<open>simp_all add: suspectNode_def Let_def\<close>)
    qed
  next
    case (Some timer)
    note st = \<open>ml_nodeMap m (su_Node s) = Some st\<close>
    let ?m = "m\<lparr>ml_nodeTimers := (ml_nodeTimers m)(su_Node s \<mapsto> snd (Confirm (su_From s) timer))\<rparr>"
    have s: "ns_State st = stateSuspect" using ml_ok_timer [OF ok st] Some by simp
    then have "su_Node s \<noteq> mc_Name cfg" using here [of st] st by auto
    then have "ml_ok cfg (if fst (Confirm (su_From s) timer) then broadcast (su_Node s) (SuspectMsg s) ?m else ?m)"
      using s n num st
      by (intro update_ok [OF ok st, where st' = st and t = "Some (snd (Confirm (su_From s) timer))"]) (simp_all add: fun_upd_idem)
    then show ?thesis using ok Some st by (simp add: suspectNode_def Let_def split_beta)
  qed
qed (simp add: suspectNode_def)

lemma deadNode_ok:
  assumes "ml_ok cfg m"
  shows "ml_ok cfg (deadNode cfg now d m)"
proof (cases "ml_nodeMap m (de_Node d)")
  case (Some st)
  have n: "ns_Name st = de_Node d" by (rule ml_ok_name [OF assms Some])
  note here = ml_ok_here [OF assms] and num = ml_ok_num [OF assms]
  consider "de_Incarnation d < ns_Incarnation st" | "\<not> de_Incarnation d < ns_Incarnation st" "ns_State st = stateDead"
    | "\<not> de_Incarnation d < ns_Incarnation st" "ns_State st \<noteq> stateDead" "de_Node d = mc_Name cfg \<and> \<not> ml_leave m"
    | "\<not> de_Incarnation d < ns_Incarnation st" "ns_State st \<noteq> stateDead" "\<not> (de_Node d = mc_Name cfg \<and> \<not> ml_leave m)" by blast
  then show ?thesis
  proof cases
    case 1
    then show ?thesis using assms Some by (simp add: deadNode_def)
  next
    case 2
    then show ?thesis using clear_timer [OF assms Some] assms Some by (simp add: deadNode_def)
  next
    case 3
    then have l: "\<not> ml_leave m" "ns_State st = stateAlive" using here [of st] Some by auto
    then have "ml_ok cfg (refute st (de_Incarnation d) m)" using refute_ok [OF assms] Some 3 by simp
    then show ?thesis using clear_timer [OF assms Some] 3 l n Some by (simp add: deadNode_def Let_def)
  next
    case 4
    then show ?thesis
      using n num Some
      by (intro update_ok [OF assms Some, where st' = "st\<lparr>ns_Incarnation := de_Incarnation d, ns_State := stateDead,
          ns_StateChange := now\<rparr>" and t = None]) (auto simp: deadNode_def Let_def)
  qed
qed (simp add: deadNode_def assms)

lemma leave_mark_ok: "ml_ok cfg m \<Longrightarrow> ml_ok cfg (leave_mark m)"
  by (cases "ml_nodeMap m (mc_Name cfg)") (auto simp: ml_ok_def leave_mark_def live_set_def is_live_def)

lemma add_node_ok:
  assumes ok: "ml_ok cfg m" and None: "ml_nodeMap m (al_Node a) = None" and "offset < max 1 (length (ml_nodes m))"
  shows "ml_ok cfg (add_node offset a m)"
proof -
  let ?m = "add_node offset a m" and ?n = "length (ml_nodes m)" and ?xs = "ml_nodes m @ [al_Node a]"
  have "mset (ml_nodes ?m) = mset ?xs"
    using mset_swap [of ?n ?xs offset] assms(3) by (simp add: add_node_def Let_def)
  then have nodes: "set (ml_nodes ?m) = insert (al_Node a) (set (ml_nodes m))" "distinct (ml_nodes ?m) = distinct ?xs"
    "length (ml_nodes ?m) = Suc ?n"
    by (metis set_mset_mset list.simps(15) rotate1.simps(2) set_rotate1, metis mset_eq_imp_distinct_iff, metis length_append_singleton mset_eq_length)
  have sel: "ml_nodeMap ?m = (ml_nodeMap m)(al_Node a \<mapsto> fresh_node a)" "ml_numNodes ?m = ml_numNodes m + 1"
    "ml_nodeTimers ?m = ml_nodeTimers m" "ml_leave ?m = ml_leave m" "ml_incarnation ?m = ml_incarnation m"
    "ml_events ?m = ml_events m"
    by (simp_all add: add_node_def Let_def fresh_node_def)
  have "is_live ?m name = is_live m name" for name
    using None by (simp add: is_live_def sel(1) fresh_node_def)
  then have live: "is_live ?m = is_live m" "live_set ?m = live_set m" by (simp_all add: live_set_def fun_eq_iff)
  have "al_Node a \<notin> set (ml_nodes m)" using ok None by (auto simp: ml_ok_def)
  moreover have "al_Node a \<noteq> mc_Name cfg \<or> ml_leave m" using ok None by (auto simp: ml_ok_def)
  ultimately show ?thesis
    using ok None nodes by (auto simp: ml_ok_def sel live fresh_node_def)
qed

lemma accepted_sel [simp]:
  "ns_Name (accepted now a st) = ns_Name st" "ns_State (accepted now a st) = stateAlive"
  "ns_Incarnation (accepted now a st) = al_Incarnation a" "ns_Meta (accepted now a st) = al_Meta a"
  by (simp_all add: accepted_def Let_def)

lemma notify_events_sel [simp]:
  "ml_nodeMap (notify_events old new m) = ml_nodeMap m" "ml_nodes (notify_events old new m) = ml_nodes m"
  "ml_numNodes (notify_events old new m) = ml_numNodes m" "ml_nodeTimers (notify_events old new m) = ml_nodeTimers m"
  "ml_incarnation (notify_events old new m) = ml_incarnation m" "ml_leave (notify_events old new m) = ml_leave m"
  "ml_out (notify_events old new m) = ml_out m"
  "ed_Num (ml_events (notify_events old new m)) = (if ns_State old = stateDead then i64 (ed_Num (ml_events m) + 1) else ed_Num (ml_events m))"
  by (simp_all add: notify_events_def)

lemma alive_update_ok:
  assumes ok: "ml_ok cfg m" and st: "ml_nodeMap m (al_Node a) = Some st" and "\<not> (ml_leave m \<and> al_Node a = mc_Name cfg)"
    and r: "alive_update cfg now False updates a st m = Ret m'"
  shows "ml_ok cfg m'"
proof (cases "al_Node a = mc_Name cfg")
  case True
  have n: "ns_Name st = al_Node a" by (rule ml_ok_name [OF ok st])
  have s: "ns_State st = stateAlive" "\<not> ml_leave m" using ml_ok_here [OF ok] st True assms(3) by auto
  have "notify_events st st x = x" for x using s by (simp add: notify_events_def)
  then have "m' = m \<or> m' = refute st (al_Incarnation a) m"
    using r True n clear_timer [OF ok st] s(1) by (auto simp: alive_update_def Let_def split: if_splits)
  then show ?thesis using ok refute_ok [OF ok] st True s(1) by auto
next
  case False
  have n: "ns_Name st = al_Node a" by (rule ml_ok_name [OF ok st])
  consider "m' = m" | "m' = notify_events st (accepted now a st) (put_node (accepted now a st)
      (broadcast (al_Node a) (AliveMsg a) (m\<lparr>ml_nodeTimers := (ml_nodeTimers m)(al_Node a := None)\<rparr>)))"
    using r False n by (auto simp: alive_update_def Let_def split: if_splits)
  then show ?thesis
  proof cases
    case 2
    show ?thesis
      unfolding 2 using False n ml_ok_num [OF ok]
      by (intro update_ok [OF ok st, where st' = "accepted now a st" and t = None]) simp_all
  qed (simp add: ok)
qed

lemma aliveNode_ok:
  assumes ok: "ml_ok cfg m" and "offset < max 1 (length (ml_nodes m))" and r: "aliveNode cfg now offset False a m = Ret m'"
  shows "ml_ok cfg m'"
proof (cases "ml_leave m \<and> al_Node a = mc_Name cfg \<or> vsn_wrong (al_Vsn a) \<or> alive_filtered cfg a")
  case True
  with r ok show ?thesis by (auto simp: aliveNode_def split: if_splits)
next
  case new: False
  show ?thesis
  proof (cases "ml_nodeMap m (al_Node a)")
    case None
    let ?m = "add_node offset a m"
    have "ml_nodeMap ?m (al_Node a) = Some (fresh_node a)" "ml_leave ?m = ml_leave m"
      by (simp_all add: add_node_def Let_def fresh_node_def)
    moreover have "alive_update cfg now False False a (fresh_node a) ?m = Ret m'"
      using r new None by (auto simp: aliveNode_def split: if_splits)
    ultimately show ?thesis
      using alive_update_ok [OF add_node_ok [OF ok None assms(2)]] new by auto
  next
    case (Some st)
    have "m' = m \<or> (\<exists>u. alive_update cfg now False u a st m = Ret m')"
      using r new Some by (auto simp: aliveNode_def split: if_splits)
    then show ?thesis using ok alive_update_ok [OF ok Some] new by blast
  qed
qed

lemma merge_one_ok:
  assumes "ml_ok cfg m" and "offset < max 1 (length (ml_nodes m))" and "merge_one cfg now offset r m = Ret m'"
  shows "ml_ok cfg m'"
  using assms(3) suspectNode_ok [OF assms(1)] aliveNode_ok [OF assms(1,2)]
  by (auto simp: merge_one_def split: nodeStateType.split_asm)

text \<open>The loop of \<open>moveDeadNodes\<close> splits the list: what stays in front, what is to be reaped behind.\<close>

lemma moveDeadNodes_loop:
  assumes "moveDeadNodes reap xs i k = (ys, n)" and "k + i \<le> length xs"
    and "\<forall>j < i. \<not> reap (xs ! j)" and "\<forall>j < length xs. length xs - k \<le> j \<longrightarrow> reap (xs ! j)"
  shows "mset ys = mset xs \<and> n \<le> length xs \<and> (\<forall>j < n. \<not> reap (ys ! j)) \<and> (\<forall>j < length xs. n \<le> j \<longrightarrow> reap (ys ! j))"
  using assms
proof (induction reap xs i k rule: moveDeadNodes.induct)
  case (1 reap xs i k)
  show ?case
  proof (cases "i < length xs - k")
    case False
    then have "moveDeadNodes reap xs i k = (xs, length xs - k)" by (simp add: moveDeadNodes.simps [of reap xs i])
    with 1 False show ?thesis by auto
  next
    case i: True
    show ?thesis
    proof (cases "reap (xs ! i)")
      case False
      have "moveDeadNodes reap xs (Suc i) k = (ys, n)" using 1(3) i False by (simp add: moveDeadNodes.simps [of reap xs i])
      with 1 i False show ?thesis by (auto simp: less_Suc_eq)
    next
      case True
      let ?l = "length xs - k - 1"
      have r: "moveDeadNodes reap (swap i ?l xs) i (Suc k) = (ys, n)"
        using 1(3) i True by (simp add: moveDeadNodes.simps [of reap xs i])
      have "mset (swap i ?l xs) = mset xs"
        using i mset_swap [of ?l xs i] by (simp add: swap_def)
      moreover have "\<forall>j < i. \<not> reap (swap i ?l xs ! j)" "\<forall>j < length xs. length xs - Suc k \<le> j \<longrightarrow> reap (swap i ?l xs ! j)"
        using 1(5,6) i True by (auto simp: swap_def nth_list_update)
      ultimately show ?thesis
        using 1(2) [OF i _ r] True 1(4) i by auto
    qed
  qed
qed

lemma moveDeadNodes_split:
  assumes "moveDeadNodes reap xs 0 0 = (ys, n)"
  shows "mset (take n ys) = mset (filter (\<lambda>x. \<not> reap x) xs)" and "set (drop n ys) = {x \<in> set xs. reap x}"
    and "n = length (filter (\<lambda>x. \<not> reap x) xs)"
proof -
  have l: "mset ys = mset xs" "n \<le> length xs" "\<forall>j < n. \<not> reap (ys ! j)" "\<forall>j < length xs. n \<le> j \<longrightarrow> reap (ys ! j)"
    using moveDeadNodes_loop [OF assms] by simp_all
  have len: "length ys = length xs" using l(1) by (rule mset_eq_length)
  have t: "\<forall>x \<in> set (take n ys). \<not> reap x" and d: "\<forall>x \<in> set (drop n ys). reap x"
    using l len by (auto simp: in_set_conv_nth)
  have "mset (filter (\<lambda>x. \<not> reap x) ys) = mset (filter (\<lambda>x. \<not> reap x) xs)" using l(1) by simp
  moreover have "filter (\<lambda>x. \<not> reap x) (take n ys @ drop n ys) = take n ys"
    unfolding filter_append using t d by (simp add: filter_id_conv)
  ultimately show *: "mset (take n ys) = mset (filter (\<lambda>x. \<not> reap x) xs)" by (metis append_take_drop_id)
  then show "n = length (filter (\<lambda>x. \<not> reap x) xs)" using len l(2) by (metis length_take min_absorb2 mset_eq_length)
  have "set xs = set (take n ys) \<union> set (drop n ys)" using l(1) by (metis append_take_drop_id set_append set_mset_mset)
  then show "set (drop n ys) = {x \<in> set xs. reap x}" using t d by blast
qed

lemma resetNodes_ok:
  assumes ok: "ml_ok cfg m" and "go_order shuffle"
  shows "ml_ok cfg (resetNodes cfg clock shuffle m)"
proof -
  let ?reap = "reapable cfg clock m" and ?m = "resetNodes cfg clock shuffle m"
  obtain xs n where mv: "moveDeadNodes ?reap (ml_nodes m) 0 0 = (xs, n)" by fastforce
  note split = moveDeadNodes_split [OF mv]
  have sel: "ml_nodes ?m = shuffle (take n xs)" "ml_numNodes ?m = of_nat n" "ml_nodeTimers ?m = ml_nodeTimers m"
    "ml_leave ?m = ml_leave m" "ml_incarnation ?m = ml_incarnation m" "ml_events ?m = ml_events m"
    "ml_nodeMap ?m = (\<lambda>name. if name \<in> set (ml_nodes m) \<and> ?reap name then None else ml_nodeMap m name)"
    using mv split(2) by (simp_all add: resetNodes_def fun_eq_iff)
  have "mset (ml_nodes ?m) = mset (filter (\<lambda>x. \<not> ?reap x) (ml_nodes m))"
    using go_order_mset [OF assms(2)] split(1) sel(1) by simp
  then have nodes: "set (ml_nodes ?m) = {x \<in> set (ml_nodes m). \<not> ?reap x}" "distinct (ml_nodes ?m)" "length (ml_nodes ?m) = n"
    using ok split(3) by (metis set_mset_mset set_filter, metis mset_eq_imp_distinct_iff distinct_filter ml_ok_def, metis mset_eq_length)
  have r: "\<exists>st. ml_nodeMap m x = Some st \<and> ns_State st = stateDead" if "?reap x" for x
    using that by (auto simp: reapable_def split: option.splits)
  have get: "ml_nodeMap ?m x = Some st \<and> ns_State st \<noteq> stateDead \<longleftrightarrow> ml_nodeMap m x = Some st \<and> ns_State st \<noteq> stateDead" for x st
    using r [of x] by (auto simp: sel(7))
  have live: "is_live ?m = is_live m"
    by (force simp: is_live_def sel(7) fun_eq_iff split: option.splits dest: r)
  have "ml_nodeTimers m x \<noteq> None \<longleftrightarrow> (\<exists>st. ml_nodeMap ?m x = Some st \<and> ns_State st = stateSuspect)" for x
    using ok get [of x] unfolding ml_ok_def by (metis nodeStateType.distinct(6))
  moreover have "ml_nodeMap ?m (mc_Name cfg) = None \<and> ml_leave m \<or> ml_nodeMap ?m (mc_Name cfg) = ml_nodeMap m (mc_Name cfg)"
    using ok r [of "mc_Name cfg"] by (auto simp: ml_ok_def sel(7))
  ultimately show ?thesis
    using ok nodes live by (auto simp: ml_ok_def sel live_set_def split: if_splits)
qed

lemma ml_step_ok: "ml_step cfg m r \<Longrightarrow> r = Ret m' \<Longrightarrow> ml_ok cfg m \<Longrightarrow> ml_ok cfg m'"
  by (induction rule: ml_step.induct)
    (auto intro: aliveNode_ok merge_one_ok suspectNode_ok deadNode_ok leave_mark_ok resetNodes_ok)

lemma create_ok:
  assumes "setAlive cfg now addr port meta vsn (newMemberlist cfg) = Ret m"
    and "length vsn = 6" and "\<not> vsn_wrong vsn" and "mc_Alive cfg = None"
  shows "ml_ok cfg m"
proof -
  let ?a = "\<lparr>al_Incarnation = 1, al_Node = mc_Name cfg, al_Addr = addr, al_Port = port, al_Meta = meta, al_Vsn = vsn\<rparr>"
  let ?st = "accepted now ?a (fresh_node ?a)"
  have "ml_nodeMap m = [mc_Name cfg \<mapsto> ?st]" "ml_nodes m = [mc_Name cfg]" "ml_numNodes m = 1" "ml_nodeTimers m = Map.empty"
    "ml_leave m = False" "ml_incarnation m = 1" "ed_Num (ml_events m) = 1"
    using assms
    by (auto simp: setAlive_def nextIncarnation_def newMemberlist_def aliveNode_def alive_filtered_def alive_update_def
        add_node_def fresh_node_def Let_def in_i64_def min_i64_def max_i64_def fun_eq_iff)
  moreover have "proper_vsn (ns_Vsn ?st)" using assms(2,3) by (auto simp: accepted_def Let_def proper_vsn_def fresh_node_def)
  ultimately show ?thesis
    by (auto simp: ml_ok_def live_set_def is_live_def fresh_node_def in_i64_def min_i64_def max_i64_def split: if_splits)
qed

lemma ml_run_ok: "ml_run cfg m \<Longrightarrow> ml_ok cfg m"
  by (induction rule: ml_run.induct) (auto intro: create_ok ml_step_ok)

section \<open>Claims\<close>

lemma members_live:
  assumes "ml_ok cfg m"
  shows "set (gn_Members (member_table m)) = live_set m" and "distinct (gn_Members (member_table m))"
proof -
  have "gn_Members (member_table m) = filter (is_live m) (ml_nodes m)"
    by (simp add: gn_Members_def ml_Members_def member_table_def filter_map comp_def)
  moreover have "is_live m name \<Longrightarrow> name \<in> set (ml_nodes m)" for name
    using assms by (auto simp: ml_ok_def is_live_def split: option.splits)
  ultimately show "set (gn_Members (member_table m)) = live_set m" "distinct (gn_Members (member_table m))"
    using assms by (auto simp: live_set_def ml_ok_def)
qed

text \<open>A handler changes the entry of the node it is about only, and never the flag.\<close>

definition only_about :: "string \<Rightarrow> memberlist \<Rightarrow> memberlist \<Rightarrow> bool" where
  "only_about name m m' \<longleftrightarrow> ml_leave m' = ml_leave m \<and> (\<forall>x. x \<noteq> name \<longrightarrow> ml_nodeMap m' x = ml_nodeMap m x)"

lemma deadNode_only: "ml_ok cfg m \<Longrightarrow> only_about (de_Node d) m (deadNode cfg now d m)"
  by (auto simp: only_about_def deadNode_def Let_def dest: ml_ok_name split: option.splits)

lemma suspectNode_only: "ml_ok cfg m \<Longrightarrow> only_about (su_Node s) m (suspectNode cfg now s m)"
  by (auto simp: only_about_def suspectNode_def Let_def split_beta dest: ml_ok_name split: option.splits)

lemma alive_update_only:
  "ns_Name st = al_Node a \<Longrightarrow> alive_update cfg now boot u a st m = Ret m' \<Longrightarrow> only_about (al_Node a) m m'"
  by (auto simp: only_about_def alive_update_def Let_def split: if_splits)

lemma aliveNode_only:
  assumes "ml_ok cfg m" and "aliveNode cfg now offset False a m = Ret m'"
  shows "only_about (al_Node a) m m'"
proof (cases "ml_nodeMap m (al_Node a)")
  case None
  have "only_about (al_Node a) m (add_node offset a m)"
    by (simp add: only_about_def add_node_def Let_def fresh_node_def)
  moreover have "m' = m \<or> only_about (al_Node a) (add_node offset a m) m'"
    using assms(2) None by (auto simp: aliveNode_def fresh_node_def intro!: alive_update_only split: if_splits)
  ultimately show ?thesis by (auto simp: only_about_def)
next
  case (Some st)
  have "m' = m \<or> (\<exists>u. alive_update cfg now False u a st m = Ret m')"
    using assms(2) Some by (auto simp: aliveNode_def split: if_splits)
  then show ?thesis using alive_update_only ml_ok_name [OF assms(1) Some] by (auto simp: only_about_def)
qed

lemma resetNodes_sub:
  "ml_leave (resetNodes cfg clock shuffle m) = ml_leave m
   \<and> (ml_nodeMap (resetNodes cfg clock shuffle m) x = None \<or> ml_nodeMap (resetNodes cfg clock shuffle m) x = ml_nodeMap m x)"
  by (simp add: resetNodes_def split_beta Let_def)

text \<open>A node that has left is never listed again: it is dead, and messages that it is alive are dropped.\<close>

lemma gone_stays:
  assumes "ml_step cfg m r" "r = Ret m'" and ok: "ml_ok cfg m" and left: "ml_leave m" "\<not> is_live m (mc_Name cfg)"
  shows "ml_leave m' \<and> \<not> is_live m' (mc_Name cfg)"
proof -
  have keep: "ml_leave x \<and> \<not> is_live x (mc_Name cfg)" if "only_about name m x" "name = mc_Name cfg \<Longrightarrow> x = m" for name x
    using that left by (cases "name = mc_Name cfg") (auto simp: only_about_def is_live_def)
  have dead: "deadNode cfg now d m = m" if "de_Node d = mc_Name cfg" for now d
    using left that clear_timer [OF ok] by (auto simp: deadNode_def is_live_def split: option.splits)
  have suspect: "suspectNode cfg now s m = m" if "su_Node s = mc_Name cfg" for now s
  proof (cases "ml_nodeMap m (mc_Name cfg)")
    case (Some st)
    then have d: "ns_State st = stateDead" using left(2) by (simp add: is_live_def)
    then have "ml_nodeTimers m (mc_Name cfg) = None" using ml_ok_timer [OF ok Some] by simp
    with d Some that show ?thesis by (simp add: suspectNode_def)
  qed (simp add: suspectNode_def that)
  note susp = keep [OF suspectNode_only [OF ok] suspect] and died = keep [OF deadNode_only [OF ok] dead]
  have alive: ?thesis if "aliveNode cfg now offset False a m = Ret m'" for now offset a
  proof (rule keep [OF aliveNode_only [OF ok that]])
    show "m' = m" if "al_Node a = mc_Name cfg"
      using \<open>aliveNode cfg now offset False a m = Ret m'\<close> that left(1) by (simp add: aliveNode_def)
  qed
  show ?thesis
    using assms(1,2)
  proof cases
    case (recv_suspect now s)
    with assms(2) show ?thesis using susp by (metis Inr_inject)
  next
    case (recv_dead now d)
    with assms(2) show ?thesis using died by (metis Inr_inject)
  next
    case (expire name change d now)
    with assms(2) show ?thesis using died by (metis Inr_inject)
  next
    case (merge offset now q)
    with assms(2) show ?thesis
      using susp alive by (auto simp: merge_one_def split: nodeStateType.split_asm)
  next
    case (reset shuffle clock)
    then have m': "m' = resetNodes cfg clock shuffle m" using assms(2) by simp
    show ?thesis
      using resetNodes_sub [of cfg clock shuffle m "mc_Name cfg"] left unfolding m' is_live_def by (elim conjE disjE) simp_all
  qed (use assms(2) alive left in auto)
qed

text \<open>
  (C17) The members are counted: whatever messages a node gets, in any order, whatever timers expire
  and dead nodes are reaped, the number its event delegate has counted, from which the broadcast
  queue computes how often to send, is the number of members that the scavenger goes by; no member is
  listed twice; the node lists itself until it is told to leave, however it is accused; and once it
  has left its own list it never comes back.
\<close>

theorem members_counted:
  assumes "ml_run cfg m"
  shows "distinct (gn_Members (member_table m))
    \<and> ed_Num (ml_events m) = i64 (int (length (gn_Members (member_table m))))
    \<and> (\<not> ml_leave m \<longrightarrow> mc_Name cfg \<in> set (gn_Members (member_table m)))
    \<and> (\<forall>m'. mc_Name cfg \<notin> set (gn_Members (member_table m)) \<and> ml_step cfg m (Ret m') \<longrightarrow>
          mc_Name cfg \<notin> set (gn_Members (member_table m')))"
proof -
  note ok = ml_run_ok [OF assms] and live = members_live [OF ml_run_ok [OF assms]]
  have "length (gn_Members (member_table m)) = card (live_set m)" using live by (metis distinct_card)
  moreover have here: "\<not> ml_leave m \<longrightarrow> is_live m (mc_Name cfg)"
    using ok by (cases "ml_nodeMap m (mc_Name cfg)") (auto simp: ml_ok_def is_live_def)
  moreover have "mc_Name cfg \<notin> set (gn_Members (member_table m'))"
    if "\<not> is_live m (mc_Name cfg)" "ml_step cfg m (Ret m')" for m'
    using gone_stays [OF that(2) refl ok _ that(1)] here that members_live(1) [OF ml_step_ok [OF that(2) refl ok]]
    by (auto simp: live_set_def)
  ultimately show ?thesis using ok live by (auto simp: ml_ok_def live_set_def)
qed

definition sample_config :: "string \<Rightarrow> ml_config" where
  "sample_config name = \<lparr>mc_Name = name, mc_Alive = None, mc_DeadNodeReclaimTime = 0,
     mc_GossipToTheDeadTime = seconds 30, mc_SuspicionMult = 4\<rparr>"

definition sample_alive :: "string \<Rightarrow> uint32 \<Rightarrow> alive" where
  "sample_alive name inc = \<lparr>al_Incarnation = inc, al_Node = name, al_Addr = ''10.0.0.1'', al_Port = 7946,
     al_Meta = [], al_Vsn = [1, 5, 2, 0, 0, 0]\<rparr>"

abbreviation sample_new :: "string \<Rightarrow> memberlist go" where
  "sample_new name \<equiv> setAlive (sample_config name) 0 ''10.0.0.1'' 7946 [] [1, 5, 2, 0, 0, 0] (newMemberlist (sample_config name))"

lemma sample_run: "sample_new name = Ret m \<Longrightarrow> ml_run (sample_config name) m"
  by (erule ml_run.create) (simp_all add: vsn_wrong_def sample_config_def)

text \<open>A node \<open>a\<close> that hears of a node \<open>b\<close> and is then told that it is dead itself.\<close>

definition accused_members :: "memberlist go" where
  "accused_members = go_bind (sample_new ''a'') (\<lambda>m.
     go_bind (aliveNode (sample_config ''a'') 5 0 False (sample_alive ''b'' 1) m) (\<lambda>m1.
     Ret (deadNode (sample_config ''a'') 6 \<lparr>de_Incarnation = 7, de_Node = ''a'', de_From = ''b''\<rparr> m1)))"

lemma accused_members_run: "\<exists>m. accused_members = Ret m \<and> ml_run (sample_config ''a'') m \<and> \<not> ml_leave m"
proof -
  have "go_bind accused_members (\<lambda>m. Ret (ml_leave m)) = Ret False" by code_simp
  then obtain m where m: "accused_members = Ret m" "\<not> ml_leave m" by (auto simp: go_bind_eq_Ret)
  then obtain m0 m1 where s: "sample_new ''a'' = Ret m0" "aliveNode (sample_config ''a'') 5 0 False (sample_alive ''b'' 1) m0 = Ret m1"
    "m = deadNode (sample_config ''a'') 6 \<lparr>de_Incarnation = 7, de_Node = ''a'', de_From = ''b''\<rparr> m1"
    by (auto simp: accused_members_def go_bind_eq_Ret)
  have "ml_run (sample_config ''a'') m1"
    using ml_run.step [OF sample_run [OF s(1)]] ml_step.recv_alive [of 0 m0 "sample_config ''a''" 5 "sample_alive ''b'' 1"] s(2) by simp
  then show ?thesis using ml_run.step ml_step.recv_dead m s(3) by blast
qed

theorem members_counted_witness:
  "\<exists>m. ml_run (sample_config ''a'') m \<and> ed_Num (ml_events m) = i64 (int (length (gn_Members (member_table m))))
    \<and> ''a'' \<in> set (gn_Members (member_table m))"
proof -
  obtain m where m: "ml_run (sample_config ''a'') m" "\<not> ml_leave m" using accused_members_run by blast
  from members_counted [OF m(1)] m show ?thesis by (auto simp: sample_config_def)
qed

text \<open>
  A call of \<open>Leave\<close> that nothing interrupts takes the node out of its own list. Between the reading of
  its entry and the message it handles, though, an accusation may be refuted: then the message is
  older than the entry, is dropped, and a node that has left stays a member.
\<close>

lemma Leave_removes:
  assumes "ml_ok cfg m" and "\<not> ml_leave m"
  shows "mc_Name cfg \<notin> set (gn_Members (member_table (ml_Leave cfg now m)))"
proof -
  obtain st where st: "ml_nodeMap m (mc_Name cfg) = Some st" "ns_State st = stateAlive"
    using assms by (cases "ml_nodeMap m (mc_Name cfg)") (auto simp: ml_ok_def)
  have n: "ns_Name st = mc_Name cfg" by (rule ml_ok_name [OF assms(1) st(1)])
  have "\<not> is_live (ml_Leave cfg now m) (mc_Name cfg)"
    using st n assms(2) by (simp add: ml_Leave_def leave_mark_def leave_message_def deadNode_def is_live_def Let_def)
  moreover have "ml_ok cfg (ml_Leave cfg now m)"
    using deadNode_ok [OF leave_mark_ok [OF assms(1)]] leave_mark_ok [OF assms(1)] assms(1)
    by (auto simp: ml_Leave_def Let_def split: option.splits)
  ultimately show ?thesis using members_live(1) by (auto simp: live_set_def)
qed

lemma leave_race:
  "go_bind (sample_new ''a'') (\<lambda>m0.
     let cfg = sample_config ''a''; m1 = leave_mark m0;
         m2 = suspectNode cfg 6 \<lparr>su_Incarnation = 1, su_Node = ''a'', su_From = ''b''\<rparr> m1;
         m3 = deadNode cfg 7 (the (leave_message cfg m1)) m2
     in Ret (ml_leave m3, gn_Members (member_table m3))) = Ret (True, [''a''])"
  by code_simp

text \<open>
  (C18) A refutation wins. When a node that has not left is accused, of being suspect or dead, with an
  incarnation number not older than its own and not the largest one, it stays alive and queues an
  alive message with a higher number; and every other node that knows it under the same address, with
  a number that is not higher than the accusation's, holds it for alive without suspicion after that
  message, whatever it believed before.
\<close>

theorem refutation_wins:
  assumes "ml_run cfg m" and "\<not> ml_leave m" and "ml_incarnation m \<le> acc" and "acc \<noteq> -1"
    and "m' = suspectNode cfg now \<lparr>su_Incarnation = acc, su_Node = mc_Name cfg, su_From = from\<rparr> m
       \<or> m' = deadNode cfg now \<lparr>de_Incarnation = acc, de_Node = mc_Name cfg, de_From = from\<rparr> m"
  shows "\<exists>me a. ml_nodeMap m' (mc_Name cfg) = Some me \<and> ns_State me = stateAlive
    \<and> ml_out m' = ml_out m @ [(ns_Addr me, AliveMsg a)] \<and> al_Node a = mc_Name cfg \<and> acc < al_Incarnation a
    \<and> (\<forall>other p st now' offset. ml_nodeMap p (mc_Name cfg) = Some st \<and> ns_Name st = mc_Name cfg
          \<and> ns_Addr st = ns_Addr me \<and> ns_Port st = ns_Port me
          \<and> ns_Incarnation st \<le> acc \<and> mc_Name other \<noteq> mc_Name cfg \<and> mc_Alive other = None \<longrightarrow>
        (\<exists>p' st'. aliveNode other now' offset False a p = Ret p' \<and> ml_nodeMap p' (mc_Name cfg) = Some st'
          \<and> ns_State st' = stateAlive \<and> ns_Incarnation st' = al_Incarnation a \<and> ml_nodeTimers p' (mc_Name cfg) = None))"
proof -
  have ok: "ml_ok cfg m" by (rule ml_run_ok [OF assms(1)])
  obtain st where st: "ml_nodeMap m (mc_Name cfg) = Some st" "ns_State st = stateAlive" "ns_Incarnation st = ml_incarnation m"
    "proper_vsn (ns_Vsn st)" using ok assms(2) by (cases "ml_nodeMap m (mc_Name cfg)") (auto simp: ml_ok_def)
  have n: "ns_Name st = mc_Name cfg" by (rule ml_ok_name [OF ok st(1)])
  have m': "m' = refute st acc m"
    using assms(2,3,5) st n ml_ok_timer [OF ok st(1)] clear_timer [OF ok st(1)]
    by (auto simp: suspectNode_def deadNode_def Let_def)
  have inc: "acc < refuted_inc acc m"
    using word_less_Suc [OF assms(4)] by (simp add: refuted_inc_def not_le)
  show ?thesis
    using st n inc
    by (intro exI [of _ "st\<lparr>ns_Incarnation := refuted_inc acc m\<rparr>"])
      (auto simp: m' aliveNode_def alive_filtered_def alive_update_def proper_vsn_def Let_def)
qed

text \<open>A node that holds \<open>a\<close> for dead.\<close>

definition doubting :: memberlist where
  "doubting = (newMemberlist (sample_config ''b''))\<lparr>ml_nodeMap :=
     [''a'' \<mapsto> (fresh_node (sample_alive ''a'' 1))\<lparr>ns_Incarnation := 7\<rparr>]\<rparr>"

lemma accused_address:
  "go_bind (sample_new ''a'') (\<lambda>m. Ret (ml_incarnation m, ml_leave m, map_option (\<lambda>st. (ns_Addr st, ns_Port st)) (ml_nodeMap
     (suspectNode (sample_config ''a'') 6 \<lparr>su_Incarnation = 7, su_Node = mc_Name (sample_config ''a''), su_From = ''b''\<rparr> m) ''a'')))
   = Ret (1, False, Some (''10.0.0.1'', 7946))"
  by code_simp

theorem refutation_wins_witness:
  "\<exists>m a p'. ml_run (sample_config ''a'') m
    \<and> ml_out (suspectNode (sample_config ''a'') 6 \<lparr>su_Incarnation = 7, su_Node = ''a'', su_From = ''b''\<rparr> m)
        = ml_out m @ [(''10.0.0.1'', AliveMsg a)]
    \<and> aliveNode (sample_config ''b'') 9 0 False a doubting = Ret p' \<and> map_option ns_State (ml_nodeMap p' ''a'') = Some stateAlive"
proof -
  let ?cfg = "sample_config ''a''"
  have nm: "mc_Name ?cfg = ''a''" by (simp add: sample_config_def)
  obtain m where m: "sample_new ''a'' = Ret m" "ml_incarnation m = 1" "\<not> ml_leave m" and ad: "map_option (\<lambda>st. (ns_Addr st, ns_Port st))
      (ml_nodeMap (suspectNode ?cfg 6 \<lparr>su_Incarnation = 7, su_Node = mc_Name ?cfg, su_From = ''b''\<rparr> m) ''a'') = Some (''10.0.0.1'', 7946)"
    using accused_address by (auto simp: go_bind_eq_Ret)
  note run = sample_run [OF m(1)]
  have acc: "ml_incarnation m \<le> (7 :: uint32)" "(7 :: uint32) \<noteq> - 1" using m(2) by simp_all
  obtain me a where w: "ml_nodeMap (suspectNode ?cfg 6 \<lparr>su_Incarnation = 7, su_Node = mc_Name ?cfg, su_From = ''b''\<rparr> m) (mc_Name ?cfg) = Some me"
    "ml_out (suspectNode ?cfg 6 \<lparr>su_Incarnation = 7, su_Node = mc_Name ?cfg, su_From = ''b''\<rparr> m) = ml_out m @ [(ns_Addr me, AliveMsg a)]"
    "\<And>other p st now' offset. ml_nodeMap p (mc_Name ?cfg) = Some st \<and> ns_Name st = mc_Name ?cfg
          \<and> ns_Addr st = ns_Addr me \<and> ns_Port st = ns_Port me
          \<and> ns_Incarnation st \<le> 7 \<and> mc_Name other \<noteq> mc_Name ?cfg \<and> mc_Alive other = None \<Longrightarrow>
        \<exists>p' st'. aliveNode other now' offset False a p = Ret p' \<and> ml_nodeMap p' (mc_Name ?cfg) = Some st'
          \<and> ns_State st' = stateAlive \<and> ns_Incarnation st' = al_Incarnation a \<and> ml_nodeTimers p' (mc_Name ?cfg) = None"
    using refutation_wins [OF run m(3) acc disjI1 [OF refl], of 6 "''b''"] by blast
  have "ns_Addr me = ''10.0.0.1''" "ns_Port me = 7946" using ad w(1) nm by simp_all
  moreover from this have "\<exists>p' st'. aliveNode (sample_config ''b'') 9 0 False a doubting = Ret p' \<and> ml_nodeMap p' (mc_Name ?cfg) = Some st'
      \<and> ns_State st' = stateAlive \<and> ns_Incarnation st' = al_Incarnation a \<and> ml_nodeTimers p' (mc_Name ?cfg) = None"
    by (intro w(3) [where st = "(fresh_node (sample_alive ''a'' 1))\<lparr>ns_Incarnation := 7\<rparr>"])
      (simp add: doubting_def fresh_node_def sample_alive_def sample_config_def)
  ultimately show ?thesis using run w(2) nm by auto
qed

lemma aliveNode_panic:
  "aliveNode cfg now offset False a m = Panic p \<Longrightarrow> p = IndexOutOfRange \<and> al_Vsn a \<noteq> [] \<and> length (al_Vsn a) < 6"
  by (auto simp: aliveNode_def alive_update_def Let_def split: if_splits option.splits)

lemma aliveNode_returns: "al_Vsn a = [] \<or> 6 \<le> length (al_Vsn a) \<Longrightarrow> \<exists>m'. aliveNode cfg now offset False a m = Ret m'"
  by (cases "aliveNode cfg now offset False a m") (auto dest: aliveNode_panic)



end
