(* ===== verification/Wire.thy ===== *)
theory Wire
  imports Membership
begin

unbundle bit_operations_syntax

text \<open>
  The packets of the gossip library (\<open>memberlist/net.go\<close>, \<open>util.go\<close>, \<open>broadcast.go\<close> and \<open>gossip\<close> of
  \<open>state.go\<close>): how a round of gossip packs the broadcasts of the member list and of the service's
  delegate into a packet, with a compound header, compression and a checksum, and how the receiver
  takes the packet apart, queues the messages for its handler and calls the member list and the
  delegate. A byte is a \<open>char\<close>. The service has no keyring, so nothing is encrypted. The LZW coder and
  the encoding of structs (\<open>compress/lzw\<close>, \<open>ugorji/go/codec\<close>) are arguments.
\<close>

section \<open>Bytes\<close>

type_synonym bytes = string

text \<open>A slice is its bytes and the bytes from its length up to its capacity, which a larger slice expression uncovers.\<close>

type_synonym slice = "bytes \<times> bytes"

datatype messageType = pingMsg | indirectPingMsg | ackRespMsg | suspectMsg | aliveMsg | deadMsg | pushPullMsg
  | compoundMsg | userMsg | compressMsg | encryptMsg | nackRespMsg | hasCrcMsg | errMsg

definition messageTypes :: "messageType list" where
  "messageTypes = [pingMsg, indirectPingMsg, ackRespMsg, suspectMsg, aliveMsg, deadMsg, pushPullMsg,
     compoundMsg, userMsg, compressMsg, encryptMsg, nackRespMsg, hasCrcMsg, errMsg]"

primrec type_code :: "messageType \<Rightarrow> nat" where
  "type_code pingMsg = 0" | "type_code indirectPingMsg = 1" | "type_code ackRespMsg = 2" | "type_code suspectMsg = 3"
| "type_code aliveMsg = 4" | "type_code deadMsg = 5" | "type_code pushPullMsg = 6" | "type_code compoundMsg = 7"
| "type_code userMsg = 8" | "type_code compressMsg = 9" | "type_code encryptMsg = 10" | "type_code nackRespMsg = 11"
| "type_code hasCrcMsg = 12" | "type_code errMsg = 13"

definition type_byte :: "messageType \<Rightarrow> char" where
  "type_byte t = char_of (type_code t)"

definition messageType_of :: "char \<Rightarrow> messageType option" where
  "messageType_of c = (let n = of_char c in if n < length messageTypes then Some (messageTypes ! n) else None)"

text \<open>Big-endian numbers of \<open>encoding/binary\<close>; \<open>char_of\<close> keeps the lowest byte.\<close>

definition PutUint16 :: "nat \<Rightarrow> bytes" where
  "PutUint16 n = [char_of (n div 256), char_of n]"

definition Uint16 :: "char \<Rightarrow> char \<Rightarrow> nat" where
  "Uint16 a b = of_char a * 256 + of_char b"

definition PutUint32 :: "nat \<Rightarrow> bytes" where
  "PutUint32 n = [char_of (n div 2 ^ 24), char_of (n div 2 ^ 16), char_of (n div 2 ^ 8), char_of n]"

definition Uint32 :: "char \<Rightarrow> char \<Rightarrow> char \<Rightarrow> char \<Rightarrow> nat" where
  "Uint32 a b c d = of_char a * 2 ^ 24 + of_char b * 2 ^ 16 + of_char c * 2 ^ 8 + of_char d"

text \<open>\<open>hash/crc32\<close>, bit by bit.\<close>

definition crc_bit :: "32 word \<Rightarrow> 32 word" where
  "crc_bit c = (if bit c 0 then drop_bit 1 c XOR 0xEDB88320 else drop_bit 1 c)"

definition crc_byte :: "32 word \<Rightarrow> char \<Rightarrow> 32 word" where
  "crc_byte c b = (crc_bit ^^ 8) (c XOR of_nat (of_char b))"

fun crc_update :: "32 word \<Rightarrow> bytes \<Rightarrow> 32 word" where
  "crc_update c [] = c"
| "crc_update c (b # bs) = crc_update (crc_byte c b) bs"

definition ChecksumIEEE :: "bytes \<Rightarrow> nat" where
  "ChecksumIEEE bs = unat (NOT (crc_update (NOT 0) bs))"

section \<open>Compound messages\<close>

definition makeCompoundMessage :: "bytes list \<Rightarrow> bytes" where
  "makeCompoundMessage msgs =
     type_byte compoundMsg # char_of (length msgs) # concat (map (\<lambda>m. PutUint16 (length m)) msgs) @ concat msgs"

fun read_lengths :: "nat \<Rightarrow> bytes \<Rightarrow> nat list go" where
  "read_lengths (Suc n) (a # b # mem) = go_bind (read_lengths n mem) (\<lambda>ns. Ret (Uint16 a b # ns))"
| "read_lengths 0 mem = Ret []"
| "read_lengths (Suc n) mem = Panic SliceOutOfRange"

text \<open>The number of messages that are cut off, and the others as slices of the buffer.\<close>

fun split_parts :: "nat list \<Rightarrow> slice \<Rightarrow> nat \<times> slice list" where
  "split_parts [] _ = (0, [])"
| "split_parts (n # ns) (buf, spare) =
     (if length buf < n then (Suc (length ns), [])
      else (let (trunc, parts) = split_parts ns (drop n buf, spare)
            in (trunc, (take n buf, drop n buf @ spare) # parts)))"

text \<open>\<open>numParts * 2\<close> is computed in eight bits.\<close>

definition decodeCompoundMessage :: "slice \<Rightarrow> (string + nat \<times> slice list) go" where
  "decodeCompoundMessage s =
     (case s of
        ([], _) \<Rightarrow> Ret (Inl ''missing compound length byte'')
      | (c # buf, spare) \<Rightarrow>
          (let numParts = of_char c; size = numParts * 2 mod 256
           in if length buf < size then Ret (Inl ''truncated len slice'')
              else go_bind (read_lengths numParts (buf @ spare))
                     (\<lambda>lengths. Ret (Inr (split_parts lengths (drop size buf, spare))))))"

section \<open>Compression and checksum\<close>

text \<open>
  The coders: LZW, and the encoding of the structs \<open>compress\<close> (its algorithm and buffer), \<open>alive\<close>,
  \<open>suspect\<close> and \<open>dead\<close>; \<open>None\<close> is an error.
\<close>

record codecs =
  co_lzw :: "bytes \<Rightarrow> bytes option"
  co_unlzw :: "bytes \<Rightarrow> slice option"
  co_enc_compress :: "nat \<times> bytes \<Rightarrow> bytes option"
  co_dec_compress :: "bytes \<Rightarrow> (nat \<times> bytes) option"
  co_alive :: "bytes \<Rightarrow> alive option"
  co_suspect :: "bytes \<Rightarrow> suspect option"
  co_dead :: "bytes \<Rightarrow> dead option"

definition lzwAlgo :: nat where
  "lzwAlgo = 0"

definition compressPayload :: "codecs \<Rightarrow> bytes \<Rightarrow> bytes option" where
  "compressPayload co inp =
     (case co_lzw co inp of
        None \<Rightarrow> None
      | Some z \<Rightarrow> map_option (\<lambda>e. type_byte compressMsg # e) (co_enc_compress co (lzwAlgo, z)))"

definition decompressBuffer :: "codecs \<Rightarrow> nat \<times> bytes \<Rightarrow> slice option" where
  "decompressBuffer co c = (if fst c \<noteq> lzwAlgo then None else co_unlzw co (snd c))"

definition decompressPayload :: "codecs \<Rightarrow> bytes \<Rightarrow> slice option" where
  "decompressPayload co msg = (case co_dec_compress co msg of None \<Rightarrow> None | Some c \<Rightarrow> decompressBuffer co c)"

text \<open>\<open>pmax\<close> is the highest protocol version of the receiver, if the receiver is known. The result goes to the transport.\<close>

definition rawSendMsgPacket :: "codecs \<Rightarrow> int option \<Rightarrow> bytes \<Rightarrow> bytes" where
  "rawSendMsgPacket co pmax msg =
     (let msg1 = (case compressPayload co msg of None \<Rightarrow> msg | Some buf \<Rightarrow> if length buf < length msg then buf else msg)
      in case pmax of
           None \<Rightarrow> msg1
         | Some v \<Rightarrow> if v \<ge> 5 then type_byte hasCrcMsg # PutUint32 (ChecksumIEEE msg1) @ msg1 else msg1)"

section \<open>Receiving\<close>

text \<open>
  The two queues, the token in the channel \<open>handoffCh\<close>, and the messages that the listener handles at
  once itself: pings and their answers.
\<close>

record inbound =
  ib_high :: "(messageType \<times> bytes) list"
  ib_low :: "(messageType \<times> bytes) list"
  ib_handoff :: bool
  ib_direct :: "(messageType \<times> bytes) list"

definition HandoffQueueDepth :: nat where
  "HandoffQueueDepth = 1024"

definition enqueue :: "messageType \<Rightarrow> bytes \<Rightarrow> inbound \<Rightarrow> inbound" where
  "enqueue t buf ib =
     (if t = aliveMsg
      then if length (ib_high ib) \<ge> HandoffQueueDepth then ib else ib\<lparr>ib_high := ib_high ib @ [(t, buf)]\<rparr>
      else if length (ib_low ib) \<ge> HandoffQueueDepth then ib else ib\<lparr>ib_low := ib_low ib @ [(t, buf)]\<rparr>)"

definition notify_handler :: "inbound \<Rightarrow> inbound" where
  "notify_handler ib = ib\<lparr>ib_handoff := True\<rparr>"

text \<open>
  The commands call each other: a compound message for its parts, a compressed one for its payload,
  which may be compressed again. \<open>None\<close> is that the depth given was not enough.
\<close>

fun in_turn :: "('a \<Rightarrow> 'b \<Rightarrow> 'b go option) \<Rightarrow> 'a list \<Rightarrow> 'b \<Rightarrow> 'b go option" where
  "in_turn f [] s = Some (Ret s)"
| "in_turn f (x # xs) s =
     (case f x s of None \<Rightarrow> None | Some (Inl p) \<Rightarrow> Some (Panic p) | Some (Inr s') \<Rightarrow> in_turn f xs s')"

fun handleCommand :: "codecs \<Rightarrow> nat \<Rightarrow> slice \<Rightarrow> inbound \<Rightarrow> inbound go option" where
  "handleCommand co 0 _ ib = None"
| "handleCommand co (Suc depth) ([], _) ib = Some (Panic IndexOutOfRange)"
| "handleCommand co (Suc depth) (c # buf, spare) ib =
     (case messageType_of c of
        Some compoundMsg \<Rightarrow>
          (case decodeCompoundMessage (buf, spare) of
             Inl p \<Rightarrow> Some (Panic p)
           | Inr (Inl err) \<Rightarrow> Some (Ret ib)
           | Inr (Inr (trunc, parts)) \<Rightarrow> in_turn (handleCommand co depth) parts ib)
      | Some compressMsg \<Rightarrow>
          (case decompressPayload co buf of None \<Rightarrow> Some (Ret ib) | Some payload \<Rightarrow> handleCommand co depth payload ib)
      | Some t \<Rightarrow>
          if t \<in> {pingMsg, indirectPingMsg, ackRespMsg, nackRespMsg} then Some (Ret (ib\<lparr>ib_direct := ib_direct ib @ [(t, buf)]\<rparr>))
          else if t \<in> {suspectMsg, aliveMsg, deadMsg, userMsg} then Some (Ret (notify_handler (enqueue t buf ib)))
          else Some (Ret ib)
      | None \<Rightarrow> Some (Ret ib))"

text \<open>The command in a packet, unless its checksum is wrong.\<close>

definition packet_command :: "slice \<Rightarrow> slice option" where
  "packet_command s =
     (case s of
        (t # a # b # c # d # payload, spare) \<Rightarrow>
          if messageType_of t = Some hasCrcMsg
          then if ChecksumIEEE payload \<noteq> Uint32 a b c d then None else Some (payload, spare)
          else Some s
      | _ \<Rightarrow> Some s)"

definition ingestPacket :: "codecs \<Rightarrow> nat \<Rightarrow> slice \<Rightarrow> inbound \<Rightarrow> inbound go option" where
  "ingestPacket co depth s ib =
     (case packet_command s of None \<Rightarrow> Some (Ret ib) | Some cmd \<Rightarrow> handleCommand co depth cmd ib)"

section \<open>The packet handler\<close>

definition getNextMessage :: "inbound \<Rightarrow> ((messageType \<times> bytes) \<times> inbound) option" where
  "getNextMessage ib =
     (if ib_high ib \<noteq> [] then Some (last (ib_high ib), ib\<lparr>ib_high := butlast (ib_high ib)\<rparr>)
      else if ib_low ib \<noteq> [] then Some (last (ib_low ib), ib\<lparr>ib_low := butlast (ib_low ib)\<rparr>)
      else None)"

text \<open>What the handler works on: the member list and the service's delegate.\<close>

type_synonym node_state = "memberlist \<times> MyDelegate"

text \<open>
  A message without a port gets the configured one. (The library does the same for every message
  when it speaks a protocol version below 2; the service uses 2.)
\<close>

definition handleAlive :: "codecs \<Rightarrow> ml_config \<Rightarrow> int \<Rightarrow> time \<Rightarrow> nat \<Rightarrow> bytes \<Rightarrow> memberlist \<Rightarrow> memberlist go" where
  "handleAlive co cfg bindPort now offset buf m =
     (case co_alive co buf of
        None \<Rightarrow> Ret m
      | Some live \<Rightarrow> aliveNode cfg now offset False (if al_Port live = 0 then live\<lparr>al_Port := bindPort mod 65536\<rparr> else live) m)"

definition handle_message ::
  "codecs \<Rightarrow> ml_config \<Rightarrow> int \<Rightarrow> time \<Rightarrow> nat \<Rightarrow> messageType \<times> bytes \<Rightarrow> node_state \<Rightarrow> node_state go" where
  "handle_message co cfg bindPort now offset msg st =
     (case (msg, st) of ((t, buf), (m, d)) \<Rightarrow>
       (case t of
          suspectMsg \<Rightarrow> Ret (case co_suspect co buf of None \<Rightarrow> m | Some s \<Rightarrow> suspectNode cfg now s m, d)
        | aliveMsg \<Rightarrow> go_bind (handleAlive co cfg bindPort now offset buf m) (\<lambda>m'. Ret (m', d))
        | deadMsg \<Rightarrow> Ret (case co_dead co buf of None \<Rightarrow> m | Some x \<Rightarrow> deadNode cfg now x m, d)
        | userMsg \<Rightarrow> go_bind (dl_NotifyMsg d buf) (\<lambda>d'. Ret (m, d'))
        | _ \<Rightarrow> Ret st))"

definition pending :: "inbound \<Rightarrow> nat" where
  "pending ib = length (ib_high ib) + length (ib_low ib)"

lemma getNextMessage_pending: "getNextMessage ib = Some (msg, ib') \<Longrightarrow> pending ib' < pending ib"
  by (auto simp: getNextMessage_def pending_def split: if_splits)

text \<open>The inner loop of \<open>packetHandler\<close>. \<open>clock\<close> and \<open>rnd\<close> are the time and the random offset for each message.\<close>

function packetHandler ::
  "codecs \<Rightarrow> ml_config \<Rightarrow> int \<Rightarrow> clock \<Rightarrow> (nat \<Rightarrow> nat) \<Rightarrow> inbound \<Rightarrow> node_state \<Rightarrow> (inbound \<times> node_state) go" where
  "packetHandler co cfg bindPort clock rnd ib st =
     (case getNextMessage ib of
        None \<Rightarrow> Ret (ib, st)
      | Some (msg, ib') \<Rightarrow>
          go_bind (handle_message co cfg bindPort (clock (pending ib)) (rnd (pending ib)) msg st)
            (packetHandler co cfg bindPort clock rnd ib'))"
  by pat_completeness auto
termination
  by (relation "measure (\<lambda>(_, _, _, _, _, ib, _). pending ib)") (auto dest: getNextMessage_pending)

declare packetHandler.simps [simp del]

section \<open>Sending\<close>

record memberlistBroadcast =
  mb_node :: string
  mb_msg :: bytes

definition mb_ops :: "memberlistBroadcast broadcast_ops" where
  "mb_ops = \<lparr>bo_Message = mb_msg, bo_Invalidates = (\<lambda>b mb. mb_node b = mb_node mb), bo_kind = (\<lambda>b. NamedBroadcast (mb_node b))\<rparr>"

definition userMsgOverhead :: int where
  "userMsgOverhead = 1"

definition frame_user :: "bytes \<Rightarrow> bytes" where
  "frame_user msg = type_byte userMsg # msg"

text \<open>\<open>est\<close> is the library's number of nodes, \<open>num\<close> the one that the event delegate has counted.\<close>

definition getBroadcasts ::
  "(int \<Rightarrow> int) \<Rightarrow> int \<Rightarrow> int \<Rightarrow> int \<Rightarrow> int \<Rightarrow> memberlistBroadcast TransmitLimitedQueue \<times> MyDelegate
    \<Rightarrow> ((memberlistBroadcast TransmitLimitedQueue \<times> MyDelegate) \<times> bytes list) go" where
  "getBroadcasts ceil_log10 est num overhead limit s =
     (case s of (q, d) \<Rightarrow>
       go_bind (GetBroadcasts mb_ops ceil_log10 est q overhead limit) (\<lambda>(q', toSend, _).
         (let bytesUsed = sum_list (map (\<lambda>msg. int (length msg) + overhead) toSend);
              avail = limit - bytesUsed
          in if avail > overhead + userMsgOverhead
             then go_bind (dl_GetBroadcasts ceil_log10 num d (overhead + userMsgOverhead) avail)
                    (\<lambda>(d', userMsgs). Ret ((q', d'), toSend @ map frame_user userMsgs))
             else Ret ((q', d), toSend))))"

text \<open>One, or several, messages as a command.\<close>

definition gossip_command :: "bytes list \<Rightarrow> bytes" where
  "gossip_command msgs = (if length msgs = 1 then hd msgs else makeCompoundMessage msgs)"

text \<open>Up to \<open>k\<close> nodes for which the filter is false; \<open>rnd i\<close> is the random offset of the \<open>i\<close>-th attempt.\<close>

fun kRandom_loop :: "nat \<Rightarrow> string list \<Rightarrow> (string \<Rightarrow> bool) \<Rightarrow> nat list \<Rightarrow> string list \<Rightarrow> string list" where
  "kRandom_loop k nodes filterFn [] kNodes = kNodes"
| "kRandom_loop k nodes filterFn (idx # idxs) kNodes =
     (if length kNodes < k
      then (let node = nodes ! idx
            in if filterFn node then kRandom_loop k nodes filterFn idxs kNodes
               else if node \<in> set kNodes then kRandom_loop k nodes filterFn idxs kNodes
               else kRandom_loop k nodes filterFn idxs (kNodes @ [node]))
      else kNodes)"

definition kRandomNodes :: "nat \<Rightarrow> string list \<Rightarrow> (string \<Rightarrow> bool) \<Rightarrow> (nat \<Rightarrow> nat) \<Rightarrow> string list" where
  "kRandomNodes k nodes filterFn rnd = kRandom_loop k nodes filterFn (map rnd [0..<3 * length nodes]) []"

definition not_gossiped_to :: "ml_config \<Rightarrow> (string \<Rightarrow> time) \<Rightarrow> memberlist \<Rightarrow> string \<Rightarrow> bool" where
  "not_gossiped_to cfg clock m name \<longleftrightarrow>
     name = mc_Name cfg
     \<or> (case ml_nodeMap m name of
          None \<Rightarrow> True
        | Some n \<Rightarrow> ns_State n = stateDead \<and> time_Sub (clock name) (ns_StateChange n) > mc_GossipToTheDeadTime cfg)"

definition compoundHeaderOverhead :: int where
  "compoundHeaderOverhead = 2"

definition compoundOverhead :: int where
  "compoundOverhead = 2"

definition UDPBufferSize :: int where
  "UDPBufferSize = 1400"

definition GossipNodes :: nat where
  "GossipNodes = 3"

text \<open>The packets of a round with the names of the nodes they go to; \<open>pmax\<close> gives a node's highest protocol version.\<close>

fun gossip_to ::
  "codecs \<Rightarrow> (int \<Rightarrow> int) \<Rightarrow> int \<Rightarrow> int \<Rightarrow> (string \<Rightarrow> int) \<Rightarrow> string list \<Rightarrow> memberlistBroadcast TransmitLimitedQueue \<times> MyDelegate
    \<Rightarrow> ((memberlistBroadcast TransmitLimitedQueue \<times> MyDelegate) \<times> (string \<times> bytes) list) go" where
  "gossip_to co ceil_log10 est num pmax [] s = Ret (s, [])"
| "gossip_to co ceil_log10 est num pmax (node # nodes) s =
     go_bind (getBroadcasts ceil_log10 est num compoundOverhead (UDPBufferSize - compoundHeaderOverhead) s) (\<lambda>(s', msgs).
       if msgs = [] then Ret (s', [])
       else go_bind (gossip_to co ceil_log10 est num pmax nodes s') (\<lambda>(s'', packets).
              Ret (s'', (node, rawSendMsgPacket co (Some (pmax node)) (gossip_command msgs)) # packets)))"

definition gossip ::
  "codecs \<Rightarrow> ml_config \<Rightarrow> (string \<Rightarrow> time) \<Rightarrow> (nat \<Rightarrow> nat) \<Rightarrow> (int \<Rightarrow> int) \<Rightarrow> memberlist \<Rightarrow> memberlistBroadcast TransmitLimitedQueue \<times> MyDelegate
    \<Rightarrow> ((memberlistBroadcast TransmitLimitedQueue \<times> MyDelegate) \<times> (string \<times> bytes) list) go" where
  "gossip co cfg clock rnd ceil_log10 m s =
     gossip_to co ceil_log10 (int (unat (ml_numNodes m))) (ed_Num (ml_events m))
       (\<lambda>name. case ml_nodeMap m name of Some n \<Rightarrow> (case ns_Vsn n of _ # v # _ \<Rightarrow> v | _ \<Rightarrow> 0) | None \<Rightarrow> 0)
       (kRandomNodes GossipNodes (ml_nodes m) (not_gossiped_to cfg clock m) rnd) s"

section \<open>Lemmas\<close>

lemma messageType_of_byte [simp]: "messageType_of (type_byte t) = Some t"
  by (cases t) (simp_all add: messageType_of_def type_byte_def messageTypes_def)

lemma Uint16_Put: "n < 65536 \<Longrightarrow> Uint16 (char_of (n div 256)) (char_of n) = n"
  by (simp add: Uint16_def less_mult_imp_div_less)

lemma Uint32_Put:
  assumes "n < 2 ^ 32"
  shows "Uint32 (char_of (n div 2 ^ 24)) (char_of (n div 2 ^ 16)) (char_of (n div 2 ^ 8)) (char_of n) = n"
proof -
  define x y z where "x = n div 256" and "y = x div 256" and "z = y div 256"
  have e: "256 * x + n mod 256 = n" "256 * y + x mod 256 = x" "256 * z + y mod 256 = y"
    by (simp add: x_def, simp add: y_def, simp add: z_def)
  have "z < 256" using assms by (simp add: x_def y_def z_def div_mult2_eq [symmetric] less_mult_imp_div_less)
  moreover have "n div 2 ^ 8 = x" "n div 2 ^ 16 = y" "n div 2 ^ 24 = z"
    by (simp_all add: x_def y_def z_def div_mult2_eq [symmetric])
  ultimately have "Uint32 (char_of (n div 2 ^ 24)) (char_of (n div 2 ^ 16)) (char_of (n div 2 ^ 8)) (char_of n)
    = z * 16777216 + (y mod 256) * 65536 + (x mod 256) * 256 + n mod 256"
    by (simp add: Uint32_def)
  also have "\<dots> = n" using e by linarith
  finally show ?thesis .
qed

lemma ChecksumIEEE_bound: "ChecksumIEEE bs < 2 ^ 32"
proof -
  have "unat w < 2 ^ 32" for w :: "32 word" using unsigned_less [of w] by simp
  then show ?thesis unfolding ChecksumIEEE_def by blast
qed

text \<open>The check value of the checksum's definition.\<close>

lemma funpow_8: "(f ^^ 8) x = f (f (f (f (f (f (f (f x)))))))"
  by (simp add: numeral_eq_Suc)

lemma ChecksumIEEE_check: "ChecksumIEEE ''123456789'' = 0xCBF43926"
  by (simp add: ChecksumIEEE_def crc_byte_def crc_bit_def funpow_8)

lemma read_lengths_concat:
  "\<forall>m \<in> set msgs. length m < 65536 \<Longrightarrow>
     read_lengths (length msgs) (concat (map (\<lambda>m. PutUint16 (length m)) msgs) @ rest) = Ret (map length msgs)"
  by (induction msgs) (simp_all add: PutUint16_def Uint16_Put)

lemma split_parts_concat: "\<exists>ss. split_parts (map length msgs) (concat msgs, spare) = (0, ss) \<and> map fst ss = msgs"
  by (induction msgs) auto

lemma concat_lengths: "length (concat (map (\<lambda>m. PutUint16 (length m)) msgs)) = 2 * length msgs"
  by (induction msgs) (simp_all add: PutUint16_def)

text \<open>Up to 127 messages, each shorter than 64 kilobytes, come out of a compound message as they were put in.\<close>

lemma compound_roundtrip:
  assumes "length msgs < 128" and "\<forall>m \<in> set msgs. length m < 65536"
  shows "\<exists>ss. decodeCompoundMessage (tl (makeCompoundMessage msgs), spare) = Ret (Inr (0, ss)) \<and> map fst ss = msgs"
  using assms split_parts_concat [of msgs spare]
  by (auto simp: decodeCompoundMessage_def makeCompoundMessage_def concat_lengths read_lengths_concat Let_def mult.commute)

text \<open>With 128 messages the size of the header is taken for zero: the receiver takes the lengths for messages.\<close>

lemma compound_128:
  assumes "length msgs = 128" and "\<forall>m \<in> set msgs. length m < 65536"
  shows "decodeCompoundMessage (tl (makeCompoundMessage msgs), spare)
    = Ret (Inr (split_parts (map length msgs) (concat (map (\<lambda>m. PutUint16 (length m)) msgs) @ concat msgs, spare)))"
proof -
  have "read_lengths 128 (concat (map (\<lambda>m. PutUint16 (length m)) msgs) @ concat msgs @ spare) = Ret (map length msgs)"
    using read_lengths_concat [OF assms(2)] assms(1) by simp
  then show ?thesis using assms(1) by (simp add: decodeCompoundMessage_def makeCompoundMessage_def Let_def)
qed

text \<open>A message for the queues, and what becomes of it.\<close>

definition queueable :: "bytes \<Rightarrow> bool" where
  "queueable m \<longleftrightarrow> m \<noteq> [] \<and> messageType_of (hd m) \<in> Some ` {suspectMsg, aliveMsg, deadMsg, userMsg}"

definition parse_queued :: "bytes \<Rightarrow> messageType \<times> bytes" where
  "parse_queued m = (the (messageType_of (hd m)), tl m)"

definition queue_one :: "bytes \<Rightarrow> inbound \<Rightarrow> inbound" where
  "queue_one m ib = notify_handler (enqueue (fst (parse_queued m)) (snd (parse_queued m)) ib)"

lemma handleCommand_queueable:
  "queueable m \<Longrightarrow> handleCommand co (Suc depth) (m, spare) ib = Some (Ret (queue_one m ib))"
  by (cases m) (auto simp: queueable_def queue_one_def parse_queued_def)

lemma in_turn_queueable:
  "\<forall>s \<in> set ss. queueable (fst s) \<Longrightarrow>
     in_turn (handleCommand co (Suc depth)) ss ib = Some (Ret (fold queue_one (map fst ss) ib))"
proof (induction ss arbitrary: ib)
  case (Cons s ss)
  then show ?case by (cases s) (simp add: handleCommand_queueable del: handleCommand.simps)
qed simp

text \<open>What a round of gossip may send.\<close>

definition sendable_batch :: "bytes list \<Rightarrow> bool" where
  "sendable_batch msgs \<longleftrightarrow> msgs \<noteq> [] \<and> length msgs < 128 \<and> (\<forall>m \<in> set msgs. queueable m \<and> length m < 65536)"

lemma handleCommand_gossip:
  assumes "sendable_batch msgs"
  shows "handleCommand co (Suc (Suc depth)) (gossip_command msgs, spare) ib = Some (Ret (fold queue_one msgs ib))"
proof (cases "length msgs = 1")
  case True
  then obtain m where "msgs = [m]" by (cases msgs) auto
  then show ?thesis using assms handleCommand_queueable [of m] by (simp add: gossip_command_def sendable_batch_def del: handleCommand.simps)
next
  case False
  obtain ss where ss: "decodeCompoundMessage (tl (makeCompoundMessage msgs), spare) = Ret (Inr (0, ss))" "map fst ss = msgs"
    using compound_roundtrip assms unfolding sendable_batch_def by blast
  have "\<forall>s \<in> set ss. queueable (fst s)" using assms ss(2) unfolding sendable_batch_def by (metis image_eqI set_map)
  then have "in_turn (handleCommand co (Suc depth)) ss ib = Some (Ret (fold queue_one msgs ib))"
    using in_turn_queueable [of ss] ss(2) by simp
  moreover have "gossip_command msgs = type_byte compoundMsg # tl (makeCompoundMessage msgs)"
    using False by (simp add: gossip_command_def makeCompoundMessage_def)
  ultimately show ?thesis using ss(1) by simp
qed

text \<open>What is documented of the coders: decoding undoes encoding.\<close>

definition codecs_ok :: "codecs \<Rightarrow> bool" where
  "codecs_ok co \<longleftrightarrow> (\<forall>x z. co_lzw co x = Some z \<longrightarrow> (\<exists>spare. co_unlzw co z = Some (x, spare)))
     \<and> (\<forall>c e. co_enc_compress co c = Some e \<longrightarrow> co_dec_compress co e = Some c)"

lemma decompress_compress:
  "codecs_ok co \<Longrightarrow> compressPayload co msg = Some buf \<Longrightarrow>
    \<exists>e spare. buf = type_byte compressMsg # e \<and> decompressPayload co e = Some (msg, spare)"
  unfolding codecs_ok_def
  by (fastforce simp: compressPayload_def decompressPayload_def decompressBuffer_def split: option.splits)

lemma packet_command_plain: "messageType_of c \<noteq> Some hasCrcMsg \<Longrightarrow> packet_command (c # buf, spare) = Some (c # buf, spare)"
  by (auto simp: packet_command_def split: list.splits)

lemma packet_command_crc:
  "packet_command (type_byte hasCrcMsg # PutUint32 (ChecksumIEEE msg) @ msg, spare) = Some (msg, spare)"
  using Uint32_Put [OF ChecksumIEEE_bound, of msg] by (simp add: packet_command_def PutUint32_def del: power_numeral power_Suc)

lemma gossip_command_head:
  assumes "sendable_batch msgs"
  obtains c buf where "gossip_command msgs = c # buf" and "messageType_of c \<noteq> Some hasCrcMsg"
proof (cases "length msgs = 1")
  case True
  then obtain m where "msgs = [m]" by (cases msgs) auto
  then show ?thesis
    using assms that [of "hd m" "tl m"] by (auto simp: gossip_command_def sendable_batch_def queueable_def)
next
  case False
  then show ?thesis
    using that [of "type_byte compoundMsg" "tl (makeCompoundMessage msgs)"] by (simp add: gossip_command_def makeCompoundMessage_def)
qed

text \<open>However a packet was compressed and checked, the receiver queues the messages that were put into it.\<close>

lemma ingest_gossip:
  assumes "codecs_ok co" and ok: "sendable_batch msgs" and "3 \<le> depth"
  shows "ingestPacket co depth (rawSendMsgPacket co pmax (gossip_command msgs), spare) ib = Some (Ret (fold queue_one msgs ib))"
proof -
  obtain n where n: "depth = Suc (Suc (Suc n))" using assms(3) by (metis numeral_3_eq_3 le_Suc_ex add_Suc)
  let ?cmd = "gossip_command msgs"
  define msg where "msg = (case compressPayload co ?cmd of None \<Rightarrow> ?cmd | Some buf \<Rightarrow> if length buf < length ?cmd then buf else ?cmd)"
  have "(\<exists>c buf. msg = c # buf \<and> messageType_of c \<noteq> Some hasCrcMsg)
    \<and> (\<forall>sp. handleCommand co depth (msg, sp) ib = Some (Ret (fold queue_one msgs ib)))"
  proof (cases "msg = ?cmd")
    case True
    then show ?thesis
      using gossip_command_head [OF ok] handleCommand_gossip [OF ok] n by metis
  next
    case False
    then have "compressPayload co ?cmd = Some msg" by (auto simp: msg_def split: option.splits if_splits)
    then obtain e sp where "msg = type_byte compressMsg # e" "decompressPayload co e = Some (?cmd, sp)"
      using decompress_compress [OF assms(1)] by blast
    then show ?thesis
      using handleCommand_gossip [OF ok] n by simp
  qed
  then obtain c buf where c: "msg = c # buf" "messageType_of c \<noteq> Some hasCrcMsg"
    and h: "\<And>sp. handleCommand co depth (msg, sp) ib = Some (Ret (fold queue_one msgs ib))" by blast
  have "packet_command (rawSendMsgPacket co pmax ?cmd, spare) = Some (msg, spare)"
    using packet_command_plain [OF c(2)] packet_command_crc [of msg] c(1)
    by (auto simp: rawSendMsgPacket_def msg_def [symmetric] Let_def split: option.splits)
  then show ?thesis using h by (simp add: ingestPacket_def)
qed

section \<open>The handler delivers\<close>

text \<open>The messages in the order in which the handler takes them.\<close>

definition backlog :: "inbound \<Rightarrow> (messageType \<times> bytes) list" where
  "backlog ib = rev (ib_high ib) @ rev (ib_low ib)"

lemma getNextMessage_backlog: "getNextMessage ib = Some (x, ib') \<Longrightarrow> backlog ib = x # backlog ib'"
  by (cases "ib_high ib" rule: rev_cases; cases "ib_low ib" rule: rev_cases; auto simp: getNextMessage_def backlog_def)

lemma getNextMessage_None: "getNextMessage ib = None \<longleftrightarrow> backlog ib = []"
  by (auto simp: getNextMessage_def backlog_def)

text \<open>What a message adds to the inbox of the delegate.\<close>

definition inbox_of :: "messageType \<times> bytes \<Rightarrow> MyBroadcastMessage list" where
  "inbox_of msg = (if fst msg = userMsg
     then (case ParseMyBroadcastMessage (snd msg) of (Some v, True) \<Rightarrow> [v] | _ \<Rightarrow> []) else [])"

definition harmless :: "codecs \<Rightarrow> messageType \<times> bytes \<Rightarrow> bool" where
  "harmless co msg \<longleftrightarrow>
     (fst msg = aliveMsg \<longrightarrow> (\<forall>a. co_alive co (snd msg) = Some a \<longrightarrow> al_Vsn a = [] \<or> 6 \<le> length (al_Vsn a)))
     \<and> (fst msg = userMsg \<longrightarrow> unmarshal (snd msg) \<noteq> Some JNull)"

lemma dl_NotifyMsg_returns:
  "unmarshal buf \<noteq> Some JNull \<Longrightarrow> dl_NotifyMsg d buf = Ret (d\<lparr>dl_msgs := dl_msgs d @ inbox_of (userMsg, buf)\<rparr>)"
  by (auto simp: dl_NotifyMsg_def inbox_of_def ParseMyBroadcastMessage_def split: option.splits json.splits)

lemma handle_message_returns:
  assumes "harmless co msg"
  shows "\<exists>m'. handle_message co cfg port now offset msg (m, d) = Ret (m', d\<lparr>dl_msgs := dl_msgs d @ inbox_of msg\<rparr>)"
proof (cases msg)
  case (Pair t buf)
  show ?thesis
  proof (cases t)
    case aliveMsg
    then show ?thesis
      using assms Pair aliveNode_returns
      by (auto simp: handle_message_def handleAlive_def harmless_def inbox_of_def go_bind_eq_Ret split: option.splits)
  next
    case userMsg
    then show ?thesis using assms Pair by (simp add: handle_message_def harmless_def dl_NotifyMsg_returns)
  qed (auto simp: handle_message_def Pair inbox_of_def)
qed

lemma packetHandler_delivers:
  "\<forall>msg \<in> set (backlog ib). harmless co msg \<Longrightarrow>
     \<exists>ib' m'. packetHandler co cfg port clock rnd ib (m, d) =
         Ret (ib', m', d\<lparr>dl_msgs := dl_msgs d @ concat (map inbox_of (backlog ib))\<rparr>) \<and> getNextMessage ib' = None"
proof (induction "length (backlog ib)" arbitrary: ib m d)
  case 0
  then have "getNextMessage ib = None" "backlog ib = []" by (simp_all add: getNextMessage_None)
  then show ?case by (simp add: packetHandler.simps [of co cfg port clock rnd ib])
next
  case (Suc n)
  then obtain msg ib1 where nx: "getNextMessage ib = Some (msg, ib1)" by (metis getNextMessage_None length_0_conv nat.distinct(1) option.exhaust surj_pair)
  note b = getNextMessage_backlog [OF nx]
  obtain m1 where h: "handle_message co cfg port (clock (pending ib)) (rnd (pending ib)) msg (m, d)
      = Ret (m1, d\<lparr>dl_msgs := dl_msgs d @ inbox_of msg\<rparr>)"
    using handle_message_returns Suc.prems b by (metis list.set_intros(1))
  show ?case
    using Suc.hyps(1) [of ib1 m1 "d\<lparr>dl_msgs := dl_msgs d @ inbox_of msg\<rparr>"] Suc.hyps(2) Suc.prems b
    by (simp add: packetHandler.simps [of co cfg port clock rnd ib] nx h)
qed

lemma fold_queue_one:
  assumes "length (ib_high ib) + length msgs \<le> HandoffQueueDepth" and "length (ib_low ib) + length msgs \<le> HandoffQueueDepth"
  shows "ib_high (fold queue_one msgs ib) = ib_high ib @ filter (\<lambda>x. fst x = aliveMsg) (map parse_queued msgs)"
    and "ib_low (fold queue_one msgs ib) = ib_low ib @ filter (\<lambda>x. fst x \<noteq> aliveMsg) (map parse_queued msgs)"
  using assms
  by (induction msgs arbitrary: ib) (auto simp: queue_one_def enqueue_def notify_handler_def prod_eq_iff split: if_splits)

lemma fold_queue_handoff: "msgs \<noteq> [] \<Longrightarrow> ib_handoff (fold queue_one msgs ib)"
  by (cases msgs rule: rev_cases) (simp_all add: queue_one_def notify_handler_def)

section \<open>A batch fits\<close>

lemma GetBroadcasts_limit:
  assumes "GetBroadcasts ops ceil_log10 n q overhead limit = Ret (q', msgs, fin)"
  shows "msgs = [] \<or> sum_list (map (\<lambda>m. overhead + int (length m)) msgs) \<le> limit"
proof (cases "lenLocked q = 0")
  case False
  let ?g = "get_loop ops overhead limit (retransmitLimit ceil_log10 (q_RetransmitMult q) n) (snd (getTransmitRange q))
    \<lparr>g_transmits = fst (getTransmitRange q), g_bytesUsed = 0, g_toSend = [], g_reinsert = [], g_finished = [], g_queue = q\<rparr>"
  have "within_limit overhead limit ?g" by (rule get_loop_within_limit) (simp add: within_limit_def)
  moreover have "msgs = g_toSend ?g"
    using assms False by (auto simp: GetBroadcasts_def Let_def split_beta go_bind_eq_Ret)
  ultimately show ?thesis by (auto simp: within_limit_def)
qed (use assms in \<open>simp add: GetBroadcasts_def\<close>)

lemma Message_length: "8 \<le> length (Message b)"
  by (simp add: Message_def message_json_def print_str_def)

lemma batch_small:
  assumes "\<forall>m \<in> set msgs. 9 \<le> length m" and "sum_list (map (\<lambda>m. 2 + int (length m)) msgs) \<le> 1398"
  shows "length msgs < 128" and "\<forall>m \<in> set msgs. length m < 65536"
proof -
  have "11 * int (length msgs) \<le> sum_list (map (\<lambda>m. 2 + int (length m)) msgs)"
    using assms(1) by (induction msgs) auto
  then show "length msgs < 128" using assms(2) by linarith
  have "2 + int (length m) \<le> sum_list (map (\<lambda>m. 2 + int (length m)) msgs)" if "m \<in> set msgs" for m
    using that by (intro member_le_sum_list) auto
  then show "\<forall>m \<in> set msgs. length m < 65536" using assms(2) by fastforce
qed

text \<open>A message of the member list: its type and an encoded struct.\<close>

definition member_message :: "bytes \<Rightarrow> bool" where
  "member_message m \<longleftrightarrow> 9 \<le> length m \<and> messageType_of (hd m) \<in> Some ` {suspectMsg, aliveMsg, deadMsg}"

lemma gossip_batch:
  assumes "GetBroadcasts mb_ops ceil_log10 est q compoundOverhead (UDPBufferSize - compoundHeaderOverhead) = Ret (q', sys, fin)"
    and "plain_queue (dl_broadcasts d)" and "distinct (map lb_id (q_items (dl_broadcasts d)))"
  shows "\<exists>d' bs. getBroadcasts ceil_log10 est num compoundOverhead (UDPBufferSize - compoundHeaderOverhead) (q, d)
      = Ret ((q', d'), sys @ map (\<lambda>b. frame_user (Message b)) bs)
    \<and> set bs \<subseteq> lb_b ` set (q_items (dl_broadcasts d))
    \<and> (sys @ map (\<lambda>b. frame_user (Message b)) bs = []
       \<or> sum_list (map (\<lambda>m. 2 + int (length m)) (sys @ map (\<lambda>b. frame_user (Message b)) bs)) \<le> 1398)"
proof -
  let ?used = "sum_list (map (\<lambda>m. int (length m) + 2) sys)"
  note sizes = compoundOverhead_def UDPBufferSize_def compoundHeaderOverhead_def userMsgOverhead_def
  have sys: "sys = [] \<or> ?used \<le> 1398" using GetBroadcasts_limit [OF assms(1)] by (simp add: sizes add.commute)
  show ?thesis
  proof (cases "1398 - ?used > 3")
    case False
    then have "getBroadcasts ceil_log10 est num compoundOverhead (UDPBufferSize - compoundHeaderOverhead) (q, d) = Ret ((q', d), sys)"
      using assms(1) by (simp add: getBroadcasts_def sizes Let_def)
    then show ?thesis using sys by (intro exI [of _ d] exI [of _ "[]"]) (simp add: add.commute)
  next
    case True
    obtain r picks rest where r: "GetBroadcasts msg_ops ceil_log10 num (dl_broadcasts d) 3 (1398 - ?used) = Ret r"
      "sent_batch msg_ops (retransmitLimit ceil_log10 (q_RetransmitMult (dl_broadcasts d)) num) 3 (1398 - ?used)
         (q_items (dl_broadcasts d)) picks rest r"
      using GetBroadcasts_batch [OF assms(2,3)] by blast
    obtain dq msgs fin' where rr: "r = (dq, msgs, fin')" by (cases r)
    let ?bs = "map lb_b picks"
    have b: "msgs = map Message ?bs" "set picks \<subseteq> set (q_items (dl_broadcasts d))"
      "msgs = [] \<or> sum_list (map (\<lambda>m. 3 + int (length m)) msgs) \<le> 1398 - ?used"
      using r(2) by (auto simp: sent_batch_def rr comp_def dest: arg_cong [of _ _ set_mset])
    have "sum_list (map (\<lambda>m. 2 + int (length m)) (map (\<lambda>b. frame_user (Message b)) ?bs)) = sum_list (map (\<lambda>m. 3 + int (length m)) msgs)"
      by (simp add: b(1) frame_user_def comp_def)
    moreover have "sum_list (map (\<lambda>m. 2 + int (length m)) sys) = ?used" by (simp add: add.commute)
    ultimately have "sys @ map (\<lambda>b. frame_user (Message b)) ?bs = []
       \<or> sum_list (map (\<lambda>m. 2 + int (length m)) (sys @ map (\<lambda>b. frame_user (Message b)) ?bs)) \<le> 1398"
      using sys b(1,3) by auto
    moreover have "getBroadcasts ceil_log10 est num compoundOverhead (UDPBufferSize - compoundHeaderOverhead) (q, d)
      = Ret ((q', d\<lparr>dl_broadcasts := dq\<rparr>), sys @ map (\<lambda>b. frame_user (Message b)) ?bs)"
      using assms(1) r(1) True by (simp add: getBroadcasts_def dl_GetBroadcasts_def sizes Let_def rr b(1) comp_def)
    ultimately show ?thesis using b(2) by (intro exI [of _ "d\<lparr>dl_broadcasts := dq\<rparr>"] exI [of _ ?bs]) auto
  qed
qed

lemma frame_user_queueable: "queueable (frame_user m)" "parse_queued (frame_user m) = (userMsg, m)"
  by (simp_all add: queueable_def parse_queued_def frame_user_def)

lemma member_queueable:
  "member_message m \<Longrightarrow> queueable m" "member_message m \<Longrightarrow> fst (parse_queued m) \<noteq> userMsg"
  by (auto simp: member_message_def queueable_def parse_queued_def)

text \<open>What the handler finds after a batch, newest first and the alive messages before the others.\<close>

lemma batch_inbox:
  assumes "\<forall>m \<in> set sys. member_message m" and "\<forall>b \<in> set bs. sendable b"
    and "length (sys @ map (\<lambda>b. frame_user (Message b)) bs) \<le> HandoffQueueDepth" and "ib_high ib = []" "ib_low ib = []"
  shows "concat (map inbox_of (backlog (fold queue_one (sys @ map (\<lambda>b. frame_user (Message b)) bs) ib))) = rev bs"
    (is "concat (map inbox_of (backlog (fold queue_one ?msgs ib))) = _")
    and "\<forall>msg \<in> set (backlog (fold queue_one (sys @ map (\<lambda>b. frame_user (Message b)) bs) ib)). fst msg = userMsg \<longrightarrow> unmarshal (snd msg) \<noteq> Some JNull"
proof -
  let ?s = "map parse_queued sys" and ?u = "map (\<lambda>b. (userMsg, Message b)) bs"
  have p: "map parse_queued ?msgs = ?s @ ?u" by (simp add: frame_user_queueable)
  have hi: "ib_high (fold queue_one ?msgs ib) = filter (\<lambda>x. fst x = aliveMsg) ?s"
    using fold_queue_one(1) [of ib ?msgs] assms(3-5) unfolding p by simp
  have lo: "ib_low (fold queue_one ?msgs ib) = filter (\<lambda>x. fst x \<noteq> aliveMsg) ?s @ ?u"
    using fold_queue_one(2) [of ib ?msgs] assms(3-5) unfolding p by (simp add: filter_id_conv)
  have s: "\<forall>x \<in> set ?s. fst x \<noteq> userMsg" using assms(1) member_queueable(2) by auto
  then have sn: "concat (map inbox_of (rev (filter P ?s))) = []" for P by (auto simp: inbox_of_def)
  have "map inbox_of ?u = map (\<lambda>b. [b]) bs" using assms(2) by (simp add: inbox_of_def parse_Message)
  then have "concat (map inbox_of (rev ?u)) = rev bs" by (simp add: rev_map [symmetric] map_map [symmetric] del: map_map) (simp add: rev_map concat_map_singleton)
  then show "concat (map inbox_of (backlog (fold queue_one ?msgs ib))) = rev bs"
    unfolding backlog_def hi lo rev_append map_append concat_append sn by simp
  show "\<forall>msg \<in> set (backlog (fold queue_one ?msgs ib)). fst msg = userMsg \<longrightarrow> unmarshal (snd msg) \<noteq> Some JNull"
    unfolding backlog_def hi lo using s assms(2) by (auto simp: unmarshal_Message message_json_def)
qed

section \<open>Claims\<close>


definition sample_codecs :: codecs where
  "sample_codecs = \<lparr>co_lzw = Some, co_unlzw = (\<lambda>z. Some (z, [])),
     co_enc_compress = (\<lambda>(algo, z). if algo < 256 then Some (char_of algo # z) else None),
     co_dec_compress = (\<lambda>e. case e of [] \<Rightarrow> None | c # z \<Rightarrow> Some (of_char c, z)),
     co_alive = (\<lambda>_. None), co_suspect = (\<lambda>_. None), co_dead = (\<lambda>_. None)\<rparr>"

definition sample_sender :: MyDelegate where
  "sample_sender = (new_delegate [])\<lparr>dl_broadcasts := \<lparr>q_RetransmitMult = 4,
     q_tq = Some [\<lparr>lb_transmits = 0, lb_msgLen = 90, lb_id = 1, lb_b = sample_message 5 ''k'', lb_name = []\<rparr>],
     q_tm = make_map, q_idGen = 1\<rparr>\<rparr>"

definition empty_inbound :: inbound where
  "empty_inbound = \<lparr>ib_high = [], ib_low = [], ib_handoff = False, ib_direct = []\<rparr>"

lemma sample_batch:
  "go_bind (getBroadcasts (\<lambda>_. 1) 3 3 compoundOverhead (UDPBufferSize - compoundHeaderOverhead) (new_queue 4, sample_sender))
     (\<lambda>(_, msgs). Ret (length msgs)) = Ret 1"
  by code_simp


section \<open>Which packets are fatal\<close>

text \<open>All commands that a command consists of, itself included, down to a depth.\<close>

fun commands :: "codecs \<Rightarrow> nat \<Rightarrow> slice \<Rightarrow> slice list" where
  "commands co 0 s = []"
| "commands co (Suc depth) ([], spare) = [([], spare)]"
| "commands co (Suc depth) (c # buf, spare) = (c # buf, spare) #
     (case messageType_of c of
        Some compoundMsg \<Rightarrow>
          (case decodeCompoundMessage (buf, spare) of
             Inr (Inr (trunc, parts)) \<Rightarrow> concat (map (commands co depth) parts) | _ \<Rightarrow> [])
      | Some compressMsg \<Rightarrow> (case decompressPayload co buf of None \<Rightarrow> [] | Some payload \<Rightarrow> commands co depth payload)
      | _ \<Rightarrow> [])"

text \<open>
  An empty command; or a compound message of 128 or more parts with a buffer too small for their
  lengths, which its check of the size in eight bits lets pass.
\<close>

definition fatal_compound :: "slice \<Rightarrow> bool" where
  "fatal_compound s \<longleftrightarrow>
     (case s of ([], _) \<Rightarrow> False
      | (k # body, spare) \<Rightarrow> 128 \<le> (of_char k :: nat) \<and> of_char k * 2 - 256 \<le> length body \<and> length body + length spare < of_char k * 2)"

definition fatal :: "slice \<Rightarrow> bool" where
  "fatal s \<longleftrightarrow>
     (case s of ([], _) \<Rightarrow> True | (c # buf, spare) \<Rightarrow> messageType_of c = Some compoundMsg \<and> fatal_compound (buf, spare))"

lemma read_lengths_panics: "read_lengths n mem = Panic p \<Longrightarrow> length mem < 2 * n" "length mem < 2 * n \<Longrightarrow> \<exists>p. read_lengths n mem = Panic p"
proof -
  show "length mem < 2 * n \<Longrightarrow> \<exists>p. read_lengths n mem = Panic p"
    by (induction n mem rule: read_lengths.induct) auto
  show "read_lengths n mem = Panic p \<Longrightarrow> length mem < 2 * n"
    by (induction n mem rule: read_lengths.induct) (auto simp: go_bind_def split: sum.splits)
qed

lemma of_char_double: "(of_char k :: nat) * 2 mod 256 = (if (of_char k :: nat) < 128 then of_char k * 2 else of_char k * 2 - 256)"
proof -
  have "n * 2 mod 256 = (if n < 128 then n * 2 else n * 2 - 256)" if "n < 256" for n :: nat
    using that le_mod_geq [of 256 "n * 2"] by (cases "n < 128") simp_all
  moreover have "(of_char k :: nat) < 256" using of_char_mod_256 [of k, where 'a = nat] by (metis mod_less_divisor zero_less_numeral)
  ultimately show ?thesis by blast
qed

lemma decodeCompound_panics: "(\<exists>p. decodeCompoundMessage s = Panic p) \<longleftrightarrow> fatal_compound s"
proof (cases s)
  case (Pair buf spare)
  show ?thesis
  proof (cases buf)
    case (Cons k body)
    let ?n = "of_char k :: nat"
    have "(\<exists>p. decodeCompoundMessage s = Panic p) \<longleftrightarrow> ?n * 2 mod 256 \<le> length body \<and> (\<exists>p. read_lengths ?n (body @ spare) = Panic p)"
      by (cases "read_lengths ?n (body @ spare)") (auto simp: Pair Cons decodeCompoundMessage_def Let_def)
    also have "\<dots> \<longleftrightarrow> ?n * 2 mod 256 \<le> length body \<and> length body + length spare < ?n * 2"
      using read_lengths_panics [where n = ?n and mem = "body @ spare"] by (auto simp: mult.commute)
    also have "\<dots> \<longleftrightarrow> fatal_compound s"
      by (auto simp: of_char_double fatal_compound_def Pair Cons)
    finally show ?thesis .
  qed (simp add: Pair decodeCompoundMessage_def fatal_compound_def)
qed

lemma in_turn_panics:
  assumes "\<And>x s r. x \<in> set xs \<Longrightarrow> f x s = Some r \<Longrightarrow> (\<exists>p. r = Panic p) \<longleftrightarrow> P x" and "in_turn f xs s = Some r"
  shows "(\<exists>p. r = Panic p) \<longleftrightarrow> (\<exists>x \<in> set xs. P x)"
  using assms
proof (induction xs arbitrary: s)
  case (Cons x xs)
  obtain y where y: "f x s = Some y" using Cons.prems(2) by (auto split: option.splits)
  show ?case
  proof (cases y)
    case (Inl p)
    then show ?thesis using Cons.prems y by auto
  next
    case (Inr s')
    then have "in_turn f xs s' = Some r" using Cons.prems(2) y by simp
    moreover have "\<not> P x" using Cons.prems(1) [of x s y] y Inr by auto
    ultimately show ?thesis using Cons.IH [of s'] Cons.prems(1) by auto
  qed
qed auto

lemma handleCommand_panics:
  "handleCommand co depth s ib = Some r \<Longrightarrow> (\<exists>p. r = Panic p) \<longleftrightarrow> (\<exists>x \<in> set (commands co depth s). fatal x)"
proof (induction co depth s arbitrary: ib r rule: commands.induct)
  case (3 co depth c buf spare)
  show ?case
  proof (cases "messageType_of c = Some compoundMsg")
    case True
    show ?thesis
    proof (cases "decodeCompoundMessage (buf, spare)")
      case (Inl p)
      moreover from this have "fatal_compound (buf, spare)" using decodeCompound_panics by blast
      ultimately show ?thesis using 3 True by (auto simp: fatal_def)
    next
      case (Inr res)
      then have nf: "\<not> fatal_compound (buf, spare)" using decodeCompound_panics [of "(buf, spare)"] by auto
      show ?thesis
      proof (cases res)
        case (Inl e)
        then show ?thesis using 3 True Inr nf by (auto simp: fatal_def)
      next
        case inr: (Inr tp)
        obtain trunc parts where tp: "tp = (trunc, parts)" by (cases tp)
        have "in_turn (handleCommand co depth) parts ib = Some r" using 3 True Inr inr tp by simp
        from in_turn_panics [OF _ this, where P = "\<lambda>x. \<exists>y \<in> set (commands co depth x). fatal y"]
        have "(\<exists>p. r = Panic p) \<longleftrightarrow> (\<exists>x \<in> set parts. \<exists>y \<in> set (commands co depth x). fatal y)"
          using "3.IH"(1) True Inr inr tp by blast
        then show ?thesis using True Inr inr tp nf by (auto simp: fatal_def)
      qed
    qed
  next
    case False
    then have nf: "\<not> fatal (c # buf, spare)" by (simp add: fatal_def)
    show ?thesis
    proof (cases "messageType_of c = Some compressMsg")
      case True
      then show ?thesis
        using "3.prems" "3.IH"(2) nf by (cases "decompressPayload co buf") auto
    next
      case not: False
      have "\<exists>ib'. r = Ret ib'"
        using "3.prems" False not by (auto split: option.splits messageType.splits if_splits)
      moreover have "commands co (Suc depth) (c # buf, spare) = [(c # buf, spare)]"
        using False not by (auto split: option.splits messageType.splits)
      ultimately show ?thesis using nf by auto
    qed
  qed
qed (auto simp: fatal_def)


definition tiny_packet :: slice where
  "tiny_packet = (type_byte hasCrcMsg # PutUint32 0, [])"


section \<open>Waking the handler\<close>

text \<open>
  The listener and the handler run at the same time. The listener queues a message under the lock and
  signals afterwards, unless a signal is already waiting; the handler waits for a signal, then takes
  messages one by one until there is none, and waits again. \<open>True\<close> in the second place is that the
  listener is about to signal, in the third that the handler is taking messages.
\<close>

type_synonym handoff_state = "inbound \<times> bool \<times> bool"

inductive own_step :: "handoff_state \<Rightarrow> handoff_state \<Rightarrow> bool" where
  signal: "own_step (ib, True, h) (notify_handler ib, False, h)"
| wake: "ib_handoff ib \<Longrightarrow> own_step (ib, l, False) (ib\<lparr>ib_handoff := False\<rparr>, l, True)"
| handle_next: "getNextMessage ib = Some (msg, ib') \<Longrightarrow> own_step (ib, l, True) (ib', l, True)"
| rest: "getNextMessage ib = None \<Longrightarrow> own_step (ib, l, True) (ib, l, False)"

inductive_cases own_stepE: "own_step s s'"

inductive handoff_reach :: "handoff_state \<Rightarrow> bool" where
  start: "handoff_reach (\<lparr>ib_high = [], ib_low = [], ib_handoff = False, ib_direct = []\<rparr>, False, False)"
| arrival: "handoff_reach (ib, False, h) \<Longrightarrow> handoff_reach (enqueue t buf ib, True, h)"
| own: "handoff_reach s \<Longrightarrow> own_step s s' \<Longrightarrow> handoff_reach s'"

lemma getNextMessage_sel: "getNextMessage ib = Some (msg, ib') \<Longrightarrow> ib_handoff ib' = ib_handoff ib \<and> Suc (pending ib') = pending ib"
  by (auto simp: getNextMessage_def pending_def split: if_splits)

lemma getNextMessage_pending_0: "getNextMessage ib = None \<longleftrightarrow> pending ib = 0"
  by (simp add: getNextMessage_def pending_def)

text \<open>A message waits only if somebody is about to look.\<close>

fun handoff_inv :: "handoff_state \<Rightarrow> bool" where
  "handoff_inv (ib, l, h) \<longleftrightarrow> pending ib = 0 \<or> l \<or> h \<or> ib_handoff ib"

fun handoff_work :: "handoff_state \<Rightarrow> nat" where
  "handoff_work (ib, l, h) = pending ib + (if l then 3 else 0) + (if ib_handoff ib then 2 else 0) + (if h then 1 else 0)"

lemma own_step_inv: "own_step s s' \<Longrightarrow> handoff_inv s \<Longrightarrow> handoff_inv s'"
  by (induction rule: own_step.induct) (auto simp: notify_handler_def getNextMessage_pending_0)

lemma own_step_work: "own_step s s' \<Longrightarrow> handoff_work s' < handoff_work s"
  by (induction rule: own_step.induct) (auto simp: notify_handler_def pending_def dest: getNextMessage_sel)

lemma handoff_reach_inv: "handoff_reach s \<Longrightarrow> handoff_inv s"
  by (induction rule: handoff_reach.induct) (auto simp: pending_def intro: own_step_inv)

lemma own_steps:
  "(own_step ^^ n) s s' \<Longrightarrow> handoff_inv s \<Longrightarrow> handoff_inv s' \<and> n + handoff_work s' \<le> handoff_work s"
proof (induction n arbitrary: s')
  case (Suc n)
  then obtain s1 where s1: "(own_step ^^ n) s s1" "own_step s1 s'" by auto
  have "handoff_inv s1" "n + handoff_work s1 \<le> handoff_work s" using Suc.IH [OF s1(1) Suc.prems(2)] by simp_all
  then show ?case using own_step_inv [OF s1(2)] own_step_work [OF s1(2)] by simp
qed simp

lemma idle_handoff:
  assumes "\<And>s''. \<not> own_step s' s''" and "handoff_inv s'"
  shows "pending (fst s') = 0"
proof (cases s')
  case (fields ib l h)
  have "\<not> l" using assms(1) own_step.signal [of ib h] fields by auto
  moreover have "\<not> h" using assms(1) own_step.handle_next [of ib _ _ l] own_step.rest [of ib l] fields
    by (cases "getNextMessage ib") auto
  moreover have "\<not> ib_handoff ib" using assms(1) own_step.wake [of ib l] fields \<open>\<not> h\<close> by auto
  ultimately show ?thesis using assms(2) fields by simp
qed

text \<open>
  (C35) No message is left behind: however arrivals, signals and the handler interleave, the two
  goroutines can make at most as many steps of their own as there are messages, and six more, before
  the next arrival; and when they can make none, no message is waiting. A signal that is dropped
  because one is waiting already does no harm.
\<close>

theorem handoff_drains:
  assumes "handoff_reach s" and "(own_step ^^ n) s s'"
  shows "n \<le> pending (fst s) + 6 \<and> ((\<forall>s''. \<not> own_step s' s'') \<longrightarrow> pending (fst s') = 0)"
proof -
  have inv: "handoff_inv s'" and "n + handoff_work s' \<le> handoff_work s"
    using own_steps [OF assms(2) handoff_reach_inv [OF assms(1)]] by auto
  moreover have "handoff_work s \<le> pending (fst s) + 6" by (cases s) simp
  ultimately show ?thesis using idle_handoff [of s'] by auto
qed

theorem handoff_drains_witness:
  "\<exists>s s'. handoff_reach s \<and> pending (fst s) = 1 \<and> (own_step ^^ 4) s s' \<and> pending (fst s') = 0"
proof -
  let ?a = "enqueue userMsg ''x'' empty_inbound"
  have r: "handoff_reach (?a, True, False)"
    using handoff_reach.arrival [OF handoff_reach.start] by (simp add: empty_inbound_def)
  let ?n = "notify_handler ?a" and ?w = "(notify_handler ?a)\<lparr>ib_handoff := False\<rparr>"
  let ?e = "?w\<lparr>ib_low := []\<rparr>"
  note sample = notify_handler_def getNextMessage_def enqueue_def empty_inbound_def HandoffQueueDepth_def
  have steps: "own_step (?a, True, False) (?n, False, False)" "own_step (?n, False, False) (?w, False, True)"
    "own_step (?w, False, True) (?e, False, True)" "own_step (?e, False, True) (?e, False, False)"
    by (rule own_step.signal, rule own_step.wake, simp add: notify_handler_def,
        rule own_step.handle_next [where msg = "(userMsg, ''x'')"], simp add: sample, rule own_step.rest, simp add: sample)
  have four: "4 = Suc (Suc (Suc (Suc 0)))" by simp
  have "(own_step ^^ 4) (?a, True, False) (?e, False, False)"
    unfolding four by ((rule relpowp_Suc_I)+, rule relpowp_0_I, (rule steps)+)
  moreover have "\<not> own_step (?e, False, False) s''" for s''
    by (auto elim!: own_stepE simp: notify_handler_def)
  moreover have "pending ?a = 1" by (simp add: pending_def enqueue_def empty_inbound_def HandoffQueueDepth_def)
  ultimately show ?thesis using handoff_drains [OF r, of 4 "(?e, False, False)"] r by fastforce
qed

section \<open>Whom gossip is sent to\<close>

lemma kRandom_loop_props:
  assumes "distinct ks" "set ks \<subseteq> {x \<in> set nodes. \<not> bad x}" "length ks \<le> k" "\<forall>i \<in> set idxs. i < length nodes"
  shows "distinct (kRandom_loop k nodes bad idxs ks) \<and> set (kRandom_loop k nodes bad idxs ks) \<subseteq> {x \<in> set nodes. \<not> bad x}
    \<and> length (kRandom_loop k nodes bad idxs ks) \<le> k"
  using assms by (induction k nodes bad idxs ks rule: kRandom_loop.induct) (auto simp: Let_def)

text \<open>A round goes to at most three different nodes of the list, never to the node itself.\<close>

lemma gossip_targets:
  fixes cfg :: ml_config and clock :: "string \<Rightarrow> time"
  assumes "\<And>i. rnd i < length (ml_nodes m)"
  defines "targets \<equiv> kRandomNodes GossipNodes (ml_nodes m) (not_gossiped_to cfg clock m) rnd"
  shows "distinct targets \<and> set targets \<subseteq> {x \<in> set (ml_nodes m). \<not> not_gossiped_to cfg clock m x}
    \<and> length targets \<le> 3 \<and> mc_Name cfg \<notin> set targets"
proof -
  have "distinct targets \<and> set targets \<subseteq> {x \<in> set (ml_nodes m). \<not> not_gossiped_to cfg clock m x} \<and> length targets \<le> 3"
    using kRandom_loop_props [of "[]" "ml_nodes m" "not_gossiped_to cfg clock m" 3 "map rnd [0..<3 * length (ml_nodes m)]"] assms(1)
    by (simp add: targets_def kRandomNodes_def GossipNodes_def)
  then show ?thesis by (auto simp: not_gossiped_to_def)
qed

end
