(* ===== verification/Lamport.thy ===== *)
theory Lamport
  imports Go_Prelude Go_Word
begin

text \<open>
  \<open>lamport.go\<close>: a logical clock in one 64-bit word with atomic operations. \<open>Witness\<close> loads the
  counter, compares, and retries a compare-and-swap until it succeeds or the counter has passed the
  witnessed value. The threads of a process interleave between the load and the swap; a step
  relation over the counter and the threads' program counters models this.
\<close>

section \<open>Operations\<close>

record LamportClock =
  lc_counter :: "64 word"

definition lc_Time :: "LamportClock \<Rightarrow> 64 word" where
  "lc_Time l = lc_counter l"

definition lc_Increment :: "LamportClock \<Rightarrow> 64 word \<times> LamportClock" where
  "lc_Increment l = (lc_counter l + 1, l\<lparr>lc_counter := lc_counter l + 1\<rparr>)"

text \<open>
  The body of \<open>Witness\<close>: before the load, and between the load and the swap. \<open>witness_load\<close> and
  \<open>witness_swap\<close> are the two atomic instructions.
\<close>

datatype witness_pc = W_load "64 word" | W_swap "64 word" "64 word" | W_done "64 word"

definition witness_load :: "64 word \<Rightarrow> LamportClock \<Rightarrow> witness_pc" where
  "witness_load other l = (let cur = lc_counter l in if other < cur then W_done other else W_swap other cur)"

definition witness_swap :: "64 word \<Rightarrow> 64 word \<Rightarrow> LamportClock \<Rightarrow> witness_pc \<times> LamportClock" where
  "witness_swap other cur l =
     (if lc_counter l = cur then (W_done other, l\<lparr>lc_counter := other + 1\<rparr>) else (W_load other, l))"

text \<open>One instruction of a thread.\<close>

fun witness_step :: "witness_pc \<times> LamportClock \<Rightarrow> witness_pc \<times> LamportClock" where
  "witness_step (W_load v, l) = (witness_load v l, l)"
| "witness_step (W_swap v cur, l) = witness_swap v cur l"
| "witness_step (W_done v, l) = (W_done v, l)"

text \<open>A call that nobody interferes with.\<close>

definition lc_Witness :: "LamportClock \<Rightarrow> 64 word \<Rightarrow> LamportClock" where
  "lc_Witness l v = snd (witness_step (witness_step (W_load v, l)))"

section \<open>Interleaving\<close>

text \<open>
  A process: the clock and the calls in progress or finished. A call may start at any time, a
  running call executes its next instruction, and other threads increment. The two steps that make
  the word wrap around, an increment at its maximum and the witness of the maximum, are excluded
  by the parameter \<open>wraps = False\<close>.
\<close>

type_synonym clock_system = "LamportClock \<times> witness_pc list"

inductive clock_step :: "bool \<Rightarrow> clock_system \<Rightarrow> clock_system \<Rightarrow> bool" for wraps where
  start: "wraps \<or> v < - 1 \<Longrightarrow> clock_step wraps (l, ps) (l, ps @ [W_load v])"
| incr: "wraps \<or> lc_counter l < - 1 \<Longrightarrow> clock_step wraps (l, ps) (snd (lc_Increment l), ps)"
| instr: "i < length ps \<Longrightarrow> witness_step (ps ! i, l) = (p', l') \<Longrightarrow>
    clock_step wraps (l, ps) (l', ps[i := p'])"

inductive clock_steps :: "bool \<Rightarrow> clock_system \<Rightarrow> clock_system \<Rightarrow> bool" for wraps where
  refl: "clock_steps wraps s s"
| step: "clock_steps wraps s s' \<Longrightarrow> clock_step wraps s' s'' \<Longrightarrow> clock_steps wraps s s''"

section \<open>Invariant\<close>

text \<open>What a program counter promises about the clock.\<close>

fun pc_ok :: "64 word \<Rightarrow> witness_pc \<Rightarrow> bool" where
  "pc_ok c (W_load v) \<longleftrightarrow> v < - 1"
| "pc_ok c (W_swap v cur) \<longleftrightarrow> v < - 1 \<and> cur \<le> v \<and> cur \<le> c"
| "pc_ok c (W_done v) \<longleftrightarrow> v < c"

definition clock_inv :: "clock_system \<Rightarrow> bool" where
  "clock_inv s \<longleftrightarrow> list_all (pc_ok (lc_counter (fst s))) (snd s)"

lemma less_plus_one: "(v :: 64 word) < - 1 \<Longrightarrow> v < v + 1"
  by (simp add: word_less_Suc)

lemma pc_ok_mono: "pc_ok c p \<Longrightarrow> c \<le> c' \<Longrightarrow> pc_ok c' p"
  by (cases p) auto

lemma witness_step_ok:
  assumes "pc_ok (lc_counter l) p" and "witness_step (p, l) = (p', l')"
  shows "pc_ok (lc_counter l') p' \<and> lc_counter l \<le> lc_counter l'"
proof (cases p)
  case (W_load v)
  with assms show ?thesis by (auto simp: witness_load_def Let_def not_less split: if_splits)
next
  case (W_swap v cur)
  with assms show ?thesis
    using less_plus_one [of v] by (auto simp: witness_swap_def split: if_splits intro: le_less_trans less_imp_le)
next
  case (W_done v)
  with assms show ?thesis by auto
qed

lemma clock_step_inv:
  assumes "clock_step False s s'" and "clock_inv s"
  shows "clock_inv s' \<and> lc_counter (fst s) \<le> lc_counter (fst s')"
  using assms(1)
proof (cases rule: clock_step.cases)
  case (start v l ps)
  with assms(2) show ?thesis by (simp add: clock_inv_def)
next
  case (incr l ps)
  then have "lc_counter l \<le> lc_counter l + 1" using less_plus_one by (auto intro: less_imp_le)
  with incr assms(2) show ?thesis
    by (auto simp: clock_inv_def lc_Increment_def list_all_iff intro: pc_ok_mono)
next
  case (instr i ps l p' l')
  then have "pc_ok (lc_counter l) (ps ! i)" using assms(2) by (simp add: clock_inv_def list_all_length)
  from witness_step_ok [OF this instr(4)]
  have w: "pc_ok (lc_counter l') p'" "lc_counter l \<le> lc_counter l'" by auto
  then have "\<forall>p \<in> set ps. pc_ok (lc_counter l') p"
    using assms(2) instr(1) by (auto simp: clock_inv_def list_all_iff intro: pc_ok_mono)
  with w have "\<forall>p \<in> set (ps[i := p']). pc_ok (lc_counter l') p"
    by (auto dest!: subsetD [OF set_update_subset_insert])
  with w(2) instr show ?thesis by (simp add: clock_inv_def list_all_iff)
qed

lemma clock_steps_inv:
  "clock_steps False s s' \<Longrightarrow> clock_inv s \<Longrightarrow> clock_inv s' \<and> lc_counter (fst s) \<le> lc_counter (fst s')"
proof (induction rule: clock_steps.induct)
  case (step s s' s'')
  then show ?case using clock_step_inv [of s' s''] by auto
qed simp

section \<open>Claims\<close>

text \<open>
  (C33) However the threads interleave, and as long as the word does not wrap around, the clock
  never goes back, and when a call of \<open>Witness\<close> has returned the clock is ahead of the value it was
  given, although the call may have retried its compare-and-swap.
\<close>

theorem witness_moves_clock_ahead:
  assumes "clock_steps False (l, []) (l', ps)"
  shows "lc_counter l \<le> lc_counter l' \<and> (\<forall>v. W_done v \<in> set ps \<longrightarrow> v < lc_counter l')"
  using clock_steps_inv [OF assms] by (auto simp: clock_inv_def list_all_iff)

theorem witness_moves_clock_ahead_witness:
  "\<exists>l' ps. clock_steps False (\<lparr>lc_counter = 5\<rparr>, []) (l', ps) \<and> W_done 9 \<in> set ps \<and> 9 < lc_counter l'"
proof -
  have 1: "clock_steps False (\<lparr>lc_counter = 5\<rparr>, []) (\<lparr>lc_counter = 5\<rparr>, [W_load 9])"
    using clock_steps.step [OF clock_steps.refl clock_step.start [of False 9 "\<lparr>lc_counter = 5\<rparr>" "[]"]] by simp
  have 2: "clock_step False (\<lparr>lc_counter = 5\<rparr>, [W_load 9]) (\<lparr>lc_counter = 5\<rparr>, [W_swap 9 5])"
    using clock_step.instr [of 0 "[W_load 9]" "\<lparr>lc_counter = 5\<rparr>" "W_swap 9 5" "\<lparr>lc_counter = 5\<rparr>"]
    by (simp add: witness_load_def)
  have 3: "clock_step False (\<lparr>lc_counter = 5\<rparr>, [W_swap 9 5]) (\<lparr>lc_counter = 10\<rparr>, [W_done 9])"
    using clock_step.instr [of 0 "[W_swap 9 5]" "\<lparr>lc_counter = 5\<rparr>" "W_done 9" "\<lparr>lc_counter = 10\<rparr>"]
    by (simp add: witness_swap_def)
  have "clock_steps False (\<lparr>lc_counter = 5\<rparr>, []) (\<lparr>lc_counter = 10\<rparr>, [W_done 9])"
    using 1 2 3 by (blast intro: clock_steps.step)
  with witness_moves_clock_ahead [OF this] show ?thesis by force
qed

text \<open>
  A retry is never in vain: a swap fails only when some other thread has changed the counter
  since the load, and a thread that runs two instructions without interference from its load has
  returned. So some call always makes progress and a single call alone returns after one load and
  at most one swap.
\<close>

lemma witness_lock_free:
  "(\<forall>v cur l p' l'. witness_step (W_swap v cur, l) = (p', l') \<and> p' \<noteq> W_done v \<longrightarrow> lc_counter l \<noteq> cur)
   \<and> (\<forall>v l. \<exists>l'. witness_step (witness_step (W_load v, l)) = (W_done v, l')
        \<and> l' = (if v < lc_counter l then l else l\<lparr>lc_counter := v + 1\<rparr>))"
  by (auto simp: witness_swap_def witness_load_def Let_def)

text \<open>
  The largest value is not survived: witnessing it resets the clock to zero, and so does an
  increment of a clock that shows it.
\<close>

lemma witness_max_resets:
  "lc_Time (lc_Witness l (- 1)) = 0 \<and> (lc_counter l = - 1 \<longrightarrow> lc_Time (snd (lc_Increment l)) = 0)"
proof -
  have "\<not> (- 1 :: 64 word) < lc_counter l" by (simp add: word_order.extremum_strict)
  then show ?thesis
    by (simp add: lc_Witness_def witness_load_def witness_swap_def lc_Time_def lc_Increment_def)
qed

end
