(* ===== verification/Lru.thy ===== *)
theory Lru
  imports Go_Strings
begin

text \<open>
  \<open>lru.go\<close>: a cache with a map into a doubly linked list of nodes, most recently used first. The
  nodes live in an explicit heap because the list operations alias them: several pointers lead to
  one node and an assignment through one of them is seen through all. An address is a natural
  number, \<open>None\<close> is the nil pointer, and following it panics. The mutex makes every operation one
  atomic step.
\<close>

section \<open>Nodes and pointers\<close>

record lnode =
  n_key :: string
  n_value :: string
  n_prev :: "nat option"
  n_next :: "nat option"

record LRUCache =
  lr_mp :: "(string, nat) gomap"
  lr_cap :: int
  lr_head :: "nat option"
  lr_tail :: "nat option"
  lr_heap :: "nat \<Rightarrow> lnode"
  lr_fresh :: nat

type_synonym heap = "nat \<Rightarrow> lnode"

definition h_next :: "nat \<Rightarrow> nat option \<Rightarrow> heap \<Rightarrow> heap" where
  "h_next a p h = h(a := (h a)\<lparr>n_next := p\<rparr>)"

definition h_prev :: "nat \<Rightarrow> nat option \<Rightarrow> heap \<Rightarrow> heap" where
  "h_prev a p h = h(a := (h a)\<lparr>n_prev := p\<rparr>)"

text \<open>The assignments \<open>p.next = q\<close> and \<open>p.prev = q\<close>.\<close>

definition set_next :: "nat option \<Rightarrow> nat option \<Rightarrow> LRUCache \<Rightarrow> LRUCache go" where
  "set_next p q c = (case p of None \<Rightarrow> Panic NilDereference | Some a \<Rightarrow> Ret (c\<lparr>lr_heap := h_next a q (lr_heap c)\<rparr>))"

definition set_prev :: "nat option \<Rightarrow> nat option \<Rightarrow> LRUCache \<Rightarrow> LRUCache go" where
  "set_prev p q c = (case p of None \<Rightarrow> Panic NilDereference | Some a \<Rightarrow> Ret (c\<lparr>lr_heap := h_prev a q (lr_heap c)\<rparr>))"

text \<open>\<open>&node{key:key, value:value}\<close>\<close>

definition new_node :: "string \<Rightarrow> string \<Rightarrow> LRUCache \<Rightarrow> nat \<times> LRUCache" where
  "new_node key val c =
     (lr_fresh c,
      c\<lparr>lr_heap := (lr_heap c)(lr_fresh c := \<lparr>n_key = key, n_value = val, n_prev = None, n_next = None\<rparr>),
        lr_fresh := Suc (lr_fresh c)\<rparr>)"

section \<open>Operations\<close>

definition NewLRUCache :: "int \<Rightarrow> LRUCache" where
  "NewLRUCache cap =
     \<lparr>lr_mp = make_map, lr_cap = cap, lr_head = None, lr_tail = None,
      lr_heap = (\<lambda>_. \<lparr>n_key = '''', n_value = '''', n_prev = None, n_next = None\<rparr>), lr_fresh = 0\<rparr>"

text \<open>The three branches of the removal, and the insertion at the head that \<open>Put\<close> shares.\<close>

definition lru_unlink :: "nat \<Rightarrow> LRUCache \<Rightarrow> LRUCache go" where
  "lru_unlink node c =
     (if lr_head c = Some node then Ret c
      else if lr_tail c = Some node
      then let c1 = c\<lparr>lr_tail := n_prev (lr_heap c node)\<rparr> in set_next (lr_tail c1) None c1
      else go_bind (set_next (n_prev (lr_heap c node)) (n_next (lr_heap c node)) c) (\<lambda>c1.
           go_bind (set_prev (n_next (lr_heap c1 node)) (n_prev (lr_heap c1 node)) c1) (\<lambda>c2.
           Ret (c2\<lparr>lr_heap := h_next node None (h_prev node None (lr_heap c2))\<rparr>))))"

definition insert_at_head :: "nat \<Rightarrow> LRUCache \<Rightarrow> LRUCache go" where
  "insert_at_head node c =
     (let c1 = c\<lparr>lr_heap := h_next node (lr_head c) (lr_heap c)\<rparr>
      in go_bind (set_prev (lr_head c1) (Some node) c1) (\<lambda>c2. Ret (c2\<lparr>lr_head := Some node\<rparr>)))"

definition removeAndInsert :: "nat \<Rightarrow> LRUCache \<Rightarrow> LRUCache go" where
  "removeAndInsert node c = go_bind (lru_unlink node c) (insert_at_head node)"

definition lru_Get :: "string \<Rightarrow> LRUCache \<Rightarrow> (string option \<times> LRUCache) go" where
  "lru_Get key c =
     (case map_get (lr_mp c) key of
        None \<Rightarrow> Ret (None, c)
      | Some node \<Rightarrow> go_bind (removeAndInsert node c) (\<lambda>c'. Ret (Some (n_value (lr_heap c node)), c')))"

definition delTail :: "LRUCache \<Rightarrow> LRUCache go" where
  "delTail c =
     (case lr_tail c of
        None \<Rightarrow> Panic NilDereference
      | Some t \<Rightarrow>
          let c1 = c\<lparr>lr_mp := map_delete (lr_mp c) (n_key (lr_heap c t)), lr_tail := n_prev (lr_heap c t)\<rparr>
          in set_next (lr_tail c1) None c1)"

definition lru_Put :: "string \<Rightarrow> string \<Rightarrow> LRUCache \<Rightarrow> LRUCache go" where
  "lru_Put key val c =
     (if lr_head c = None
      then let (n, c1) = new_node key val c
           in go_bind (map_set (lr_mp c1) key n) (\<lambda>m.
              Ret (c1\<lparr>lr_mp := m, lr_head := Some n, lr_tail := Some n\<rparr>))
      else case map_get (lr_mp c) key of
        Some n \<Rightarrow> removeAndInsert n (c\<lparr>lr_heap := (lr_heap c)(n := (lr_heap c n)\<lparr>n_value := val\<rparr>)\<rparr>)
      | None \<Rightarrow>
          let (n, c1) = new_node key val c
          in go_bind (if int (map_len (lr_mp c1)) \<ge> lr_cap c1 then delTail c1 else Ret c1) (\<lambda>c2.
             go_bind (map_set (lr_mp c2) key n) (\<lambda>m. insert_at_head n (c2\<lparr>lr_mp := m\<rparr>))))"

section \<open>Specification\<close>

text \<open>A least-recently-used cache as a list of pairs, most recent first.\<close>

type_synonym contents = "(string \<times> string) list"

definition without :: "string \<Rightarrow> contents \<Rightarrow> contents" where
  "without key l = filter (\<lambda>p. fst p \<noteq> key) l"

definition spec_Get :: "string \<Rightarrow> contents \<Rightarrow> string option \<times> contents" where
  "spec_Get key l = (case map_of l key of None \<Rightarrow> (None, l) | Some v \<Rightarrow> (Some v, (key, v) # without key l))"

definition spec_Put :: "int \<Rightarrow> string \<Rightarrow> string \<Rightarrow> contents \<Rightarrow> contents" where
  "spec_Put cap key val l =
     (if map_of l key \<noteq> None then (key, val) # without key l
      else if int (length l) \<ge> cap then (key, val) # butlast l
      else (key, val) # l)"

datatype lru_op = LPut string string | LGet string

fun op_key :: "lru_op \<Rightarrow> string" where
  "op_key (LPut k _) = k"
| "op_key (LGet k) = k"

fun lru_do :: "lru_op \<Rightarrow> LRUCache \<Rightarrow> (string option \<times> LRUCache) go" where
  "lru_do (LPut k v) c = go_bind (lru_Put k v c) (\<lambda>c'. Ret (None, c'))"
| "lru_do (LGet k) c = lru_Get k c"

fun spec_do :: "int \<Rightarrow> lru_op \<Rightarrow> contents \<Rightarrow> string option \<times> contents" where
  "spec_do cap (LPut k v) l = (None, spec_Put cap k v l)"
| "spec_do cap (LGet k) l = spec_Get k l"

fun lru_run :: "lru_op list \<Rightarrow> LRUCache \<Rightarrow> (string option list \<times> LRUCache) go" where
  "lru_run [] c = Ret ([], c)"
| "lru_run (x # xs) c = go_bind (lru_do x c) (\<lambda>(r, c1). go_bind (lru_run xs c1) (\<lambda>(rs, c2). Ret (r # rs, c2)))"

definition lru_results :: "lru_op list \<Rightarrow> LRUCache \<Rightarrow> string option list go" where
  "lru_results xs c = go_bind (lru_run xs c) (\<lambda>(rs, _). Ret rs)"

fun spec_run :: "int \<Rightarrow> lru_op list \<Rightarrow> contents \<Rightarrow> string option list \<times> contents" where
  "spec_run cap [] l = ([], l)"
| "spec_run cap (x # xs) l =
     (let (r, l1) = spec_do cap x l; (rs, l2) = spec_run cap xs l1 in (r # rs, l2))"

text \<open>
  The exercise at the end of the file. \<open>log.Fatal\<close> ends the process with whatever
  \<open>ListenAndServe\<close> returns (\<open>Inl\<close>), so that the operations on the cache that follow it are never
  reached; \<open>test_goroutine\<close> is the sequence they would be.
\<close>

definition ArticlesCategoryHandler :: "(string \<rightharpoonup> string) \<Rightarrow> int \<times> string" where
  "ArticlesCategoryHandler vars =
     (200, ''Category: '' @ (case vars ''key'' of None \<Rightarrow> [] | Some v \<Rightarrow> v) @ nl)"

definition test_goroutine :: "int \<Rightarrow> lru_op list" where
  "test_goroutine i =
     [LPut (FormatInt i) (FormatInt i), LGet (FormatInt (i64 (i + 2))),
      LPut (FormatInt (i64 (i + 1))) (FormatInt (i64 (i + 1))),
      LPut (FormatInt (i64 (i + 2))) (FormatInt (i64 (i + 2))), LGet (FormatInt (i64 (i + 2))),
      LPut (FormatInt (i64 (i + 3))) (FormatInt (i64 (i + 3))), LGet (FormatInt (i64 (i + 2)))]"

definition lru_test :: "(string \<Rightarrow> gerror) \<Rightarrow> gerror + string option list go" where
  "lru_test listen = Inl (listen ''127.0.0.1:8000'')"

text \<open>No operation is on the key that is the most recent one at that time.\<close>

definition spares_head :: "lru_op \<Rightarrow> contents \<Rightarrow> bool" where
  "spares_head x l \<longleftrightarrow> (case l of [] \<Rightarrow> True | p # _ \<Rightarrow> fst p \<noteq> op_key x)"

fun all_spare_head :: "int \<Rightarrow> lru_op list \<Rightarrow> contents \<Rightarrow> bool" where
  "all_spare_head cap [] l \<longleftrightarrow> True"
| "all_spare_head cap (x # xs) l \<longleftrightarrow> spares_head x l \<and> all_spare_head cap xs (snd (spec_do cap x l))"

section \<open>Linked lists in the heap\<close>

text \<open>\<open>seg\<close>: consecutive nodes point to each other; the first \<open>prev\<close> and the last \<open>next\<close> are free.\<close>

fun seg :: "heap \<Rightarrow> nat list \<Rightarrow> bool" where
  "seg h (x # y # zs) \<longleftrightarrow> n_next (h x) = Some y \<and> n_prev (h y) = Some x \<and> seg h (y # zs)"
| "seg h _ \<longleftrightarrow> True"

definition linked :: "heap \<Rightarrow> nat list \<Rightarrow> bool" where
  "linked h xs \<longleftrightarrow> seg h xs \<and> (xs \<noteq> [] \<longrightarrow> n_next (h (last xs)) = None)"

lemma seg_append:
  "seg h (xs @ ys) \<longleftrightarrow> seg h xs \<and> seg h ys
     \<and> (xs \<noteq> [] \<and> ys \<noteq> [] \<longrightarrow> n_next (h (last xs)) = Some (hd ys) \<and> n_prev (h (hd ys)) = Some (last xs))"
proof (induction xs)
  case (Cons x xs)
  then show ?case by (cases xs; cases ys) auto
qed simp

lemma seg_cong:
  "\<forall>a \<in> set (butlast xs). n_next (h' a) = n_next (h a) \<Longrightarrow>
   \<forall>a \<in> set (tl xs). n_prev (h' a) = n_prev (h a) \<Longrightarrow> seg h' xs = seg h xs"
  by (induction h xs rule: seg.induct) auto

lemma h_fields [simp]:
  "n_key (h_next a p h b) = n_key (h b)" "n_value (h_next a p h b) = n_value (h b)"
  "n_key (h_prev a p h b) = n_key (h b)" "n_value (h_prev a p h b) = n_value (h b)"
  "n_prev (h_next a p h b) = n_prev (h b)" "n_next (h_prev a p h b) = n_next (h b)"
  "n_next (h_next a p h b) = (if b = a then p else n_next (h b))"
  "n_prev (h_prev a p h b) = (if b = a then p else n_prev (h b))"
  by (simp_all add: h_next_def h_prev_def)

lemma last_notin_butlast: "distinct xs \<Longrightarrow> xs \<noteq> [] \<Longrightarrow> last xs \<notin> set (butlast xs)"
  by (metis append_butlast_last_id distinct_butlast not_distinct_conv_prefix)

lemma hd_notin_tl: "distinct xs \<Longrightarrow> xs \<noteq> [] \<Longrightarrow> hd xs \<notin> set (tl xs)"
  by (cases xs) auto

text \<open>Writes at the free ends of a segment and outside of it do not matter.\<close>

lemma seg_h_next [simp]: "a \<notin> set (butlast xs) \<Longrightarrow> seg (h_next a p h) xs = seg h xs"
  by (rule seg_cong) auto

lemma seg_h_prev [simp]: "a \<notin> set (tl xs) \<Longrightarrow> seg (h_prev a p h) xs = seg h xs"
  by (rule seg_cong) auto

lemma linked_cons:
  assumes "linked h xs" and "xs \<noteq> []" and "a \<notin> set xs" and "distinct xs"
  shows "linked (h_prev (hd xs) (Some a) (h_next a (Some (hd xs)) h)) (a # xs)"
proof -
  from \<open>xs \<noteq> []\<close> obtain y ys where xs: "xs = y # ys" by (cases xs) auto
  have "a \<notin> set (butlast (y # ys))" using assms(3) xs by (auto dest: in_set_butlastD)
  then show ?thesis using assms xs by (auto simp: linked_def)
qed

lemma linked_drop_last:
  assumes "linked h (xs @ [a])" and "xs \<noteq> []" and "distinct (xs @ [a])"
  shows "n_prev (h a) = Some (last xs) \<and> linked (h_next (last xs) None h) xs"
  using assms last_notin_butlast [of xs] by (auto simp: linked_def seg_append)

lemma linked_drop_mid:
  assumes "linked h (us @ a # vs)" and "us \<noteq> []" and "vs \<noteq> []" and "distinct (us @ a # vs)"
  shows "n_prev (h a) = Some (last us) \<and> n_next (h a) = Some (hd vs)
    \<and> linked (h_prev (hd vs) (Some (last us)) (h_next (last us) (Some (hd vs)) h)) (us @ vs)"
proof -
  have d: "distinct us" "distinct vs" "set us \<inter> set vs = {}" using assms(4) by auto
  have m: "last us \<in> set us" "hd vs \<in> set vs" "last vs \<in> set vs" using assms(2,3) by auto
  have n: "last us \<notin> set (butlast us)" "hd vs \<notin> set (tl vs)" "last us \<notin> set vs" "hd vs \<notin> set us"
    using last_notin_butlast [OF d(1) assms(2)] hd_notin_tl [OF d(2) assms(3)] d(3) m by blast+
  then have "last us \<notin> set (butlast vs)" "hd vs \<notin> set (tl us)" "last vs \<noteq> last us"
    using m by (auto dest: in_set_butlastD list.set_sel(2) [OF assms(2)])
  moreover obtain w ws where "vs = w # ws" using assms(3) by (cases vs) auto
  ultimately show ?thesis
    using assms n by (auto simp: linked_def seg_append)
qed

lemma linked_outside:
  "linked h xs \<Longrightarrow> a \<notin> set xs \<Longrightarrow> linked (h_next a p h) xs \<and> linked (h_prev a p h) xs"
proof -
  assume a: "linked h xs" "a \<notin> set xs"
  then have "a \<notin> set (butlast xs)" "a \<notin> set (tl xs)"
    by (auto dest: in_set_butlastD) (metis list.sel(2) list.set_sel(2))
  moreover have "xs \<noteq> [] \<Longrightarrow> last xs \<noteq> a" using a(2) by auto
  ultimately show ?thesis using a by (auto simp: linked_def)
qed

section \<open>Representation\<close>

definition shows_keys :: "(string, nat) gomap \<Rightarrow> heap \<Rightarrow> nat list \<Rightarrow> bool" where
  "shows_keys m h xs \<longleftrightarrow> map_alive m \<and> (\<forall>k a. map_get m k = Some a \<longleftrightarrow> a \<in> set xs \<and> n_key (h a) = k)"

definition lru_rep :: "LRUCache \<Rightarrow> nat list \<Rightarrow> bool" where
  "lru_rep c xs \<longleftrightarrow>
     distinct xs \<and> linked (lr_heap c) xs \<and> (\<forall>a \<in> set xs. a < lr_fresh c)
     \<and> lr_head c = (if xs = [] then None else Some (hd xs))
     \<and> lr_tail c = (if xs = [] then None else Some (last xs))
     \<and> shows_keys (lr_mp c) (lr_heap c) xs"

definition lru_abs :: "LRUCache \<Rightarrow> nat list \<Rightarrow> contents" where
  "lru_abs c xs = map (\<lambda>a. (n_key (lr_heap c a), n_value (lr_heap c a))) xs"

lemma shows_keys_inj: "shows_keys m h xs \<Longrightarrow> inj_on (\<lambda>a. n_key (h a)) (set xs)"
  by (rule inj_onI) (metis option.inject shows_keys_def)

lemma rep_len: "lru_rep c xs \<Longrightarrow> map_len (lr_mp c) = length xs"
proof -
  assume r: "lru_rep c xs"
  then have "dom (map_get (lr_mp c)) = (\<lambda>a. n_key (lr_heap c a)) ` set xs"
    by (auto simp: lru_rep_def shows_keys_def dom_def)
  then show ?thesis
    using r shows_keys_inj [of "lr_mp c" "lr_heap c" xs]
    by (simp add: lru_rep_def map_len_dom shows_keys_def card_image distinct_card)
qed

lemma rep_lookup:
  assumes "lru_rep c xs"
  shows "map_of (lru_abs c xs) k = map_option (\<lambda>a. n_value (lr_heap c a)) (map_get (lr_mp c) k)"
proof -
  have s: "shows_keys (lr_mp c) (lr_heap c) xs" using assms by (simp add: lru_rep_def)
  have d: "distinct (map fst (lru_abs c xs))"
    using shows_keys_inj [OF s] assms by (simp add: lru_abs_def lru_rep_def distinct_map comp_def)
  show ?thesis
  proof (cases "map_get (lr_mp c) k")
    case None
    then have "\<not> (a \<in> set xs \<and> n_key (lr_heap c a) = k)" for a
      using s by (metis option.distinct(1) shows_keys_def)
    then have "k \<notin> fst ` set (lru_abs c xs)" unfolding lru_abs_def by (simp add: image_iff) blast
    with None show ?thesis by (simp add: map_of_eq_None_iff)
  next
    case (Some a)
    then have "(k, n_value (lr_heap c a)) \<in> set (lru_abs c xs)" using s by (auto simp: lru_abs_def shows_keys_def)
    with Some d show ?thesis by simp
  qed
qed

lemma rep_without:
  assumes "lru_rep c (us @ a # vs)"
  shows "without (n_key (lr_heap c a)) (lru_abs c (us @ a # vs)) = lru_abs c (us @ vs)"
proof -
  have "inj_on (\<lambda>a. n_key (lr_heap c a)) (set (us @ a # vs))"
    using assms unfolding lru_rep_def by (blast intro: shows_keys_inj)
  moreover have "distinct (us @ a # vs)" using assms by (simp add: lru_rep_def)
  ultimately have "\<forall>b \<in> set (us @ vs). n_key (lr_heap c b) \<noteq> n_key (lr_heap c a)"
    by (auto simp: inj_on_def)
  then show ?thesis by (auto simp: without_def lru_abs_def filter_map comp_def intro!: filter_True)
qed

lemma abs_Cons: "lru_abs c (a # xs) = (n_key (lr_heap c a), n_value (lr_heap c a)) # lru_abs c xs"
  by (simp add: lru_abs_def)

section \<open>Operations on represented caches\<close>

text \<open>What the list operations leave alone: the map, the capacity and the data of the nodes.\<close>

definition same_data :: "LRUCache \<Rightarrow> LRUCache \<Rightarrow> bool" where
  "same_data c c' \<longleftrightarrow>
     lr_mp c' = lr_mp c \<and> lr_cap c' = lr_cap c \<and> lr_fresh c' = lr_fresh c
     \<and> (\<forall>a. n_key (lr_heap c' a) = n_key (lr_heap c a) \<and> n_value (lr_heap c' a) = n_value (lr_heap c a))"

lemma same_data_trans: "same_data c c' \<Longrightarrow> same_data c' c'' \<Longrightarrow> same_data c c''"
  by (simp add: same_data_def)

lemma same_data_abs: "same_data c c' \<Longrightarrow> lru_abs c' xs = lru_abs c xs"
  by (simp add: same_data_def lru_abs_def)

text \<open>The part of the representation that the list operations change.\<close>

definition list_rep :: "LRUCache \<Rightarrow> nat list \<Rightarrow> bool" where
  "list_rep c xs \<longleftrightarrow>
     distinct xs \<and> linked (lr_heap c) xs \<and> xs \<noteq> [] \<and> lr_head c = Some (hd xs) \<and> lr_tail c = Some (last xs)"

lemma rep_list: "lru_rep c xs \<Longrightarrow> xs \<noteq> [] \<Longrightarrow> list_rep c xs"
  by (simp add: lru_rep_def list_rep_def)

lemma list_rep_rep:
  assumes "list_rep c' ys" and "same_data c c'" and "lru_rep c xs" and "set ys = set xs"
  shows "lru_rep c' ys"
  using assms by (auto simp: lru_rep_def list_rep_def same_data_def shows_keys_def)

lemma insert_at_head_rep:
  assumes "list_rep c xs" and "a \<notin> set xs"
  shows "\<exists>c'. insert_at_head a c = Ret c' \<and> list_rep c' (a # xs) \<and> same_data c c'"
  using assms linked_cons [of "lr_heap c" xs a]
  by (auto simp: insert_at_head_def list_rep_def set_prev_def same_data_def)

lemma lru_unlink_rep:
  assumes "list_rep c (us @ a # vs)" and "us \<noteq> []"
  shows "\<exists>c'. lru_unlink a c = Ret c' \<and> list_rep c' (us @ vs) \<and> same_data c c'"
proof -
  have d: "distinct (us @ a # vs)" and l: "linked (lr_heap c) (us @ a # vs)"
    using assms(1) by (auto simp: list_rep_def)
  have hd: "lr_head c \<noteq> Some a" and d2: "distinct (us @ vs)"
    using assms d by (auto simp: list_rep_def)
  show ?thesis
  proof (cases "vs = []")
    case True
    with linked_drop_last [of "lr_heap c" us a] l d assms(2) have
      "n_prev (lr_heap c a) = Some (last us)" "linked (h_next (last us) None (lr_heap c)) us" by auto
    with True assms hd d2 show ?thesis
      by (auto simp: lru_unlink_def list_rep_def set_next_def same_data_def)
  next
    case False
    have n: "last us \<noteq> a" "hd vs \<noteq> a" "lr_tail c \<noteq> Some a" "a \<notin> set (us @ vs)"
      using assms d False by (auto simp: list_rep_def dest: last_in_set hd_in_set)
    note m = linked_drop_mid [OF l assms(2) False d]
    with n(4) have "linked (h_next a None (h_prev a None
        (h_prev (hd vs) (Some (last us)) (h_next (last us) (Some (hd vs)) (lr_heap c))))) (us @ vs)"
      using linked_outside by blast
    with m n hd assms d2 False show ?thesis
      by (auto simp: lru_unlink_def list_rep_def set_next_def set_prev_def same_data_def)
  qed
qed

lemma removeAndInsert_rep:
  assumes "lru_rep c (us @ a # vs)" and "us \<noteq> []"
  shows "\<exists>c'. removeAndInsert a c = Ret c' \<and> lru_rep c' (a # us @ vs) \<and> same_data c c'"
proof -
  from rep_list [OF assms(1)] have r: "list_rep c (us @ a # vs)" by simp
  from lru_unlink_rep [OF r assms(2)] obtain c1 where
    1: "lru_unlink a c = Ret c1" "list_rep c1 (us @ vs)" "same_data c c1" by blast
  have "a \<notin> set (us @ vs)" using r by (auto simp: list_rep_def)
  from insert_at_head_rep [OF 1(2) this] obtain c2 where
    2: "insert_at_head a c1 = Ret c2" "list_rep c2 (a # us @ vs)" "same_data c1 c2" by blast
  have "lru_rep c2 (a # us @ vs)"
    using list_rep_rep [OF 2(2) same_data_trans [OF 1(3) 2(3)] assms(1)] by auto
  with 1 2 show ?thesis by (auto simp: removeAndInsert_def intro: same_data_trans)
qed

lemma spared_position:
  assumes "lru_rep c xs" and "map_get (lr_mp c) (op_key x) = Some a" and "spares_head x (lru_abs c xs)"
  shows "\<exists>us vs. xs = us @ a # vs \<and> us \<noteq> [] \<and> n_key (lr_heap c a) = op_key x"
proof -
  have a: "a \<in> set xs" "n_key (lr_heap c a) = op_key x"
    using assms(1,2) by (auto simp: lru_rep_def shows_keys_def)
  then obtain us vs where "xs = us @ a # vs" by (meson split_list)
  moreover from this have "us \<noteq> []"
    using a(2) assms(3) by (auto simp: spares_head_def lru_abs_def)
  ultimately show ?thesis using a(2) by blast
qed

lemma Get_refines:
  assumes "lru_rep c xs" and "spares_head (LGet k) (lru_abs c xs)"
  shows "\<exists>c' ys. lru_Get k c = Ret (fst (spec_Get k (lru_abs c xs)), c') \<and> lru_rep c' ys
     \<and> lru_abs c' ys = snd (spec_Get k (lru_abs c xs)) \<and> lr_cap c' = lr_cap c"
proof (cases "map_get (lr_mp c) k")
  case None
  with assms show ?thesis by (auto simp: lru_Get_def spec_Get_def rep_lookup)
next
  case (Some a)
  with spared_position [OF assms(1) _ assms(2)] obtain us vs where
    p: "xs = us @ a # vs" "us \<noteq> []" "n_key (lr_heap c a) = k" by auto
  with removeAndInsert_rep [of c us a vs] assms(1) obtain c' where
    c': "removeAndInsert a c = Ret c'" "lru_rep c' (a # us @ vs)" "same_data c c'" by blast
  have "lru_abs c' (a # us @ vs) = (k, n_value (lr_heap c a)) # without k (lru_abs c xs)"
    using rep_without [of c us a vs] assms(1) p same_data_abs [OF c'(3)] c'(3) by (simp add: abs_Cons same_data_def)
  with Some c' assms(1) show ?thesis
    by (auto simp: lru_Get_def spec_Get_def rep_lookup same_data_def)
qed

text \<open>A store into the value of a node changes one pair.\<close>

lemma store_value_rep:
  assumes "lru_rep c xs"
  shows "lru_rep (c\<lparr>lr_heap := (lr_heap c)(a := (lr_heap c a)\<lparr>n_value := v\<rparr>)\<rparr>) xs"
proof -
  have "seg ((lr_heap c)(a := (lr_heap c a)\<lparr>n_value := v\<rparr>)) xs = seg (lr_heap c) xs"
    by (rule seg_cong) auto
  with assms show ?thesis by (auto simp: lru_rep_def linked_def shows_keys_def)
qed

lemma Put_hit_refines:
  assumes "lru_rep c xs" and "spares_head (LPut k v) (lru_abs c xs)" and "map_get (lr_mp c) k = Some a"
  shows "\<exists>c' ys. lru_Put k v c = Ret c' \<and> lru_rep c' ys
     \<and> lru_abs c' ys = (k, v) # without k (lru_abs c xs) \<and> lr_cap c' = lr_cap c"
proof -
  let ?c = "c\<lparr>lr_heap := (lr_heap c)(a := (lr_heap c a)\<lparr>n_value := v\<rparr>)\<rparr>"
  from spared_position [OF assms(1) _ assms(2)] assms(3) obtain us vs where
    p: "xs = us @ a # vs" "us \<noteq> []" "n_key (lr_heap c a) = k" by auto
  have "lru_rep ?c (us @ a # vs)" using store_value_rep [OF assms(1)] p by simp
  from removeAndInsert_rep [OF this p(2)] obtain c' where
    c': "removeAndInsert a ?c = Ret c'" "lru_rep c' (a # us @ vs)" "same_data ?c c'" by blast
  have "a \<notin> set (us @ vs)" using assms(1) p by (auto simp: lru_rep_def)
  then have "lru_abs ?c (us @ vs) = lru_abs c (us @ vs)" by (auto simp: lru_abs_def)
  then have "lru_abs c' (a # us @ vs) = (k, v) # without k (lru_abs c xs)"
    using rep_without [of c us a vs] assms(1) p same_data_abs [OF c'(3)] c'(3) by (simp add: abs_Cons same_data_def)
  moreover have "lr_head c \<noteq> None" using assms(1) p by (simp add: lru_rep_def)
  ultimately show ?thesis using c' assms(3) by (auto simp: lru_Put_def same_data_def)
qed

text \<open>A new node is outside of the list.\<close>

lemma linked_fresh:
  assumes "linked h xs" and "a \<notin> set xs"
  shows "linked (h(a := n)) xs"
proof -
  have "\<forall>b \<in> set xs. (h(a := n)) b = h b" using assms(2) by auto
  then have "seg (h(a := n)) xs = seg h xs" "xs \<noteq> [] \<Longrightarrow> (h(a := n)) (last xs) = h (last xs)"
    by (auto intro!: seg_cong dest: in_set_butlastD simp: last_in_set)
      (metis assms(2) list.sel(2) list.set_sel(2))+
  with assms(1) show ?thesis by (simp add: linked_def)
qed

lemma new_node_rep:
  assumes "lru_rep c xs" and "new_node k v c = (n, c1)"
  shows "n \<notin> set xs \<and> lru_rep c1 xs \<and> lru_abs c1 xs = lru_abs c xs \<and> lr_mp c1 = lr_mp c \<and> lr_cap c1 = lr_cap c
    \<and> n < lr_fresh c1 \<and> n_key (lr_heap c1 n) = k \<and> n_value (lr_heap c1 n) = v"
proof -
  have n: "n = lr_fresh c" "n \<notin> set xs" using assms by (auto simp: new_node_def lru_rep_def)
  then have *: "\<forall>b \<in> set xs. b \<noteq> lr_fresh c" by auto
  have "linked (lr_heap c1) xs" and "shows_keys (lr_mp c1) (lr_heap c1) xs"
    using assms n * linked_fresh [of "lr_heap c" xs n]
    by (auto simp: new_node_def lru_rep_def shows_keys_def)
  then show ?thesis
    using assms n * by (auto simp: new_node_def lru_rep_def lru_abs_def less_Suc_eq)
qed

lemma delTail_rep:
  assumes "lru_rep c (xs @ [a])" and "xs \<noteq> []"
  shows "\<exists>c'. delTail c = Ret c' \<and> lru_rep c' xs \<and> lru_abs c' xs = lru_abs c xs \<and> lr_cap c' = lr_cap c
    \<and> lr_fresh c' = lr_fresh c \<and> (\<forall>b. n_key (lr_heap c' b) = n_key (lr_heap c b) \<and> n_value (lr_heap c' b) = n_value (lr_heap c b))"
proof -
  let ?h = "h_next (last xs) None (lr_heap c)" and ?m = "map_delete (lr_mp c) (n_key (lr_heap c a))"
  have d: "distinct (xs @ [a])" and l: "linked (lr_heap c) (xs @ [a])" and s: "shows_keys (lr_mp c) (lr_heap c) (xs @ [a])"
    using assms(1) by (auto simp: lru_rep_def)
  note t = linked_drop_last [OF l assms(2) d]
  have "shows_keys ?m ?h xs"
    using s d shows_keys_inj [OF s] by (auto simp: shows_keys_def inj_on_def split: if_splits)
  with t d assms show ?thesis
    by (auto simp: delTail_def lru_rep_def set_next_def lru_abs_def)
qed

text \<open>Linking a node that is in the heap but not in the list, under a key the map does not have.\<close>

lemma link_new_rep:
  assumes "lru_rep c xs" and "xs \<noteq> []" and "n \<notin> set xs" and "n < lr_fresh c"
    and "n_key (lr_heap c n) = k" and "map_get (lr_mp c) k = None"
  shows "\<exists>m c'. map_set (lr_mp c) k n = Ret m \<and> insert_at_head n (c\<lparr>lr_mp := m\<rparr>) = Ret c'
    \<and> lru_rep c' (n # xs) \<and> lru_abs c' (n # xs) = (k, n_value (lr_heap c n)) # lru_abs c xs \<and> lr_cap c' = lr_cap c"
proof -
  have s: "shows_keys (lr_mp c) (lr_heap c) xs" using assms(1) by (simp add: lru_rep_def)
  then have "map_alive (lr_mp c)" by (simp add: shows_keys_def)
  from map_set_alive [OF this, of k n] obtain m where
    m: "map_set (lr_mp c) k n = Ret m" "map_alive m" "map_get m = (map_get (lr_mp c))(k \<mapsto> n)" by blast
  have "list_rep (c\<lparr>lr_mp := m\<rparr>) xs" using assms(1,2) by (simp add: list_rep_def lru_rep_def)
  from insert_at_head_rep [OF this assms(3)] obtain c' where
    c': "insert_at_head n (c\<lparr>lr_mp := m\<rparr>) = Ret c'" "list_rep c' (n # xs)" "same_data (c\<lparr>lr_mp := m\<rparr>) c'" by blast
  have "a \<in> set xs \<Longrightarrow> n_key (lr_heap c a) \<noteq> k" for a
    using s assms(6) by (metis option.distinct(1) shows_keys_def)
  then have "shows_keys m (lr_heap c) (n # xs)" using s m assms(5) by (auto simp: shows_keys_def)
  then have "lru_rep c' (n # xs)"
    using c' assms by (auto simp: lru_rep_def list_rep_def same_data_def shows_keys_def)
  moreover have "lru_abs c' (n # xs) = lru_abs c (n # xs)" "lr_cap c' = lr_cap c"
    using c'(3) by (simp_all add: same_data_def lru_abs_def)
  ultimately show ?thesis using m c' assms(5) by (auto simp: abs_Cons)
qed

lemma Put_first_refines:
  assumes "lru_rep c []"
  shows "\<exists>c'. lru_Put k v c = Ret c' \<and> lru_rep c' [lr_fresh c] \<and> lru_abs c' [lr_fresh c] = [(k, v)] \<and> lr_cap c' = lr_cap c"
proof -
  have a: "map_alive (lr_mp c)" and e: "map_get (lr_mp c) k' = None" for k'
    using assms by (auto simp: lru_rep_def shows_keys_def not_Some_eq [symmetric] simp del: not_Some_eq)
  from map_set_alive [OF a, of k "lr_fresh c"] obtain m where
    "map_set (lr_mp c) k (lr_fresh c) = Ret m" "map_alive m" "map_get m = (map_get (lr_mp c))(k \<mapsto> lr_fresh c)" by blast
  with assms e show ?thesis
    by (auto simp: lru_Put_def new_node_def lru_rep_def linked_def shows_keys_def lru_abs_def)
qed

lemma Put_miss_refines:
  assumes "lru_rep c xs" and "xs \<noteq> []" and "map_get (lr_mp c) k = None" and "2 \<le> lr_cap c"
  shows "\<exists>c' ys. lru_Put k v c = Ret c' \<and> lru_rep c' ys \<and> lr_cap c' = lr_cap c
    \<and> lru_abs c' ys = (k, v) # (if int (length xs) \<ge> lr_cap c then butlast (lru_abs c xs) else lru_abs c xs)"
proof -
  obtain n c1 where nn: "new_node k v c = (n, c1)" by fastforce
  note n = new_node_rep [OF assms(1) nn]
  have len: "map_len (lr_mp c1) = length xs" using rep_len n by blast
  have h: "lr_head c \<noteq> None" using assms(1,2) by (simp add: lru_rep_def)
  show ?thesis
  proof (cases "int (length xs) \<ge> lr_cap c")
    case True
    with assms(4) obtain ys a where ys: "xs = ys @ [a]" "ys \<noteq> []"
      by (cases xs rule: rev_cases; cases "butlast xs") auto
    with delTail_rep [of c1 ys a] n obtain c2 where
      c2: "delTail c1 = Ret c2" "lru_rep c2 ys" "lru_abs c2 ys = lru_abs c1 ys" "lr_cap c2 = lr_cap c"
        "lr_fresh c2 = lr_fresh c1" "n_key (lr_heap c2 n) = k" "n_value (lr_heap c2 n) = v" by auto
    have "map_get (lr_mp c2) k = None"
      using c2(1) n assms(3) ys by (auto simp: delTail_def set_next_def Let_def split: option.splits)
    with link_new_rep [OF c2(2) ys(2), of n k] n c2 ys obtain m c' where
      "map_set (lr_mp c2) k n = Ret m" "insert_at_head n (c2\<lparr>lr_mp := m\<rparr>) = Ret c'"
      "lru_rep c' (n # ys)" "lru_abs c' (n # ys) = (k, v) # lru_abs c1 ys" "lr_cap c' = lr_cap c" by auto
    moreover have "lru_abs c1 ys = butlast (lru_abs c xs)" using n ys by (auto simp: lru_abs_def butlast_append)
    ultimately show ?thesis using True nn h len n c2 assms(3) by (auto simp: lru_Put_def)
  next
    case False
    from link_new_rep [of c1 xs n k] n assms obtain m c' where
      "map_set (lr_mp c1) k n = Ret m" "insert_at_head n (c1\<lparr>lr_mp := m\<rparr>) = Ret c'"
      "lru_rep c' (n # xs)" "lru_abs c' (n # xs) = (k, v) # lru_abs c xs" "lr_cap c' = lr_cap c" by auto
    with False nn h len n assms(3) show ?thesis by (auto simp: lru_Put_def)
  qed
qed

lemma lru_do_refines:
  assumes "lru_rep c xs" and "spares_head x (lru_abs c xs)" and "2 \<le> lr_cap c"
  shows "\<exists>c' ys. lru_do x c = Ret (fst (spec_do (lr_cap c) x (lru_abs c xs)), c') \<and> lru_rep c' ys
    \<and> lru_abs c' ys = snd (spec_do (lr_cap c) x (lru_abs c xs)) \<and> lr_cap c' = lr_cap c"
proof (cases x)
  case (LGet k)
  with Get_refines [OF assms(1)] assms(2) show ?thesis by simp
next
  case (LPut k v)
  consider "xs = []" | a where "map_get (lr_mp c) k = Some a" | "xs \<noteq> []" "map_get (lr_mp c) k = None"
    by (cases "map_get (lr_mp c) k") auto
  then show ?thesis
  proof cases
    case 1
    with Put_first_refines [of c k v] assms LPut show ?thesis by (fastforce simp: spec_Put_def lru_abs_def)
  next
    case (2 a)
    with Put_hit_refines [OF assms(1), of k v a] assms LPut obtain c' ys where
      "lru_Put k v c = Ret c'" "lru_rep c' ys" "lru_abs c' ys = (k, v) # without k (lru_abs c xs)" "lr_cap c' = lr_cap c"
      by auto
    with 2 LPut rep_lookup [OF assms(1), of k] show ?thesis by (auto simp: spec_Put_def)
  next
    case 3
    with Put_miss_refines [OF assms(1), of k v] assms(3) obtain c' ys where
      "lru_Put k v c = Ret c'" "lru_rep c' ys" "lr_cap c' = lr_cap c"
      "lru_abs c' ys = (k, v) # (if int (length xs) \<ge> lr_cap c then butlast (lru_abs c xs) else lru_abs c xs)"
      by auto
    with 3 LPut rep_lookup [OF assms(1), of k] show ?thesis by (auto simp: spec_Put_def lru_abs_def)
  qed
qed

lemma lru_run_refines:
  "lru_rep c xs \<Longrightarrow> all_spare_head (lr_cap c) ops (lru_abs c xs) \<Longrightarrow> 2 \<le> lr_cap c \<Longrightarrow>
   \<exists>c' ys. lru_run ops c = Ret (fst (spec_run (lr_cap c) ops (lru_abs c xs)), c') \<and> lru_rep c' ys
     \<and> lru_abs c' ys = snd (spec_run (lr_cap c) ops (lru_abs c xs))"
proof (induction ops arbitrary: c xs)
  case (Cons x ops)
  from Cons.prems have s: "spares_head x (lru_abs c xs)" by simp
  from lru_do_refines [OF Cons.prems(1) s Cons.prems(3)] obtain c1 ys where
    1: "lru_do x c = Ret (fst (spec_do (lr_cap c) x (lru_abs c xs)), c1)" "lru_rep c1 ys"
      "lru_abs c1 ys = snd (spec_do (lr_cap c) x (lru_abs c xs))" "lr_cap c1 = lr_cap c" by blast
  with Cons.IH [of c1 ys] Cons.prems obtain c2 zs where
    "lru_run ops c1 = Ret (fst (spec_run (lr_cap c) ops (lru_abs c1 ys)), c2)" "lru_rep c2 zs"
    "lru_abs c2 zs = snd (spec_run (lr_cap c) ops (lru_abs c1 ys))" by auto
  with 1 show ?case by (auto simp: Let_def split_beta)
qed auto

lemma NewLRUCache_rep: "lru_rep (NewLRUCache cap) []"
  by (simp add: lru_rep_def NewLRUCache_def linked_def shows_keys_def)

section \<open>Claims\<close>

text \<open>
  (C15) The linked cache is a least-recently-used cache, as long as no operation is on the key that
  is the most recent one already: from an empty cache of capacity at least two, every such sequence
  of \<open>Get\<close> and \<open>Put\<close> runs without a panic and returns what the list specification returns, with
  the eviction of the least recently used key at the capacity, and the nodes of the final heap
  hold the specified contents in order.
\<close>

theorem lru_refines_list:
  assumes "2 \<le> cap" and "all_spare_head cap ops []"
  shows "\<exists>c xs. lru_run ops (NewLRUCache cap) = Ret (fst (spec_run cap ops []), c) \<and> lru_rep c xs
    \<and> lru_abs c xs = snd (spec_run cap ops [])"
proof -
  have "lru_abs (NewLRUCache cap) [] = []" "lr_cap (NewLRUCache cap) = cap"
    by (simp_all add: lru_abs_def NewLRUCache_def)
  with lru_run_refines [OF NewLRUCache_rep, of cap ops] assms show ?thesis by simp
qed

definition lru_sample :: "lru_op list" where
  "lru_sample = [LPut ''a'' ''1'', LPut ''b'' ''2'', LGet ''a'', LPut ''c'' ''3'', LGet ''b'', LGet ''a'']"

theorem lru_refines_list_witness:
  "\<exists>c. lru_run lru_sample (NewLRUCache 2) = Ret ([None, None, Some ''1'', None, None, Some ''1''], c)"
proof -
  have "all_spare_head 2 lru_sample []" by code_simp
  from lru_refines_list [OF _ this] obtain c where
    c: "lru_run lru_sample (NewLRUCache 2) = Ret (fst (spec_run 2 lru_sample []), c)" by auto
  have "fst (spec_run 2 lru_sample []) = [None, None, Some ''1'', None, None, Some ''1'']" by code_simp
  with c show ?thesis by auto
qed

text \<open>
  The most recent key is not handled: \<open>removeAndInsert\<close> on the head makes the head its own
  successor and its own predecessor, so that the rest of the list is no longer reachable from it.
\<close>

lemma lru_head_hit_makes_cycle:
  assumes "lr_head c = Some a" and "map_get (lr_mp c) key = Some a"
  shows "\<exists>c'. lru_Get key c = Ret (Some (n_value (lr_heap c a)), c') \<and> lr_head c' = Some a
    \<and> n_next (lr_heap c' a) = Some a \<and> n_prev (lr_heap c' a) = Some a"
  using assms
  by (simp add: lru_Get_def removeAndInsert_def lru_unlink_def insert_at_head_def set_prev_def)

text \<open>
  What comes of it. In a cache of capacity three the key \<open>b\<close> is read twice, once as the most
  recent one; later the cache evicts it although \<open>c\<close> is the least recently used key, and keeps
  \<open>c\<close>. And a cache of capacity one panics on its second key.
\<close>

lemma lru_evicts_wrong_key:
  defines "ops \<equiv> [LPut ''a'' ''1'', LPut ''b'' ''2'', LGet ''b'', LPut ''c'' ''3'', LGet ''b'', LPut ''d'' ''4'', LPut ''e'' ''5'']"
  shows "lru_results (ops @ [LGet ''b'', LGet ''c'']) (NewLRUCache 3)
      = Ret [None, None, Some ''2'', None, Some ''2'', None, None, None, Some ''3'']
    \<and> fst (spec_run 3 (ops @ [LGet ''b'', LGet ''c'']) [])
      = [None, None, Some ''2'', None, Some ''2'', None, None, Some ''2'', None]
    \<and> lru_results [LPut ''a'' ''1'', LPut ''b'' ''2''] (NewLRUCache 1) = Panic NilDereference"
  unfolding ops_def by (intro conjI) code_simp+

text \<open>The exercise of \<open>test\<close> reads the most recent key, and is too short to show the consequence.\<close>

lemma test_goroutine_results:
  "lru_results (test_goroutine 0) (NewLRUCache 3) = Ret [None, None, None, None, Some ''2'', None, Some ''2'']
   \<and> \<not> all_spare_head 3 (test_goroutine 0) []"
  by (intro conjI) code_simp+

end
