(* ===== verification/Hypervisor.thy ===== *)
theory Hypervisor
  imports Base
begin

text \<open>
  \<open>scripts/hypervisor.c\<close>: the program that keeps the service running. It splits the command line
  it is given, starts the command, waits until the process has ended and its pipe is closed, pauses,
  and starts it again; the pause doubles with every restart up to three minutes and falls back after
  an hour. What the operating system answers during one life of the child is an argument.
\<close>

section \<open>Constants\<close>

definition MAXOPT :: nat where "MAXOPT = 256"
definition INTERVAL :: int where "INTERVAL = 5"
definition MAXINTERVAL :: int where "MAXINTERVAL = 180"

section \<open>The command line\<close>

text \<open>\<open>strtok_r\<close> called until it returns NULL.\<close>

definition is_delim :: "char \<Rightarrow> bool" where
  "is_delim c \<longleftrightarrow> c = CHR '' '' \<or> c = CHR 0x09 \<or> c = CHR 0x0A"

function strtok_all :: "string \<Rightarrow> string list" where
  "strtok_all s =
     (let s' = dropWhile is_delim s
      in if s' = [] then []
         else takeWhile (\<lambda>c. \<not> is_delim c) s' # strtok_all (dropWhile (\<lambda>c. \<not> is_delim c) s'))"
  by pat_completeness auto
termination
proof (relation "measure length")
  fix s s' assume s': "s' = dropWhile is_delim s" and "s' \<noteq> []"
  then have "\<not> is_delim (hd s')" using hd_dropWhile by metis
  with \<open>s' \<noteq> []\<close> have "length (dropWhile (\<lambda>c. \<not> is_delim c) s') < length s'"
    by (cases s') (auto simp: le_imp_less_Suc length_dropWhile_le)
  also have "length s' \<le> length s" using s' by (simp add: length_dropWhile_le)
  finally show "(dropWhile (\<lambda>c. \<not> is_delim c) s', s) \<in> measure length" by simp
qed simp

declare strtok_all.simps [simp del]

text \<open>
  What \<open>getopt_long\<close> returns, one value per call: the option \<open>e\<close> with its argument, \<open>d\<close>, or
  anything else. In its short form \<open>e\<close> has no argument, and \<open>strdup\<close> of NULL crashes.
\<close>

datatype getopt = Opt_e "string option" | Opt_d | Opt_other

datatype 'a parsed = Failed string | Crash | Parsed 'a

fun parse_options :: "getopt list \<Rightarrow> string option \<Rightarrow> bool \<Rightarrow> (string option \<times> bool) parsed" where
  "parse_options [] cmdstr daemon = Parsed (cmdstr, daemon)"
| "parse_options (Opt_e (Some arg) # os) cmdstr daemon = parse_options os (Some arg) daemon"
| "parse_options (Opt_e None # os) cmdstr daemon = Crash"
| "parse_options (Opt_d # os) cmdstr daemon = parse_options os cmdstr True"
| "parse_options (Opt_other # os) cmdstr daemon = Failed ''usage''"

text \<open>The result is \<open>cmd\<close>, the argument vector \<open>cmdopt\<close> and the flag \<open>daemonize\<close>.\<close>

definition check_cmdopt :: "string list \<Rightarrow> bool \<Rightarrow> (string \<times> string list \<times> bool) parsed" where
  "check_cmdopt cmdopt daemon =
     (case cmdopt of
        [] \<Rightarrow> Failed ''Error, cmd should not be empty.''
      | cmd # _ \<Rightarrow>
          if length cmdopt = MAXOPT + 1 then Failed ''Argument too long'' else Parsed (cmd, cmdopt, daemon))"

definition parseopt :: "getopt list \<Rightarrow> (string \<times> string list \<times> bool) parsed" where
  "parseopt os =
     (case parse_options os None False of
        Failed e \<Rightarrow> Failed e
      | Crash \<Rightarrow> Crash
      | Parsed (None, _) \<Rightarrow> Failed ''usage''
      | Parsed (Some cmdstr, daemon) \<Rightarrow> check_cmdopt (take (MAXOPT + 1) (strtok_all cmdstr)) daemon)"

section \<open>One life of the child\<close>

datatype wait_status = Exited int | Signaled int bool | Stopped int

definition getstatus :: "wait_status \<Rightarrow> string" where
  "getstatus status =
     (case status of
        Exited n \<Rightarrow> ''- normal termination, exit status = '' @ FormatInt n @ nl
      | Signaled n core \<Rightarrow>
          ''- abnormal termination, signal number = '' @ FormatInt n @ (if core then ''-> core file generated'' else [])
      | Stopped n \<Rightarrow> ''child stopped, signal number = '' @ FormatInt n @ nl)"

datatype read_result = R_again | R_error | R_zero | R_bytes nat

text \<open>
  \<open>life_failed\<close> is the error of \<open>pipe\<close>, \<open>fcntl\<close> or \<open>fork\<close>, \<open>life_ended\<close> the time at which \<open>waitpid\<close> has
  returned, \<open>life_reads\<close> what the reads of the pipe return then, and \<open>life_now\<close> the time after the
  pause.
\<close>

record child_life =
  life_failed :: "string option"
  life_ended :: int
  life_status :: wait_status
  life_reads :: "read_result list"
  life_now :: int

text \<open>The inner loop on the pipe: \<open>None\<close> while it is still polling, otherwise an exit or the info.\<close>

fun drain_pipe :: "wait_status \<Rightarrow> bool \<Rightarrow> read_result list \<Rightarrow> (string + string) option" where
  "drain_pipe status isdaemon [] = None"
| "drain_pipe status isdaemon (R_again # rs) = drain_pipe status True rs"
| "drain_pipe status isdaemon (R_error # rs) = Some (Inl ''read pipe error'')"
| "drain_pipe status isdaemon (R_bytes n # rs) = Some (Inl ''read pipe return'')"
| "drain_pipe status isdaemon (R_zero # rs) = Some (Inr (if \<not> isdaemon then getstatus status else []))"

record supervisor =
  sp_ssec :: int
  sp_first_start :: bool
  sp_last :: int

definition sp_init :: "int \<Rightarrow> supervisor" where
  "sp_init now = \<lparr>sp_ssec = INTERVAL, sp_first_start = True, sp_last = now\<rparr>"

datatype life_result = Exit string | Polling | Restart supervisor int

definition next_pause :: "supervisor \<Rightarrow> int \<Rightarrow> supervisor" where
  "next_pause s now =
     (if now - sp_last s > 3600 then s\<lparr>sp_ssec := INTERVAL, sp_last := now\<rparr>
      else s\<lparr>sp_ssec := if sp_ssec s * 2 < MAXINTERVAL then sp_ssec s * 2 else MAXINTERVAL\<rparr>)"

definition supervise :: "supervisor \<Rightarrow> child_life \<Rightarrow> life_result" where
  "supervise s life =
     (case life_failed life of
        Some e \<Rightarrow> Exit e
      | None \<Rightarrow>
          if sp_first_start s \<and> life_ended life - sp_last s \<le> 5 then Exit ''child process killed''
          else (let s1 = s\<lparr>sp_first_start := False\<rparr>
                in case drain_pipe (life_status life) False (life_reads life) of
                     None \<Rightarrow> Polling
                   | Some (Inl e) \<Rightarrow> Exit e
                   | Some (Inr info) \<Rightarrow> Restart (next_pause s1 (life_now life)) (sp_ssec s1)))"

text \<open>The pauses of a run, until it exits or keeps polling.\<close>

fun pauses :: "supervisor \<Rightarrow> child_life list \<Rightarrow> int list" where
  "pauses s [] = []"
| "pauses s (l # ls) = (case supervise s l of Restart s' p \<Rightarrow> p # pauses s' ls | _ \<Rightarrow> [])"

section \<open>Lemmas\<close>

lemma supervise_Restart:
  "supervise s l = Restart s' p \<Longrightarrow> p = sp_ssec s \<and> s' = next_pause (s\<lparr>sp_first_start := False\<rparr>) (life_now l)"
  by (auto simp: supervise_def Let_def split: option.split_asm if_split_asm sum.split_asm)

lemma pauses_bounds:
  "INTERVAL \<le> sp_ssec s \<and> sp_ssec s \<le> MAXINTERVAL \<Longrightarrow> p \<in> set (pauses s ls) \<Longrightarrow> INTERVAL \<le> p \<and> p \<le> MAXINTERVAL"
proof (induction ls arbitrary: s)
  case (Cons l ls)
  show ?case
  proof (cases "supervise s l")
    case (Restart s' q)
    from supervise_Restart [OF this] have "q = sp_ssec s" "INTERVAL \<le> sp_ssec s'" "sp_ssec s' \<le> MAXINTERVAL"
      using Cons.prems(1) by (auto simp: next_pause_def INTERVAL_def MAXINTERVAL_def)
    with Restart Cons show ?thesis by auto
  qed (use Cons.prems in simp_all)
qed simp

lemma pauses_double:
  assumes "\<forall>l \<in> set ls. life_now l - sp_last s \<le> 3600" and "sp_ssec s = min 180 (5 * 2 ^ n)"
  shows "pauses s ls = map (\<lambda>i. min 180 (5 * 2 ^ (n + i))) [0..<length (pauses s ls)]"
  using assms
proof (induction ls arbitrary: s n)
  case (Cons l ls)
  show ?case
  proof (cases "supervise s l")
    case (Restart s' q)
    note r = supervise_Restart [OF Restart]
    have "sp_last s' = sp_last s" "sp_ssec s' = min 180 (5 * 2 ^ Suc n)"
      using r Cons.prems by (auto simp: next_pause_def MAXINTERVAL_def min_def)
    then have "pauses s' ls = map (\<lambda>i. min 180 (5 * 2 ^ (Suc n + i))) [0..<length (pauses s' ls)]"
      using Cons.IH [of s' "Suc n"] Cons.prems by simp
    then have "pauses s (l # ls) = min 180 (5 * 2 ^ n) # map (\<lambda>i. min 180 (5 * 2 ^ (n + Suc i))) [0..<length (pauses s' ls)]"
      using Restart r Cons.prems(2) by simp
    also have "\<dots> = map (\<lambda>i. min 180 (5 * 2 ^ (n + i))) [0..<Suc (length (pauses s' ls))]"
      by (subst (2) upt_conv_Cons) (simp_all add: map_Suc_upt [symmetric] comp_def del: upt_Suc)
    finally show ?thesis using Restart by simp
  qed simp_all
qed simp

text \<open>The tokens of a command are its words: no word is empty or has a delimiter.\<close>

lemma strtok_all_words: "w \<in> set (strtok_all s) \<Longrightarrow> w \<noteq> [] \<and> list_all (\<lambda>c. \<not> is_delim c) w"
proof (induction s rule: strtok_all.induct)
  case (1 s)
  note IH = 1(1)
  show ?case
  proof (cases "dropWhile is_delim s")
    case Nil
    then show ?thesis using 1 by (simp add: strtok_all.simps)
  next
    case (Cons c cs)
    then have "\<not> is_delim c" using hd_dropWhile [of is_delim s] by simp
    have e: "strtok_all s = takeWhile (\<lambda>c. \<not> is_delim c) (c # cs) # strtok_all (dropWhile (\<lambda>c. \<not> is_delim c) (c # cs))"
      by (subst strtok_all.simps) (simp add: Cons Let_def)
    from 1(2) consider "w = takeWhile (\<lambda>c. \<not> is_delim c) (c # cs)"
      | "w \<in> set (strtok_all (dropWhile (\<lambda>c. \<not> is_delim c) (c # cs)))" unfolding e by auto
    then show ?thesis
    proof cases
      case 1
      then show ?thesis using \<open>\<not> is_delim c\<close> by (auto simp: list_all_iff dest: set_takeWhileD)
    next
      case 2
      then show ?thesis using IH [OF refl] Cons by simp
    qed
  qed
qed

lemma parseopt_words:
  assumes "parseopt os = Parsed (cmd, cmdopt, daemon)"
  shows "cmdopt \<noteq> [] \<and> cmd = hd cmdopt \<and> length cmdopt \<le> MAXOPT \<and> (\<forall>w \<in> set cmdopt. w \<noteq> [])"
proof -
  from assms obtain cmdstr d where p: "check_cmdopt (take (MAXOPT + 1) (strtok_all cmdstr)) d = Parsed (cmd, cmdopt, daemon)"
    by (auto simp: parseopt_def split: parsed.split_asm option.split_asm)
  have "check_cmdopt xs d = Parsed (cmd, cmdopt, daemon) \<Longrightarrow>
      cmdopt = xs \<and> length cmdopt \<noteq> MAXOPT + 1 \<and> cmdopt \<noteq> [] \<and> cmd = hd cmdopt" for xs
    by (cases xs) (auto simp: check_cmdopt_def split: if_split_asm)
  from this [OF p] have c: "cmdopt = take (MAXOPT + 1) (strtok_all cmdstr)" "length cmdopt \<noteq> MAXOPT + 1"
    "cmdopt \<noteq> []" "cmd = hd cmdopt" by blast+
  have "length cmdopt \<le> MAXOPT + 1" using c(1) by simp
  moreover have "w \<noteq> []" if "w \<in> set cmdopt" for w
    using that strtok_all_words [of w cmdstr] unfolding c(1) by (blast dest: in_set_takeD)
  ultimately show ?thesis using c(2-4) by auto
qed

section \<open>Claims\<close>

text \<open>
  (C26) The pause before a restart always lies between five seconds and three minutes, and as long
  as the service keeps ending within an hour of the start of the counting, the pauses are five
  seconds doubled each time and then three minutes.
\<close>

theorem restart_backoff:
  "(\<forall>p \<in> set (pauses (sp_init t) lives). 5 \<le> p \<and> p \<le> 180)
   \<and> ((\<forall>l \<in> set lives. life_now l - t \<le> 3600) \<longrightarrow>
      pauses (sp_init t) lives = map (\<lambda>i. min 180 (5 * 2 ^ i)) [0..<length (pauses (sp_init t) lives)])"
  using pauses_bounds [of "sp_init t" _ lives] pauses_double [of lives "sp_init t" 0]
  by (auto simp: sp_init_def INTERVAL_def MAXINTERVAL_def)

definition sample_life :: "int \<Rightarrow> child_life" where
  "sample_life t = \<lparr>life_failed = None, life_ended = t, life_status = Exited 1, life_reads = [R_again, R_zero], life_now = t + 10\<rparr>"

theorem restart_backoff_witness:
  "pauses (sp_init 0) (map sample_life [100, 200, 300, 400, 500, 600, 700]) = [5, 10, 20, 40, 80, 160, 180]"
proof -
  let ?ls = "map sample_life [100, 200, 300, 400, 500, 600, 700]"
  have "\<forall>l \<in> set ?ls. life_now l - 0 \<le> 3600" by (simp add: sample_life_def)
  with restart_backoff [of 0 ?ls] have
    p: "pauses (sp_init 0) ?ls = map (\<lambda>i. min 180 (5 * 2 ^ i)) [0..<length (pauses (sp_init 0) ?ls)]" by blast
  have n: "length (pauses (sp_init 0) ?ls) = 7" by code_simp
  have "map (\<lambda>i. min 180 (5 * 2 ^ i)) [0..<7] = [5, 10, 20, 40, 80, 160, 180 :: int]" by code_simp
  then show ?thesis by (rule trans [OF p [unfolded n]])
qed

end
