(* ===== verification/Spec2Isabelle.thy ===== *)
theory Spec2Isabelle
  imports Replication Pipeline Detection Wire Lamport Lru Hypervisor
begin

text \<open>
  A model of stcache, a service that watches keys (\<open>couchbase-ha-service\<close>, in Go).

  \<^bold>\<open>The program.\<close> Every node of a cluster keeps a replicated key-value store. For every key it runs
  a verification script again and again, turns the last results into a verdict, and tells the
  verdict to the other nodes by gossip. The leader counts the fresh reports of all nodes; when a
  quorum agrees that the status of a key has changed it records the event in the replicated log and
  runs a notification script. An HTTP interface reads and writes the store and shows the tables.

  \<^bold>\<open>The theories\<close>, in the order of their imports, with the files under \<open>src/src/couchbase-ha-service\<close>.

  \<^item> \<open>Go_Prelude\<close>, \<open>Go_Strings\<close>, \<open>Go_Json\<close>: what the source uses of Go and its standard library.
    A run-time panic is a value of the sum type \<open>'a go\<close>; a map is an association list under an
    \<open>option\<close>, \<open>None\<close> being the nil map; the order of a \<open>range\<close> loop over a map is an argument with the
    hypothesis \<open>go_order\<close> that it is a permutation; \<open>int64\<close> wraps by \<open>i64\<close>; a time is its number of
    nanoseconds; JSON is printed and parsed byte by byte, the parser with fuel for which the length
    of the input is shown to be enough.
  \<^item> \<open>Base\<close> (\<open>base.go\<close>), \<open>Options\<close> (\<open>options.go\<close>), \<open>Shell_Cmd\<close> (\<open>shellCmd.go\<close>), \<open>Gpool\<close> (\<open>gpool.go\<close>).
    The pool's \<open>Add\<close>, \<open>Done\<close> and \<open>Wait\<close> are steps of a relation over all interleavings.
  \<^item> \<open>Cache\<close> (\<open>cache.go\<close>): the store. The locale \<open>kv_store\<close> is the contract its clients use; it is
    interpreted on the store's own operations as \<open>cmkv\<close>.
  \<^item> \<open>Gossip_Cache\<close> (\<open>gossipCache.go\<close>): the table with the reports of all nodes and the replicated
    fields of every key. The locale \<open>lww_table\<close>, interpreted as \<open>gcmtab\<close>, is a table in which the newest
    report wins; convergence is proved in it.
  \<^item> \<open>Detector\<close> (\<open>commonDetector.go\<close>), \<open>Verifier\<close> (\<open>commonVerifier.go\<close>): ring buffers of samples and
    the verdict. The locale \<open>sample_window\<close>, interpreted as \<open>ring\<close>, is the contract of a window.
  \<^item> \<open>Transmit_Queue\<close> (the library's \<open>memberlist/queue.go\<close>), \<open>Delegate\<close> (\<open>delegate.go\<close>, \<open>gossip.go\<close>):
    broadcasts and received messages. The loops of the queue have termination proofs.
  \<^item> \<open>Bridge\<close> (\<open>bridge.go\<close>), \<open>Scavenger\<close> (\<open>scavenger.go\<close>), \<open>Fsm\<close> (\<open>fsm.go\<close>, \<open>snapshot.go\<close>), \<open>Http\<close>
    (\<open>http.go\<close>, the handlers of \<open>commonDetector.go\<close>, the membership of \<open>stCached.go\<close>), \<open>Quorum\<close>
    (\<open>quorum.go\<close>): one definition per method. The answers of the raft and gossip libraries, the
    clock and the outcome of a script are arguments.
  \<^item> \<open>Cluster\<close> (\<open>cluster.go\<close>, the start in \<open>stCached.go\<close>) and \<open>Service\<close> (\<open>main.go\<close>): a node as a
    whole. \<open>service\<close> holds the state of all components and the items on the way through the channels;
    \<open>service_step\<close> has one rule for every locked operation of every goroutine that \<open>main\<close> starts and
    for the calls of the two libraries, so that \<open>service_run\<close> covers all interleavings. A round of the
    scavenger is one step per copy and per deletion, one of the quorum check a step per key.
  \<^item> \<open>Replication\<close>: several such nodes and one committed log. The steps are those of the nodes and the
    calls that \<open>runFSM\<close> of the raft library makes: entries in order, snapshots that are written late,
    their installation, restarts. The invariant \<open>between\<close> says, key by key, at which index of the log a
    store is.
  \<^item> \<open>Pipeline\<close>: the two pipelines of \<open>main.go\<close> (\<open>makeGossip1\<close>, \<open>verify\<close> and \<open>makeGossip2\<close>;
    \<open>quorumCheck1\<close>, \<open>doTimeoutShellCmd\<close> and \<open>quorumCheck2\<close>) with their unbuffered channels, the pool and
    the context. One step relation models both; it refines that of \<open>Gpool\<close>. The locales \<open>goroutine\<close> and
    \<open>answering\<close> are the contract of the pool's goroutines, interpreted on the two workers.
  \<^item> \<open>Detection\<close>: what a leader does with a batch of messages, composed from the bytes of the messages
    to the log entry that records the decision.
  \<^item> \<open>Membership\<close> (the library's \<open>memberlist/state.go\<close>, \<open>suspicion.go\<close>, \<open>awareness.go\<close>): who is a member.
    Incarnation numbers are 32-bit words (\<open>Go_Word\<close>); \<open>ml_step\<close> has one rule for every handler.
  \<^item> \<open>Wire\<close> (\<open>memberlist/net.go\<close>, \<open>util.go\<close>, \<open>broadcast.go\<close>, \<open>gossip\<close> of \<open>state.go\<close>): the packets of a
    round of gossip, byte by byte, and what the receiver does with them, down to the calls of
    \<open>Membership\<close> and \<open>Delegate\<close>. A slice has the bytes between its length and its capacity with it,
    since the code can slice beyond the length.
  \<^item> \<open>Lamport\<close> (\<open>lamport.go\<close>) and \<open>Lru\<close> (\<open>lru.go\<close>): two data structures of the package, the clock as
    threads that interleave between load and swap of a 64-bit word, the cache as nodes in a heap.
  \<^item> \<open>Hypervisor\<close> (\<open>scripts/hypervisor.c\<close>): the C program that restarts the service.

  \<^bold>\<open>What is shown.\<close> For a node: every reachable state is well-formed and the only panics are those
  whose cause the theorem names. For gossip: nodes that get the same messages in any order converge,
  a node hands on a bounded number of broadcasts, what a round of gossip sends fits into a packet and
  arrives in the inbox of the receiver, whose goroutines leave no message waiting, every verdict is
  reported under a later timestamp. For the members: the number the broadcast queue works with is the
  number of members, and a node that is wrongly accused stays one. For the log: replicas of one log agree on the store and the
  replicated fields; in a cluster every read is of a log prefix not behind what the node has applied,
  a snapshot that is written late does no harm once the node has caught up, and every node can catch
  up. For the goroutines: both pipelines never deadlock, lose nothing, duplicate nothing, and are idle
  again after finitely many steps. For decisions: fresh reports of a quorum lead from the wire to the
  recorded status; decisions need a quorum of fresh reports, do not depend on map orders under a majority, start the script exactly on
  a change and once per interval. For verification: the verdict is a function of the last samples and the rounds are paced. For
  the interface: an accepted write is what readers get, only the leader writes, a joining node starts
  exactly when the leader accepted it. For the supervisor: the pauses before
  restarts. Other theorems state where the code does not do this: the
  scavenger and snapshots lose replicated fields, a vote below a majority depends on the map order, a
  log entry on a fresh key makes the next report panic, the queue can lose a report, early requests
  panic, an empty command or a short version vector in a packet ends the service, the cache evicts a wrong key after a hit on its head, a cancelled context can leave the
  verification pipeline waiting for ever.

  \<^bold>\<open>Bounds.\<close> Fewer than \<open>2 ^ 63\<close> verifications happen to a key, since the index of its ring buffer is
  an \<open>int\<close>; timestamps stay below the end of \<open>int64\<close>, in the year 2262, where the statement says so.
  Texts of the round trips are ASCII. The handling of packets has a depth as fuel, since a compressed
  payload may contain another one without end; depth 3 is shown to be enough for what gossip sends. The logical clock is 64 bits wide and its wrap-around is written
  out.

  \<^bold>\<open>Not modelled.\<close> The raft protocol; of the gossip library the probing, the sockets, the streams of
  state transfers, the lengths of timers and the encoding of structs; HTTP and URL decoding, routing,
  files and processes: these are libraries or the operating system, and their answers are arguments
  or steps that may happen at any time. Logging is output that nothing reads. \<open>wait_signal\<close>, which nothing calls, waits for a signal and cancels the context; its effect is
  the step \<open>cancel\<close> of \<open>Pipeline\<close>. A step holds one lock from begin to end; where the source locks
  twice, as in the verification worker, there are two steps. In \<open>Service\<close> the channels are lists of
  items, any of which may go next; that they block and that the pool is bounded is the subject of
  \<open>Pipeline\<close>, which in turn abstracts from the state the goroutines work on. That the raft library
  commits one log and gives it to every node in order is what \<open>Replication\<close> takes from it.
\<close>

end
